(* ===== verification/Shell_Prelude.thy ===== *)
theory Shell_Prelude
  imports Main "HOL-Library.Word" "HOL-Library.Multiset" "HOL-Library.Char_ord"
    "HOL-Library.List_Lexorder" "HOL-Library.Signed_Division"
begin

text \<open>
  Shared vocabulary of the development.

  \<^item> \<open>fault\<close> lists what a C program can do wrong (dereference NULL, touch freed memory,
    leave an array, overflow a signed integer, fail an assertion). An operation that may do
    so has a result of type \<open>fault + 'a\<close>; \<open>rbind\<close> sequences two of them.
  \<^item> \<open>c_add\<close> and \<open>c_mul\<close> are \<open>int\<close> arithmetic of the LP64 machine the shell
    runs on: a sum or product outside the 32-bit signed range is a fault, as it is undefined
    behaviour in C.
  \<^item> \<open>alloc_ok\<close> is the outcome of the next \<open>malloc\<close> or \<open>calloc\<close>, read from an
    arbitrary list, so that a statement for every list covers every pattern of failures.
  \<^item> a typed heap is a list of cells; the address of an object is its index, a pointer is an
    address or NULL, and a freed cell stays empty so that a later use of it is a fault.
  \<^item> heap strings are counted in a multiset by their contents: releasing a string that is not
    live is a fault, and a leak shows as a string that stays in the multiset.
\<close>

named_theorems result_simps \<open>how faulting computations run\<close>
named_theorems heap_simps \<open>reading and writing typed heaps\<close>

section \<open>Faults and faulting computations\<close>

datatype fault =
    NullPointer
  | BadPointer
  | OutOfBounds
  | BufferOverflow
  | SignedOverflow
  | DivisionByZero
  | CtypeDomain
  | AssertFailed

definition rbind :: "'e + 'a \<Rightarrow> ('a \<Rightarrow> 'e + 'b) \<Rightarrow> 'e + 'b" where
  "rbind r f = (case r of Inl e \<Rightarrow> Inl e | Inr x \<Rightarrow> f x)"

lemma rbind_Inl [simp, result_simps]: "rbind (Inl e) f = Inl e"
  by (simp add: rbind_def)

lemma rbind_Inr [simp, result_simps]: "rbind (Inr x) f = f x"
  by (simp add: rbind_def)

lemma rbind_Inr_right [simp, result_simps]: "rbind r Inr = r"
  by (simp add: rbind_def split: sum.splits)

lemma rbind_eq_Inr_iff: "rbind r f = Inr y \<longleftrightarrow> (\<exists>x. r = Inr x \<and> f x = Inr y)"
  by (simp add: rbind_def split: sum.splits)

lemma Inr_eq_rbind_iff: "Inr y = rbind r f \<longleftrightarrow> (\<exists>x. r = Inr x \<and> f x = Inr y)"
  using rbind_eq_Inr_iff [of r f y] by (simp only: eq_commute [of "Inr y"])

lemma rbind_eq_InrE:
  assumes "rbind r f = Inr y"
  obtains x where "r = Inr x" "f x = Inr y"
  using assms by (auto simp: rbind_eq_Inr_iff)

lemma rbind_assoc: "rbind (rbind r f) g = rbind r (\<lambda>x. rbind (f x) g)"
  by (simp add: rbind_def split: sum.splits)

lemma rbind_cong [fundef_cong]:
  "r = r' \<Longrightarrow> (\<And>x. r' = Inr x \<Longrightarrow> f x = g x) \<Longrightarrow> rbind r f = rbind r' g"
  by (simp add: rbind_def split: sum.splits)

section \<open>C integers\<close>

definition int_ok :: "int \<Rightarrow> bool" where
  "int_ok i \<longleftrightarrow> - (2 ^ 31) \<le> i \<and> i < 2 ^ 31"

definition c_add :: "int \<Rightarrow> int \<Rightarrow> fault + int" where
  "c_add a b = (if int_ok (a + b) then Inr (a + b) else Inl SignedOverflow)"

definition c_mul :: "int \<Rightarrow> int \<Rightarrow> fault + int" where
  "c_mul a b = (if int_ok (a * b) then Inr (a * b) else Inl SignedOverflow)"

definition c_div :: "int \<Rightarrow> int \<Rightarrow> fault + int" where
  "c_div a b =
     (if b = 0 then Inl DivisionByZero
      else if int_ok (a sdiv b) then Inr (a sdiv b) else Inl SignedOverflow)"

lemma c_add_Inr [result_simps]: "int_ok (a + b) \<Longrightarrow> c_add a b = Inr (a + b)"
  by (simp add: c_add_def)

lemma c_mul_Inr [result_simps]: "int_ok (a * b) \<Longrightarrow> c_mul a b = Inr (a * b)"
  by (simp add: c_mul_def)

lemma sdiv_nonneg: "0 \<le> a \<Longrightarrow> 0 < b \<Longrightarrow> (a::int) sdiv b = a div b"
  by (auto simp: signed_divide_int_def sgn_if)

lemma c_div_Inr [result_simps]:
  assumes "0 \<le> a" "0 < b" "int_ok a"
  shows "c_div a b = Inr (a div b)"
proof -
  have "0 \<le> a div b"
    using assms by (simp add: pos_imp_zdiv_nonneg_iff)
  moreover have "a div b \<le> a div 1"
    using assms by (intro zdiv_mono2) auto
  ultimately show ?thesis using assms
    by (simp add: c_div_def sdiv_nonneg int_ok_def)
qed

section \<open>Allocation and typed heaps\<close>

type_synonym ptr = "nat option"

type_synonym 'o cells = "'o option list"

fun alloc_ok :: "bool list \<Rightarrow> bool \<times> bool list" where
  "alloc_ok [] = (True, [])"
| "alloc_ok (g # gs) = (g, gs)"

definition new_cell :: "'o \<Rightarrow> 'o cells \<Rightarrow> nat \<times> 'o cells" where
  "new_cell x h = (length h, h @ [Some x])"

definition load :: "'o cells \<Rightarrow> ptr \<Rightarrow> fault + 'o" where
  "load h p =
     (case p of
        None \<Rightarrow> Inl NullPointer
      | Some a \<Rightarrow>
          (if a < length h then (case h ! a of None \<Rightarrow> Inl BadPointer | Some x \<Rightarrow> Inr x)
           else Inl BadPointer))"

definition store :: "'o cells \<Rightarrow> ptr \<Rightarrow> 'o \<Rightarrow> fault + 'o cells" where
  "store h p x =
     rbind (load h p) (\<lambda>_. case p of None \<Rightarrow> Inl NullPointer | Some a \<Rightarrow> Inr (h[a := Some x]))"

definition release :: "'o cells \<Rightarrow> ptr \<Rightarrow> fault + 'o cells" where
  "release h p =
     rbind (load h p) (\<lambda>_. case p of None \<Rightarrow> Inl NullPointer | Some a \<Rightarrow> Inr (h[a := None]))"

definition live_at :: "'o cells \<Rightarrow> nat \<Rightarrow> bool" where
  "live_at h a \<longleftrightarrow> a < length h \<and> h ! a \<noteq> None"

definition object_at :: "'o cells \<Rightarrow> nat \<Rightarrow> 'o" where
  "object_at h a = the (h ! a)"

lemma load_None [simp, heap_simps]: "load h None = Inl NullPointer"
  by (simp add: load_def)

lemma load_Some: "load h (Some a) = (if live_at h a then Inr (object_at h a) else Inl BadPointer)"
  by (auto simp: load_def live_at_def object_at_def split: option.splits)

lemma load_live [heap_simps]: "live_at h a \<Longrightarrow> load h (Some a) = Inr (object_at h a)"
  by (simp add: load_Some)

lemma store_live [heap_simps]: "live_at h a \<Longrightarrow> store h (Some a) x = Inr (h[a := Some x])"
  by (simp add: store_def load_live)

lemma release_live [heap_simps]: "live_at h a \<Longrightarrow> release h (Some a) = Inr (h[a := None])"
  by (simp add: release_def load_live)

lemma load_eq_Inr_iff: "load h p = Inr x \<longleftrightarrow> (\<exists>a. p = Some a \<and> live_at h a \<and> x = object_at h a)"
  by (cases p) (auto simp: load_Some)

lemma live_at_update [simp, heap_simps]:
  "live_at (h[a := Some x]) b \<longleftrightarrow> (if a = b then b < length h else live_at h b)"
  by (auto simp: live_at_def)

lemma live_at_release [simp, heap_simps]: "live_at (h[a := None]) b \<longleftrightarrow> b \<noteq> a \<and> live_at h b"
  by (cases "a = b") (auto simp: live_at_def)

lemma object_at_update [simp, heap_simps]:
  "b < length h \<Longrightarrow> object_at (h[a := Some x]) b = (if a = b then x else object_at h b)"
  by (auto simp: object_at_def)

lemma object_at_release [simp, heap_simps]: "b \<noteq> a \<Longrightarrow> object_at (h[a := None]) b = object_at h b"
  by (auto simp: object_at_def)

lemma live_at_append [simp, heap_simps]:
  "live_at (h @ [Some x]) b \<longleftrightarrow> b = length h \<or> live_at h b"
  by (auto simp: live_at_def nth_append)

lemma object_at_append_old [simp, heap_simps]:
  "live_at h b \<Longrightarrow> object_at (h @ [Some x]) b = object_at h b"
  by (auto simp: object_at_def live_at_def nth_append)

lemma object_at_append_new [simp, heap_simps]: "object_at (h @ [Some x]) (length h) = x"
  by (simp add: object_at_def)

lemma live_at_less: "live_at h a \<Longrightarrow> a < length h"
  by (simp add: live_at_def)

section \<open>Heap strings\<close>

type_synonym strheap = "string multiset"

definition str_new :: "string \<Rightarrow> strheap \<Rightarrow> strheap" where
  "str_new s h = add_mset s h"

definition str_free :: "string \<Rightarrow> strheap \<Rightarrow> fault + strheap" where
  "str_free s h = (if s \<in># h then Inr (h - {#s#}) else Inl BadPointer)"

definition str_free_opt :: "string option \<Rightarrow> strheap \<Rightarrow> fault + strheap" where
  "str_free_opt so h = (case so of None \<Rightarrow> Inr h | Some s \<Rightarrow> str_free s h)"

fun str_free_all :: "string list \<Rightarrow> strheap \<Rightarrow> fault + strheap" where
  "str_free_all [] h = Inr h"
| "str_free_all (s # ss) h = rbind (str_free s h) (str_free_all ss)"

lemma str_free_owned [simp]: "str_free s (add_mset s h) = Inr h"
  by (simp add: str_free_def)

lemma str_free_owned_union [simp]: "str_free s (h + {#s#}) = Inr h"
  by (simp add: str_free_def)

lemma str_free_all_owned: "str_free_all ss (mset ss + h) = Inr h"
  by (induction ss arbitrary: h) (auto simp: str_free_def)

lemma str_free_opt_owned: "str_free_opt so (mset (case so of None \<Rightarrow> [] | Some s \<Rightarrow> [s]) + h) = Inr h"
  by (cases so) (auto simp: str_free_opt_def str_free_def)


section \<open>Lists of lists\<close>

lemma list_update_split:
  assumes "i < length xs"
  obtains ls rs where "xs = ls @ xs ! i # rs" "length ls = i" "\<And>c. xs[i := c] = ls @ c # rs"
proof
  show "xs = take i xs @ xs ! i # drop (Suc i) xs"
    using assms by (rule id_take_nth_drop)
  show "length (take i xs) = i" using assms by simp
  show "xs[i := c] = take i xs @ c # drop (Suc i) xs" for c
    using assms by (rule upd_conv_take_nth_drop)
qed

lemma mset_concat_update:
  "i < length xs \<Longrightarrow>
   mset (concat (xs[i := c])) = mset (concat (take i xs)) + mset c + mset (concat (drop (Suc i) xs))"
  by (simp add: upd_conv_take_nth_drop)

lemma mset_concat_nth:
  "i < length xs \<Longrightarrow>
   mset (concat xs) = mset (concat (take i xs)) + mset (xs ! i) + mset (concat (drop (Suc i) xs))"
  using mset_concat_update [of i xs "xs ! i"] by simp

lemma mset_distinct_map: "mset xs = mset ys \<Longrightarrow> distinct (map f xs) = distinct (map f ys)"
  by (metis mset_eq_imp_distinct_iff mset_map)

lemma distinct_middle:
  assumes "distinct (map f (A @ M @ B))" "y \<notin> f ` set (A @ B)"
    and "N = [] \<or> (\<exists>x. N = [x] \<and> f x = y)"
  shows "distinct (map f (A @ N @ B))"
  using assms by (elim disjE) (force simp: image_Un)+

end
