(* ===== verification/CString.thy ===== *)
theory CString
  imports Shell_Prelude
begin

unbundle bit_operations_syntax

text \<open>
  The C string library as far as the shell uses it. A \<open>char *\<close> is modelled by the list of
  the bytes it points to; the C string is the part before the first NUL (\<open>cstr\<close>), and a
  list without NUL is followed by the terminator of its block. \<open>uchar\<close> and \<open>schar\<close> read a
  byte as \<open>unsigned char\<close> and as the signed \<open>char\<close> of the platform; \<open>tolower\<close> is the
  function of the C locale on an \<open>int\<close>, undefined outside \<open>unsigned char\<close> and EOF.
\<close>

named_theorems cstring_simps \<open>C string functions on concrete and symbolic arguments\<close>

definition NUL :: char where
  "NUL = CHR 0x00"

definition cstr :: "string \<Rightarrow> string" where
  "cstr s = takeWhile (\<lambda>c. c \<noteq> NUL) s"

definition c_string :: "string \<Rightarrow> bool" where
  "c_string s \<longleftrightarrow> NUL \<notin> set s"

lemma cstr_Nil [simp, cstring_simps]: "cstr [] = []"
  by (simp add: cstr_def)

lemma cstr_Cons [cstring_simps]: "cstr (c # s) = (if c = NUL then [] else c # cstr s)"
  by (simp add: cstr_def)

lemma c_string_cstr [simp]: "c_string (cstr s)"
  by (induction s) (auto simp: c_string_def cstr_Cons)

lemma cstr_id [simp]: "c_string s \<Longrightarrow> cstr s = s"
  by (induction s) (auto simp: c_string_def cstr_Cons)

lemma cstr_idem [simp]: "cstr (cstr s) = cstr s"
  by simp

lemma c_string_simps [simp]:
  "c_string []" "c_string (c # s) \<longleftrightarrow> c \<noteq> NUL \<and> c_string s"
  "c_string (s @ t) \<longleftrightarrow> c_string s \<and> c_string t"
  by (auto simp: c_string_def)

definition strlen :: "string \<Rightarrow> nat" where
  "strlen s = length (cstr s)"

section \<open>Bytes as C integers\<close>

definition uchar :: "char \<Rightarrow> int" where
  "uchar c = of_char c"

definition schar :: "char \<Rightarrow> int" where
  "schar c = (if uchar c < 128 then uchar c else uchar c - 256)"

lemma uchar_nat: "uchar c = int (of_char c :: nat)"
  by (simp only: uchar_def of_nat_of_char)

lemma uchar_range: "0 \<le> uchar c" "uchar c < 256"
proof -
  have "(of_char c :: nat) < 256" by simp
  then show "0 \<le> uchar c" "uchar c < 256" by (simp_all only: uchar_nat)
qed

lemma uchar_eq_iff [simp]: "uchar c = uchar d \<longleftrightarrow> c = d"
  by (simp only: uchar_nat of_nat_eq_iff of_char_eq_iff)

lemma uchar_less_iff: "uchar c < uchar d \<longleftrightarrow> c < d"
  by (simp only: uchar_nat of_nat_less_iff less_char_def)

lemma uchar_NUL [simp]: "uchar NUL = 0"
  by (simp add: uchar_def NUL_def)

lemma uchar_eq_0_iff [simp]: "uchar c = 0 \<longleftrightarrow> c = NUL"
  using uchar_eq_iff [of c NUL] by (simp del: uchar_eq_iff)

lemma uchar_pos: "c \<noteq> NUL \<Longrightarrow> 0 < uchar c"
  using uchar_range(1) [of c] uchar_eq_0_iff [of c] by linarith

lemma schar_eq_iff: "schar c = schar d \<longleftrightarrow> c = d"
  using uchar_range [of c] uchar_range [of d] uchar_eq_iff [of c d]
  by (auto simp: schar_def split: if_splits simp del: uchar_eq_iff)

definition ascii :: "char \<Rightarrow> bool" where
  "ascii c \<longleftrightarrow> uchar c < 128"

lemma schar_ascii: "ascii c \<Longrightarrow> schar c = uchar c"
  by (simp add: schar_def ascii_def)

definition tolower :: "int \<Rightarrow> fault + int" where
  "tolower c =
     (if c < -1 \<or> 255 < c then Inl CtypeDomain
      else Inr (if 65 \<le> c \<and> c \<le> 90 then c + 32 else c))"

definition lower_char :: "char \<Rightarrow> char" where
  "lower_char c = (if 65 \<le> uchar c \<and> uchar c \<le> 90 then char_of (nat (uchar c + 32)) else c)"

lemma uchar_char_of: "n < 256 \<Longrightarrow> uchar (char_of (n :: nat)) = int n"
proof -
  assume "n < 256"
  then have "(of_char (char_of n) :: nat) = n" by simp
  then show ?thesis
    by (metis of_nat_of_char uchar_def)
qed

lemma uchar_lower_char:
  "uchar (lower_char c) = (if 65 \<le> uchar c \<and> uchar c \<le> 90 then uchar c + 32 else uchar c)"
proof (cases "65 \<le> uchar c \<and> uchar c \<le> 90")
  case True
  then have "uchar (char_of (nat (uchar c + 32))) = int (nat (uchar c + 32))"
    by (intro uchar_char_of) linarith
  with True show ?thesis by (simp add: lower_char_def)
next
  case False
  then show ?thesis by (auto simp: lower_char_def)
qed

lemma tolower_uchar: "tolower (uchar c) = Inr (uchar (lower_char c))"
  using uchar_range [of c] by (auto simp: tolower_def uchar_lower_char)

lemma lower_char_NUL_iff [simp]: "lower_char c = NUL \<longleftrightarrow> c = NUL"
  using uchar_lower_char [of c] uchar_eq_0_iff [of "lower_char c"] uchar_eq_0_iff [of c]
  by (auto simp del: uchar_eq_0_iff split: if_splits)

lemma NUL_lower_char_iff [simp]: "NUL = lower_char c \<longleftrightarrow> c = NUL"
  using lower_char_NUL_iff [of c] by (simp only: eq_commute)

lemma lower_char_NUL [simp]: "lower_char NUL = NUL"
  by simp

lemma ascii_lower_char [simp]: "ascii (lower_char c) = ascii c"
  by (simp add: ascii_def uchar_lower_char)

section \<open>Comparison, search and copying\<close>

fun strcmp :: "string \<Rightarrow> string \<Rightarrow> int" where
  "strcmp [] [] = 0"
| "strcmp [] (d # t) = - uchar d"
| "strcmp (c # s) [] = uchar c"
| "strcmp (c # s) (d # t) =
     (if uchar c \<noteq> uchar d then uchar c - uchar d
      else if uchar c = 0 then 0
      else strcmp s t)"

lemma strcmp_cstr: "strcmp (cstr s) (cstr t) = strcmp s t"
  by (induction s t rule: strcmp.induct) (auto simp: cstr_Cons)

lemma strcmp_eq_0_iff: "strcmp s t = 0 \<longleftrightarrow> cstr s = cstr t"
  by (induction s t rule: strcmp.induct) (auto simp: cstr_Cons)

lemma strcmp_neg: "strcmp t s = - strcmp s t"
  by (induction s t rule: strcmp.induct) auto

lemma strcmp_less_0_iff: "strcmp s t < 0 \<longleftrightarrow> cstr s < cstr t"
proof (induction s t rule: strcmp.induct)
  case (2 d t)
  then show ?case
    using uchar_range(1) [of d] uchar_pos [of d] by (auto simp: cstr_Cons)
next
  case (3 c s)
  then show ?case
    using uchar_range(1) [of c] by (auto simp: cstr_Cons)
next
  case (4 c s d t)
  then show ?case
    using uchar_less_iff [of c d] uchar_range(1) [of d] uchar_range(1) [of c]
      uchar_pos [of c] uchar_pos [of d]
    by (auto simp: cstr_Cons)
qed simp

lemma strcmp_greater_0_iff: "0 < strcmp s t \<longleftrightarrow> cstr t < cstr s"
  using strcmp_less_0_iff [of t s] strcmp_neg [of s t] by simp

fun strstr :: "string \<Rightarrow> string \<Rightarrow> string option" where
  "strstr [] n = (if n = [] then Some [] else None)"
| "strstr (c # s) n =
     (if take (length n) (c # s) = n then Some (c # s) else strstr s n)"

lemma strstr_char [cstring_simps]:
  "strstr s [c] = (if c \<in> set s then Some (dropWhile (\<lambda>d. d \<noteq> c) s) else None)"
  by (induction s) auto

definition strncpy :: "string \<Rightarrow> nat \<Rightarrow> string" where
  "strncpy src n = take n src"

definition strcat :: "nat \<Rightarrow> string \<Rightarrow> string \<Rightarrow> fault + string" where
  "strcat cap dst src =
     (if length dst + length src < cap then Inr (dst @ src) else Inl BufferOverflow)"

lemma strcat_Inr_iff:
  "strcat cap d s = Inr r \<longleftrightarrow> length d + length s < cap \<and> r = d @ s"
  by (auto simp: strcat_def)

end
