(* ===== verification/Hash_String.thy ===== *)
theory Hash_String
  imports CString
begin

text \<open>
  hash-string.c: the djb2 hash of a C string in a 64-bit \<open>unsigned long\<close>, and the variant
  that ignores the case of letters. Each function walks \<open>unsigned char *p\<close> up to the NUL.
\<close>

fun string_hash_loop :: "64 word \<Rightarrow> string \<Rightarrow> 64 word" where
  "string_hash_loop result [] = result"
| "string_hash_loop result (c # p) =
     (if c = NUL then result
      else string_hash_loop ((push_bit 5 result XOR result) XOR of_char c) p)"

definition string_hash :: "string \<Rightarrow> 64 word" where
  "string_hash s = string_hash_loop 5381 s"

fun string_nocase_hash_loop :: "64 word \<Rightarrow> string \<Rightarrow> fault + 64 word" where
  "string_nocase_hash_loop result [] = Inr result"
| "string_nocase_hash_loop result (c # p) =
     (if c = NUL then Inr result
      else rbind (tolower (uchar c)) (\<lambda>t.
        string_nocase_hash_loop ((push_bit 5 result XOR result) XOR word_of_int t) p))"

definition string_nocase_hash :: "string \<Rightarrow> fault + 64 word" where
  "string_nocase_hash s = string_nocase_hash_loop 5381 s"

section \<open>The hash is a function of the C string\<close>

lemma string_hash_loop_cstr: "string_hash_loop r (cstr s) = string_hash_loop r s"
  by (induction r s rule: string_hash_loop.induct) (auto simp: cstr_Cons)

lemma string_hash_loop_append:
  "c_string s \<Longrightarrow> string_hash_loop r (s @ t) = string_hash_loop (string_hash_loop r s) t"
  by (induction r s rule: string_hash_loop.induct) auto

lemma word_of_int_uchar: "(word_of_int (uchar c) :: 64 word) = of_char c"
  by (simp only: uchar_def of_int_of_char)

lemma nocase_hash_loop_lower:
  "string_nocase_hash_loop r s = Inr (string_hash_loop r (map lower_char s))"
  by (induction r s rule: string_nocase_hash_loop.induct)
    (auto simp: tolower_uchar word_of_int_uchar)

section \<open>One step of the loop loses nothing\<close>

text \<open>
  \<open>x \<mapsto> (x << 5) XOR x\<close> is injective on 64-bit words: the low five bits of \<open>x\<close> pass
  unchanged, and every later bit is determined by the bit five places below it.
\<close>

lemma shift5_fixpoint_bit:
  fixes z :: "64 word"
  assumes "push_bit 5 z = z"
  shows "\<not> bit z n"
proof (induction n rule: less_induct)
  case (less n)
  show ?case
  proof
    assume n: "bit z n"
    then have "bit (push_bit 5 z) n" using assms by simp
    then have "5 \<le> n" "bit z (n - 5)"
      by (auto simp: bit_push_bit_iff)
    then show False using less.IH [of "n - 5"] by auto
  qed
qed

lemma shift5_xor_inj:
  fixes x y :: "64 word"
  assumes "push_bit 5 x XOR x = push_bit 5 y XOR y"
  shows "x = y"
proof -
  have "push_bit 5 (x XOR y) = x XOR y"
  proof (rule bit_word_eqI)
    fix n assume n: "n < LENGTH(64)"
    have "bit (push_bit 5 x XOR x) n = bit (push_bit 5 y XOR y) n"
      using assms by simp
    then show "bit (push_bit 5 (x XOR y)) n = bit (x XOR y) n"
      using n by (auto simp: bit_simps)
  qed
  then have "\<not> bit (x XOR y) n" for n
    by (rule shift5_fixpoint_bit)
  then show ?thesis
    by (intro bit_word_eqI) (auto simp: bit_xor_iff)
qed

lemma xor_cancel_right:
  fixes a b c :: "64 word"
  assumes "a XOR c = b XOR c"
  shows "a = b"
proof -
  have "(a XOR c) XOR c = (b XOR c) XOR c"
    using assms by (rule arg_cong)
  then show ?thesis by (simp add: xor.assoc)
qed

lemma xor_cancel_left:
  fixes a b c :: "64 word"
  assumes "c XOR a = c XOR b"
  shows "a = b"
  using assms xor_cancel_right [of a c b] by (simp add: xor.commute)

lemma unat_of_char: "unat (of_char c :: 64 word) = of_char c"
proof -
  have "(of_char c :: nat) < 256" by simp
  then have "(of_char c :: nat) < 2 ^ LENGTH(64)"
    by (rule less_trans) simp
  then have "(of_char c :: nat) mod 2 ^ LENGTH(64) = of_char c"
    by (rule mod_less)
  then have "unat (word_of_nat (of_char c) :: 64 word) = of_char c"
    by (simp only: unat_of_nat)
  then show ?thesis by (simp only: of_nat_of_char)
qed

lemma of_char_word_eq: "(of_char c :: 64 word) = of_char d \<longleftrightarrow> c = d"
proof
  assume "(of_char c :: 64 word) = of_char d"
  then have "(of_char c :: nat) = of_char d"
    by (metis unat_of_char)
  then show "c = d" by (simp only: of_char_eq_iff)
qed simp

lemma string_hash_loop_inj:
  "string_hash_loop r s = string_hash_loop r' s \<Longrightarrow> r = r'"
  by (induction r s arbitrary: r' rule: string_hash_loop.induct)
    (auto dest!: xor_cancel_right shift5_xor_inj split: if_splits)

section \<open>Properties of the hash\<close>

text \<open>The hash of a string is the hash of its C string: bytes after the NUL are ignored.\<close>

theorem string_hash_cstr: "string_hash (cstr s) = string_hash s"
  by (simp add: string_hash_def string_hash_loop_cstr)

text \<open>Two C strings that differ in exactly one byte never have the same hash.\<close>

theorem string_hash_one_byte:
  assumes "c_string p" "c \<noteq> NUL" "d \<noteq> NUL"
  shows "string_hash (p @ c # q) = string_hash (p @ d # q) \<longleftrightarrow> c = d"
  using assms
  by (auto simp: string_hash_def string_hash_loop_append of_char_word_eq
      dest!: string_hash_loop_inj xor_cancel_left)

theorem string_hash_one_byte_witness:
  "string_hash ''ls'' \<noteq> string_hash ''ld''"
  using string_hash_one_byte [of "''l''" "CHR ''s''" "CHR ''d''" "[]"]
  by (simp add: NUL_def)

text \<open>The case-insensitive hash never faults and is the hash of the lower-cased string.\<close>

theorem string_nocase_hash_lower:
  "string_nocase_hash s = Inr (string_hash (map lower_char s))"
  by (simp add: string_nocase_hash_def string_hash_def nocase_hash_loop_lower)

end
