(* ===== verification/Key_Interface.thy ===== *)
theory Key_Interface
  imports Shell_Prelude
begin

text \<open>
  The interface between a hash table and the functions it is created with
  (\<open>HashTableHashFunc\<close> and \<open>HashTableEqualFunc\<close> of hash-table.h): \<open>equal_func\<close>
  returns non-zero on an equivalence relation, and equal keys have equal hashes. The hash
  table's lemmas are proved in this locale; hash-string.c and compare-string.c provide it.
\<close>

locale keyed_hash =
  fixes hash :: "'k \<Rightarrow> 64 word"
    and equal :: "'k \<Rightarrow> 'k \<Rightarrow> int"
  assumes equal_refl: "equal k k \<noteq> 0"
    and equal_sym: "equal k k' \<noteq> 0 \<Longrightarrow> equal k' k \<noteq> 0"
    and equal_trans: "equal k k' \<noteq> 0 \<Longrightarrow> equal k' k'' \<noteq> 0 \<Longrightarrow> equal k k'' \<noteq> 0"
    and equal_hash: "equal k k' \<noteq> 0 \<Longrightarrow> hash k = hash k'"
begin

lemma equal_commute: "equal k k' = 0 \<longleftrightarrow> equal k' k = 0"
  using equal_sym by blast

lemma equal_left: "equal k k' \<noteq> 0 \<Longrightarrow> equal k k'' = 0 \<longleftrightarrow> equal k' k'' = 0"
  using equal_sym equal_trans by blast

lemma equal_right: "equal k k' \<noteq> 0 \<Longrightarrow> equal k'' k = 0 \<longleftrightarrow> equal k'' k' = 0"
  using equal_sym equal_trans by blast

end

end
