(* ===== verification/Hash_Table.thy ===== *)
theory Hash_Table
  imports Key_Interface
begin

text \<open>
  hash-table.c: the chained hash table that stores the aliases.

  \<^item> \<open>hash_table\<close> is the struct: a chain is the list of its (key, value) entries in link
    order, the \<open>table\<close> array is the list of chains. The two free functions act on a heap
    state \<open>'s\<close> of the caller and may be NULL (\<open>None\<close>).
  \<^item> every array access is checked against the allocated array, every \<open>int\<close> operation
    against its range, and every allocation takes its outcome from a list.
  \<^item> an iterator holds the rest of the chain it stands in (\<open>next_entry\<close>, NULL when empty).

  The lemmas show that under the invariant \<open>ht_inv\<close> no operation faults, that the table
  refines a finite map on equivalence classes of keys, that growing keeps the entries, that
  each dropped entry is freed exactly once, and that iteration visits every entry once.
\<close>

section \<open>Data\<close>

type_synonym ('k, 'v) chain = "('k \<times> 'v) list"

record ('k, 'v, 's) hash_table =
  table :: "('k, 'v) chain list"
  table_size :: int
  hash_func :: "'k \<Rightarrow> 64 word"
  equal_func :: "'k \<Rightarrow> 'k \<Rightarrow> int"
  key_free_func :: "('k \<Rightarrow> 's \<Rightarrow> fault + 's) option"
  value_free_func :: "('v \<Rightarrow> 's \<Rightarrow> fault + 's) option"
  entries :: int
  prime_index :: nat

record ('k, 'v) ht_iterator =
  next_entry :: "('k, 'v) chain"
  next_chain :: nat

definition hash_table_primes :: "int list" where
  "hash_table_primes =
    [193, 389, 769, 1543, 3079, 6151, 12289, 24593, 49157, 98317,
     196613, 393241, 786433, 1572869, 3145739, 6291469,
     12582917, 25165843, 50331653, 100663319, 201326611,
     402653189, 805306457, 1610612741]"

definition hash_table_num_primes :: nat where
  "hash_table_num_primes = length hash_table_primes"

section \<open>Operations\<close>

definition bucket :: "('k, 'v, 's) hash_table \<Rightarrow> nat \<Rightarrow> fault + ('k, 'v) chain" where
  "bucket ht i = (if i < length (table ht) then Inr (table ht ! i) else Inl OutOfBounds)"

definition hash_table_index :: "('k, 'v, 's) hash_table \<Rightarrow> 'k \<Rightarrow> fault + nat" where
  "hash_table_index ht k =
     (if table_size ht = 0 then Inl DivisionByZero
      else Inr (unat (hash_func ht k mod word_of_int (table_size ht))))"

definition hash_table_allocate_table ::
    "('k, 'v, 's) hash_table \<Rightarrow> bool list \<Rightarrow> fault + (bool \<times> ('k, 'v, 's) hash_table \<times> bool list)"
  where
  "hash_table_allocate_table ht oom =
     rbind (if prime_index ht < hash_table_num_primes
            then Inr (hash_table_primes ! prime_index ht)
            else c_mul (entries ht) 10) (\<lambda>new_table_size.
       let (ok, oom') = alloc_ok oom in
       Inr (ok, ht\<lparr>table_size := new_table_size,
                   table := (if ok then replicate (nat new_table_size) [] else [])\<rparr>, oom'))"

definition run_free :: "('x \<Rightarrow> 's \<Rightarrow> fault + 's) option \<Rightarrow> 'x \<Rightarrow> 's \<Rightarrow> fault + 's" where
  "run_free f x s = (case f of None \<Rightarrow> Inr s | Some free \<Rightarrow> free x s)"

definition hash_table_free_entry ::
    "('k, 'v, 's) hash_table \<Rightarrow> 'k \<times> 'v \<Rightarrow> 's \<Rightarrow> fault + 's" where
  "hash_table_free_entry ht entry s =
     rbind (run_free (key_free_func ht) (fst entry) s)
       (run_free (value_free_func ht) (snd entry))"

definition hash_table_new ::
    "('k \<Rightarrow> 64 word) \<Rightarrow> ('k \<Rightarrow> 'k \<Rightarrow> int) \<Rightarrow> bool list \<Rightarrow>
     fault + (('k, 'v, 's) hash_table option \<times> bool list)" where
  "hash_table_new hash equal oom =
     (let (ok, oom1) = alloc_ok oom in
      if \<not> ok then Inr (None, oom1)
      else
        let ht = \<lparr>table = [], table_size = 0, hash_func = hash, equal_func = equal,
                  key_free_func = None, value_free_func = None, entries = 0, prime_index = 0\<rparr>
        in rbind (hash_table_allocate_table ht oom1) (\<lambda>(ok2, ht2, oom2).
             if \<not> ok2 then Inr (None, oom2) else Inr (Some ht2, oom2)))"

fun free_chain :: "('k, 'v, 's) hash_table \<Rightarrow> ('k, 'v) chain \<Rightarrow> 's \<Rightarrow> fault + 's" where
  "free_chain ht [] s = Inr s"
| "free_chain ht (rover # next) s =
     rbind (hash_table_free_entry ht rover s) (free_chain ht next)"

function free_chains :: "('k, 'v, 's) hash_table \<Rightarrow> nat \<Rightarrow> 's \<Rightarrow> fault + 's" where
  "free_chains ht i s =
     (if int i < table_size ht
      then rbind (bucket ht i) (\<lambda>rover.
           rbind (free_chain ht rover s) (\<lambda>s'. free_chains ht (Suc i) s'))
      else Inr s)"
  by pat_completeness auto
termination
  by (relation "measure (\<lambda>(ht, i, s). nat (table_size ht) - i)") auto

declare free_chains.simps [simp del]

definition hash_table_free :: "('k, 'v, 's) hash_table \<Rightarrow> 's \<Rightarrow> fault + 's" where
  "hash_table_free ht s = free_chains ht 0 s"

definition hash_table_register_free_functions ::
    "('k, 'v, 's) hash_table \<Rightarrow> ('k \<Rightarrow> 's \<Rightarrow> fault + 's) option \<Rightarrow>
     ('v \<Rightarrow> 's \<Rightarrow> fault + 's) option \<Rightarrow> ('k, 'v, 's) hash_table" where
  "hash_table_register_free_functions ht kf vf = ht\<lparr>key_free_func := kf, value_free_func := vf\<rparr>"

fun relink_chain ::
    "('k, 'v, 's) hash_table \<Rightarrow> ('k, 'v) chain \<Rightarrow> fault + ('k, 'v, 's) hash_table" where
  "relink_chain ht [] = Inr ht"
| "relink_chain ht (rover # next) =
     rbind (hash_table_index ht (fst rover)) (\<lambda>index.
     rbind (bucket ht index) (\<lambda>chain.
       relink_chain (ht\<lparr>table := (table ht)[index := rover # chain]\<rparr>) next))"

function relink_chains ::
    "('k, 'v) chain list \<Rightarrow> int \<Rightarrow> nat \<Rightarrow> ('k, 'v, 's) hash_table \<Rightarrow>
     fault + ('k, 'v, 's) hash_table" where
  "relink_chains old_table old_table_size i ht =
     (if int i < old_table_size
      then if i < length old_table
           then rbind (relink_chain ht (old_table ! i))
                  (relink_chains old_table old_table_size (Suc i))
           else Inl OutOfBounds
      else Inr ht)"
  by pat_completeness auto
termination
  by (relation "measure (\<lambda>(old, size, i, ht). nat size - i)") auto

declare relink_chains.simps [simp del]

definition hash_table_enlarge ::
    "('k, 'v, 's) hash_table \<Rightarrow> bool list \<Rightarrow>
     fault + (int \<times> ('k, 'v, 's) hash_table \<times> bool list)" where
  "hash_table_enlarge ht oom =
     rbind (hash_table_allocate_table (ht\<lparr>prime_index := Suc (prime_index ht)\<rparr>) oom)
       (\<lambda>(ok, ht1, oom1).
         if \<not> ok
         then Inr (0, ht1\<lparr>table := table ht, table_size := table_size ht,
                          prime_index := prime_index ht\<rparr>, oom1)
         else rbind (relink_chains (table ht) (table_size ht) 0 ht1) (\<lambda>ht2. Inr (1, ht2, oom1)))"

fun chain_replace ::
    "('k \<Rightarrow> bool) \<Rightarrow> 'k \<Rightarrow> 'v \<Rightarrow> ('k, 'v) chain \<Rightarrow> (('k \<times> 'v) \<times> ('k, 'v) chain) option" where
  "chain_replace same k v [] = None"
| "chain_replace same k v (rover # next) =
     (if same (fst rover) then Some (rover, (k, v) # next)
      else map_option (\<lambda>(old, next'). (old, rover # next')) (chain_replace same k v next))"

fun chain_lookup :: "('k \<Rightarrow> bool) \<Rightarrow> ('k, 'v) chain \<Rightarrow> ('k \<times> 'v) option" where
  "chain_lookup same [] = None"
| "chain_lookup same (rover # next) = (if same (fst rover) then Some rover else chain_lookup same next)"

fun chain_unlink ::
    "('k \<Rightarrow> bool) \<Rightarrow> ('k, 'v) chain \<Rightarrow> (('k \<times> 'v) \<times> ('k, 'v) chain) option" where
  "chain_unlink same [] = None"
| "chain_unlink same (rover # next) =
     (if same (fst rover) then Some (rover, next)
      else map_option (\<lambda>(old, next'). (old, rover # next')) (chain_unlink same next))"

definition hash_table_insert ::
    "('k, 'v, 's) hash_table \<Rightarrow> 'k \<Rightarrow> 'v \<Rightarrow> bool list \<Rightarrow> 's \<Rightarrow>
     fault + (int \<times> ('k, 'v, 's) hash_table \<times> bool list \<times> 's)" where
  "hash_table_insert ht key value oom s =
     rbind (c_mul (entries ht) 3) (\<lambda>n.
     rbind (c_div n (table_size ht)) (\<lambda>q.
     rbind (if q > 0 then hash_table_enlarge ht oom else Inr (1, ht, oom)) (\<lambda>(ok, ht1, oom1).
       if ok = 0 then Inr (0, ht1, oom1, s)
       else
         rbind (hash_table_index ht1 key) (\<lambda>index.
         rbind (bucket ht1 index) (\<lambda>chain.
           case chain_replace (\<lambda>k. equal_func ht1 k key \<noteq> 0) key value chain of
             Some (rover, chain') \<Rightarrow>
               rbind (run_free (value_free_func ht1) (snd rover) s) (\<lambda>s1.
               rbind (run_free (key_free_func ht1) (fst rover) s1) (\<lambda>s2.
                 Inr (1, ht1\<lparr>table := (table ht1)[index := chain']\<rparr>, oom1, s2)))
           | None \<Rightarrow>
               (let (ok2, oom2) = alloc_ok oom1 in
                if \<not> ok2 then Inr (0, ht1, oom2, s)
                else rbind (c_add (entries ht1) 1) (\<lambda>n1.
                       Inr (1, ht1\<lparr>table := (table ht1)[index := (key, value) # chain],
                                   entries := n1\<rparr>, oom2, s))))))))"

definition hash_table_lookup :: "('k, 'v, 's) hash_table \<Rightarrow> 'k \<Rightarrow> fault + 'v option" where
  "hash_table_lookup ht key =
     rbind (hash_table_index ht key) (\<lambda>index.
     rbind (bucket ht index) (\<lambda>chain.
       Inr (map_option snd (chain_lookup (\<lambda>k. equal_func ht key k \<noteq> 0) chain))))"

definition hash_table_remove ::
    "('k, 'v, 's) hash_table \<Rightarrow> 'k \<Rightarrow> 's \<Rightarrow> fault + (int \<times> ('k, 'v, 's) hash_table \<times> 's)" where
  "hash_table_remove ht key s =
     rbind (hash_table_index ht key) (\<lambda>index.
     rbind (bucket ht index) (\<lambda>chain.
       case chain_unlink (\<lambda>k. equal_func ht key k \<noteq> 0) chain of
         None \<Rightarrow> Inr (0, ht, s)
       | Some (entry, chain') \<Rightarrow>
           rbind (hash_table_free_entry ht entry s) (\<lambda>s1.
           rbind (c_add (entries ht) (- 1)) (\<lambda>n.
             Inr (1, ht\<lparr>table := (table ht)[index := chain'], entries := n\<rparr>, s1)))))"

definition hash_table_num_entries :: "('k, 'v, 's) hash_table \<Rightarrow> int" where
  "hash_table_num_entries ht = entries ht"

section \<open>Iteration\<close>

function scan_chains :: "('k, 'v, 's) hash_table \<Rightarrow> nat \<Rightarrow> fault + (nat \<times> ('k, 'v) chain)" where
  "scan_chains ht chain =
     (if int chain < table_size ht
      then rbind (bucket ht chain) (\<lambda>b. if b \<noteq> [] then Inr (chain, b) else scan_chains ht (Suc chain))
      else Inr (chain, []))"
  by pat_completeness auto
termination
  by (relation "measure (\<lambda>(ht, i). nat (table_size ht) - i)") auto

declare scan_chains.simps [simp del]

definition hash_table_iterate ::
    "('k, 'v, 's) hash_table \<Rightarrow> ('k, 'v) ht_iterator \<Rightarrow> fault + ('k, 'v) ht_iterator" where
  "hash_table_iterate ht iterator =
     rbind (scan_chains ht 0) (\<lambda>(chain, b).
       if b \<noteq> [] then Inr (iterator\<lparr>next_entry := b, next_chain := chain\<rparr>)
       else Inr (iterator\<lparr>next_entry := []\<rparr>))"

definition hash_table_iter_has_more :: "('k, 'v) ht_iterator \<Rightarrow> int" where
  "hash_table_iter_has_more iterator = (if next_entry iterator \<noteq> [] then 1 else 0)"

definition hash_table_iter_next_entry ::
    "('k, 'v, 's) hash_table \<Rightarrow> ('k, 'v) ht_iterator \<Rightarrow>
     fault + (('k \<times> 'v) option \<times> ('k, 'v) ht_iterator)" where
  "hash_table_iter_next_entry ht iterator =
     (case next_entry iterator of
        [] \<Rightarrow> Inr (None, iterator)
      | current_entry # next \<Rightarrow>
          if next \<noteq> [] then Inr (Some current_entry, iterator\<lparr>next_entry := next\<rparr>)
          else rbind (scan_chains ht (next_chain iterator + 1)) (\<lambda>(chain, b).
                 Inr (Some current_entry, iterator\<lparr>next_entry := b, next_chain := chain\<rparr>)))"

definition hash_table_iter_next ::
    "('k, 'v, 's) hash_table \<Rightarrow> ('k, 'v) ht_iterator \<Rightarrow>
     fault + ('v option \<times> ('k, 'v) ht_iterator)" where
  "hash_table_iter_next ht iterator =
     (case next_entry iterator of
        [] \<Rightarrow> Inr (None, iterator)
      | current_entry # next \<Rightarrow>
          if next \<noteq> [] then Inr (Some (snd current_entry), iterator\<lparr>next_entry := next\<rparr>)
          else rbind (scan_chains ht (next_chain iterator + 1)) (\<lambda>(chain, b).
                 Inr (Some (snd current_entry), iterator\<lparr>next_entry := b, next_chain := chain\<rparr>)))"


section \<open>Invariant and abstraction\<close>

definition key_class :: "('k \<Rightarrow> 'k \<Rightarrow> int) \<Rightarrow> 'k \<Rightarrow> 'k set" where
  "key_class equal k = {k'. equal k k' \<noteq> 0}"

definition slot :: "('k, 'v, 's) hash_table \<Rightarrow> 'k \<Rightarrow> nat" where
  "slot ht k = unat (hash_func ht k mod word_of_int (table_size ht))"

definition ht_entries :: "('k, 'v, 's) hash_table \<Rightarrow> ('k, 'v) chain" where
  "ht_entries ht = concat (table ht)"

definition ht_shape :: "('k, 'v, 's) hash_table \<Rightarrow> bool" where
  "ht_shape ht \<longleftrightarrow>
     0 < table_size ht \<and> int_ok (table_size ht) \<and> length (table ht) = nat (table_size ht)"

definition ht_placed :: "('k, 'v, 's) hash_table \<Rightarrow> bool" where
  "ht_placed ht \<longleftrightarrow>
     ht_shape ht \<and> (\<forall>i < length (table ht). \<forall>e \<in> set (table ht ! i). slot ht (fst e) = i)"

definition ht_unique :: "('k, 'v, 's) hash_table \<Rightarrow> bool" where
  "ht_unique ht \<longleftrightarrow> distinct (map (\<lambda>e. key_class (equal_func ht) (fst e)) (ht_entries ht))"

definition ht_sized :: "('k, 'v, 's) hash_table \<Rightarrow> bool" where
  "ht_sized ht \<longleftrightarrow>
     entries ht = int (length (ht_entries ht)) \<and>
     prime_index ht < hash_table_num_primes \<and>
     table_size ht = hash_table_primes ! prime_index ht \<and>
     entries ht * 3 \<le> table_size ht + 2"

definition ht_inv :: "('k, 'v, 's) hash_table \<Rightarrow> bool" where
  "ht_inv ht \<longleftrightarrow> ht_placed ht \<and> ht_unique ht \<and> ht_sized ht"

definition ht_find :: "('k, 'v, 's) hash_table \<Rightarrow> 'k \<Rightarrow> ('k \<times> 'v) option" where
  "ht_find ht key = chain_lookup (\<lambda>k. equal_func ht key k \<noteq> 0) (ht_entries ht)"

definition ht_map :: "('k, 'v, 's) hash_table \<Rightarrow> 'k \<Rightarrow> 'v option" where
  "ht_map ht key = map_option snd (ht_find ht key)"

definition same_config :: "('k, 'v, 's) hash_table \<Rightarrow> ('k, 'v, 's) hash_table \<Rightarrow> bool" where
  "same_config ht ht' \<longleftrightarrow>
     hash_func ht' = hash_func ht \<and> equal_func ht' = equal_func ht \<and>
     key_free_func ht' = key_free_func ht \<and> value_free_func ht' = value_free_func ht"

lemma ht_placed_shape: "ht_placed ht \<Longrightarrow> ht_shape ht"
  by (simp add: ht_placed_def)

lemma ht_inv_shape: "ht_inv ht \<Longrightarrow> ht_shape ht"
  by (simp add: ht_inv_def ht_placed_def)

lemma slot_less: "ht_shape ht \<Longrightarrow> slot ht k < length (table ht)"
proof -
  assume sh: "ht_shape ht"
  then have pos: "0 < nat (table_size ht)" and le: "table_size ht < 2 ^ 64"
    by (auto simp: ht_shape_def int_ok_def)
  have "unat (word_of_int (table_size ht) :: 64 word) = nat (table_size ht)"
    using sh le by (simp add: unat_eq_nat_uint uint_word_of_int_eq take_bit_int_eq_self ht_shape_def)
  then have "slot ht k = unat (hash_func ht k) mod nat (table_size ht)"
    by (simp add: slot_def unat_mod)
  with pos sh show ?thesis by (simp add: ht_shape_def)
qed

lemma index_shape [simp]: "ht_shape ht \<Longrightarrow> hash_table_index ht k = Inr (slot ht k)"
  by (simp add: hash_table_index_def slot_def ht_shape_def)

lemma bucket_shape [simp]: "i < length (table ht) \<Longrightarrow> bucket ht i = Inr (table ht ! i)"
  by (simp add: bucket_def)

lemma ht_shape_table_update [simp]:
  "ht_shape (ht\<lparr>table := (table ht)[i := c]\<rparr>) = ht_shape ht"
  by (simp add: ht_shape_def)

lemma slot_table_update [simp]: "slot (ht\<lparr>table := t\<rparr>) k = slot ht k"
  by (simp add: slot_def)

section \<open>Prime sizes\<close>

lemma primes_step: "\<forall>i \<in> set [0..<23]. hash_table_primes ! i + 3 \<le> hash_table_primes ! Suc i"
  by code_simp

lemma primes_range:
  "\<forall>p \<in> set hash_table_primes. 0 < p \<and> int_ok p \<and> p \<le> 1610612741"
  by code_simp

lemma num_primes [simp]: "hash_table_num_primes = 24"
  by code_simp

lemma prime_ok:
  assumes "i < hash_table_num_primes"
  shows "0 < hash_table_primes ! i" "int_ok (hash_table_primes ! i)"
    "hash_table_primes ! i \<le> 1610612741"
  using primes_range assms nth_mem [of i hash_table_primes]
  unfolding hash_table_num_primes_def by blast+

section \<open>Chains\<close>

lemma chain_replace_None: "chain_replace same k v es = None \<longleftrightarrow> chain_lookup same es = None"
  by (induction es) auto

lemma chain_unlink_None: "chain_unlink same es = None \<longleftrightarrow> chain_lookup same es = None"
  by (induction es) auto

lemma chain_lookup_SomeD: "chain_lookup same es = Some e \<Longrightarrow> e \<in> set es \<and> same (fst e)"
  by (induction es) (auto split: if_splits)

lemma chain_lookup_None_iff: "chain_lookup same es = None \<longleftrightarrow> (\<forall>e \<in> set es. \<not> same (fst e))"
  by (induction es) auto

lemma chain_lookup_append:
  "chain_lookup same (xs @ ys) =
    (case chain_lookup same xs of None \<Rightarrow> chain_lookup same ys | Some e \<Rightarrow> Some e)"
  by (induction xs) auto

lemma chain_replace_Some:
  "chain_replace same k v es = Some (old, es') \<Longrightarrow>
   chain_lookup same es = Some old \<and>
   (\<exists>xs ys. es = xs @ old # ys \<and> es' = xs @ (k, v) # ys)"
proof (induction es arbitrary: es')
  case (Cons e es)
  show ?case
  proof (cases "same (fst e)")
    case True
    with Cons.prems show ?thesis by (auto intro: exI [of _ "[]"])
  next
    case False
    with Cons.prems obtain es1 where "chain_replace same k v es = Some (old, es1)" "es' = e # es1"
      by auto
    with Cons.IH [of es1] False obtain xs ys where
        "chain_lookup same es = Some old" "es = xs @ old # ys" "es1 = xs @ (k, v) # ys"
      by auto
    then have "e # es = (e # xs) @ old # ys" "es' = (e # xs) @ (k, v) # ys" "chain_lookup same (e # es) = Some old"
      using False \<open>es' = e # es1\<close> by auto
    then show ?thesis by blast
  qed
qed simp

lemma chain_unlink_Some:
  "chain_unlink same es = Some (old, es') \<Longrightarrow>
   chain_lookup same es = Some old \<and> (\<exists>xs ys. es = xs @ old # ys \<and> es' = xs @ ys)"
proof (induction es arbitrary: es')
  case (Cons e es)
  show ?case
  proof (cases "same (fst e)")
    case True
    with Cons.prems show ?thesis by (auto intro: exI [of _ "[]"])
  next
    case False
    with Cons.prems obtain es1 where "chain_unlink same es = Some (old, es1)" "es' = e # es1"
      by auto
    with Cons.IH [of es1] False obtain xs ys where
        "chain_lookup same es = Some old" "es = xs @ old # ys" "es1 = xs @ ys"
      by auto
    then have "e # es = (e # xs) @ old # ys" "es' = (e # xs) @ ys" "chain_lookup same (e # es) = Some old"
      using False \<open>es' = e # es1\<close> by auto
    then show ?thesis by blast
  qed
qed simp


context keyed_hash
begin

lemma key_class_eq: "key_class equal k = key_class equal k' \<longleftrightarrow> equal k k' \<noteq> 0"
proof
  assume "key_class equal k = key_class equal k'"
  then have "k' \<in> key_class equal k" using equal_refl by (simp add: key_class_def)
  then show "equal k k' \<noteq> 0" by (simp add: key_class_def)
next
  assume "equal k k' \<noteq> 0"
  then show "key_class equal k = key_class equal k'"
    unfolding key_class_def using equal_left [of k k'] by blast
qed

lemma chain_lookup_unique:
  assumes "distinct (map (\<lambda>e. key_class equal (fst e)) es)"
  shows "chain_lookup (\<lambda>k'. equal k k' \<noteq> 0) es = Some e \<longleftrightarrow>
    e \<in> set es \<and> equal k (fst e) \<noteq> 0"
  using assms
proof (induction es)
  case (Cons a es)
  show ?case
  proof (cases "equal k (fst a) \<noteq> 0")
    case True
    have "\<not> (e \<in> set es \<and> equal k (fst e) \<noteq> 0)"
    proof
      assume e: "e \<in> set es \<and> equal k (fst e) \<noteq> 0"
      from equal_trans [OF equal_sym [OF True] conjunct2 [OF e]]
      have "key_class equal (fst a) = key_class equal (fst e)"
        by (rule key_class_eq [THEN iffD2])
      moreover have "key_class equal (fst e) \<in> set (map (\<lambda>e. key_class equal (fst e)) es)"
        using e by auto
      ultimately show False using Cons.prems by simp
    qed
    with True show ?thesis by auto
  next
    case False
    with Cons show ?thesis by auto
  qed
qed simp

lemma chain_lookup_perm:
  assumes "mset es = mset es'" "distinct (map (\<lambda>e. key_class equal (fst e)) es)"
  shows "chain_lookup (\<lambda>k'. equal k k' \<noteq> 0) es = chain_lookup (\<lambda>k'. equal k k' \<noteq> 0) es'"
proof -
  have "set es = set es'" and "distinct (map (\<lambda>e. key_class equal (fst e)) es')"
    using assms mset_eq_setD mset_distinct_map by blast+
  then have "chain_lookup (\<lambda>k'. equal k k' \<noteq> 0) es = Some e \<longleftrightarrow>
      chain_lookup (\<lambda>k'. equal k k' \<noteq> 0) es' = Some e" for e
    using assms(2) by (simp add: chain_lookup_unique)
  then show ?thesis by (metis not_Some_eq)
qed

lemma same_slot:
  "hash_func ht = hash \<Longrightarrow> equal k k' \<noteq> 0 \<Longrightarrow> slot ht k = slot ht k'"
  using equal_hash by (simp add: slot_def)

lemma find_in_bucket:
  assumes "ht_placed ht" "ht_unique ht" "hash_func ht = hash" "equal_func ht = equal"
  shows "chain_lookup (\<lambda>k'. equal k k' \<noteq> 0) (table ht ! slot ht k) = ht_find ht k"
proof -
  let ?b = "table ht ! slot ht k"
  have i: "slot ht k < length (table ht)"
    using assms(1) by (intro slot_less ht_placed_shape)
  have in_b: "e \<in> set ?b \<longleftrightarrow> e \<in> set (ht_entries ht)" if "equal k (fst e) \<noteq> 0" for e
  proof
    assume "e \<in> set ?b"
    with i show "e \<in> set (ht_entries ht)" by (auto simp: ht_entries_def)
  next
    assume "e \<in> set (ht_entries ht)"
    then obtain b where "b \<in> set (table ht)" "e \<in> set b"
      by (auto simp: ht_entries_def)
    then obtain j where j: "j < length (table ht)" "e \<in> set (table ht ! j)"
      by (metis in_set_conv_nth)
    then have "slot ht (fst e) = j"
      using assms(1) by (auto simp: ht_placed_def)
    with that j show "e \<in> set ?b" using same_slot assms(3) by metis
  qed
  have "distinct (map (\<lambda>e. key_class equal (fst e)) ?b)"
    using assms(2,4) i unfolding ht_unique_def ht_entries_def
    by (subst (asm) id_take_nth_drop [OF i]) simp
  then have "chain_lookup (\<lambda>k'. equal k k' \<noteq> 0) ?b = Some e \<longleftrightarrow> ht_find ht k = Some e" for e
    using assms(2,4) in_b [of e]
    by (cases "equal k (fst e) = 0") (simp_all add: ht_find_def chain_lookup_unique ht_unique_def)
  then show ?thesis by (metis not_Some_eq)
qed

lemma lookup_correct:
  assumes "ht_inv ht" "hash_func ht = hash" "equal_func ht = equal"
  shows "hash_table_lookup ht k = Inr (ht_map ht k)"
  using assms find_in_bucket [of ht k] slot_less [of ht k]
  by (auto simp: hash_table_lookup_def ht_inv_def ht_map_def dest: ht_placed_shape)

end

section \<open>Growing\<close>

lemma relink_chain_correct:
  "ht_placed ht \<Longrightarrow>
   \<exists>t. relink_chain ht es = Inr (ht\<lparr>table := t\<rparr>) \<and> ht_placed (ht\<lparr>table := t\<rparr>) \<and>
       mset (concat t) = mset es + mset (ht_entries ht)"
proof (induction es arbitrary: ht)
  case Nil
  then show ?case by (intro exI [of _ "table ht"]) (simp add: ht_entries_def)
next
  case (Cons e es)
  let ?i = "slot ht (fst e)"
  let ?ht = "ht\<lparr>table := (table ht)[?i := e # table ht ! ?i]\<rparr>"
  have i: "?i < length (table ht)" and sh: "ht_shape ht"
    using Cons.prems by (auto intro: slot_less ht_placed_shape)
  have "ht_placed ?ht"
    using Cons.prems i by (auto simp: ht_placed_def nth_list_update)
  from Cons.IH [OF this] obtain t where
      "relink_chain ?ht es = Inr (ht\<lparr>table := t\<rparr>)" "ht_placed (ht\<lparr>table := t\<rparr>)"
      "mset (concat t) = mset es + mset (ht_entries ?ht)"
    by auto
  then show ?case using i sh
    by (auto simp: ht_entries_def mset_concat_update mset_concat_nth)
qed

lemma relink_chains_correct:
  assumes "ht_placed ht" "nat n = length old"
  shows "\<exists>t. relink_chains old n i ht = Inr (ht\<lparr>table := t\<rparr>) \<and> ht_placed (ht\<lparr>table := t\<rparr>) \<and>
    mset (concat t) = mset (concat (drop i old)) + mset (ht_entries ht)"
  using assms
proof (induction old n i ht rule: relink_chains.induct)
  case (1 old n i ht)
  show ?case
  proof (cases "int i < n")
    case True
    then have i: "i < length old" using "1.prems" by linarith
    obtain t where t: "relink_chain ht (old ! i) = Inr (ht\<lparr>table := t\<rparr>)"
        "ht_placed (ht\<lparr>table := t\<rparr>)" "mset (concat t) = mset (old ! i) + mset (ht_entries ht)"
      using relink_chain_correct [OF "1.prems"(1)] by blast
    from "1.IH" [OF True i t(1,2) "1.prems"(2)] t True i show ?thesis
      by (subst relink_chains.simps) (auto simp: ht_entries_def Cons_nth_drop_Suc [symmetric])
  next
    case False
    then show ?thesis using "1.prems"
      by (subst relink_chains.simps) (auto simp: ht_entries_def intro!: exI [of _ "table ht"])
  qed
qed

lemma placed_fresh:
  "0 < n \<Longrightarrow> int_ok n \<Longrightarrow> ht_placed (ht\<lparr>table_size := n, table := replicate (nat n) []\<rparr>)"
  by (simp add: ht_placed_def ht_shape_def)


lemma allocate_correct:
  assumes "prime_index ht < hash_table_num_primes"
  shows "hash_table_allocate_table ht oom =
    Inr (fst (alloc_ok oom),
         ht\<lparr>table_size := hash_table_primes ! prime_index ht,
            table := (if fst (alloc_ok oom)
                      then replicate (nat (hash_table_primes ! prime_index ht)) [] else [])\<rparr>,
         snd (alloc_ok oom))"
  using assms by (simp add: hash_table_allocate_table_def case_prod_beta)

lemma enlarge_run:
  assumes "ht_inv ht" "Suc (prime_index ht) < hash_table_num_primes"
  shows "(\<not> fst (alloc_ok oom) \<longrightarrow> hash_table_enlarge ht oom = Inr (0, ht, snd (alloc_ok oom))) \<and>
    (fst (alloc_ok oom) \<longrightarrow>
      (\<exists>ht'. hash_table_enlarge ht oom = Inr (1, ht', snd (alloc_ok oom)) \<and>
        ht_inv ht' \<and> same_config ht ht' \<and> mset (ht_entries ht') = mset (ht_entries ht) \<and>
        entries ht' = entries ht \<and> prime_index ht' = Suc (prime_index ht)))"
proof -
  let ?p = "Suc (prime_index ht)"
  let ?n = "hash_table_primes ! ?p"
  let ?ht1 = "ht\<lparr>prime_index := ?p\<rparr>"
  let ?ht2 = "?ht1\<lparr>table_size := ?n, table := replicate (nat ?n) []\<rparr>"
  have inv: "ht_placed ht" "ht_unique ht" "ht_sized ht"
    using assms(1) by (auto simp: ht_inv_def)
  have size: "table_size ht + 3 \<le> ?n"
    using inv(3) assms(2) primes_step by (simp add: ht_sized_def)
  have placed: "ht_placed ?ht2"
    using placed_fresh [OF prime_ok(1,2) [OF assms(2)], of ?ht1] .
  have old: "nat (table_size ht) = length (table ht)"
    using inv(1) by (simp add: ht_placed_def ht_shape_def)
  from relink_chains_correct [OF placed old, of 0] obtain t where t:
    "relink_chains (table ht) (table_size ht) 0 ?ht2 = Inr (?ht2\<lparr>table := t\<rparr>)"
    "ht_placed (?ht2\<lparr>table := t\<rparr>)" "mset (concat t) = mset (ht_entries ht)"
    by (auto simp: ht_entries_def)
  let ?ht' = "?ht2\<lparr>table := t\<rparr>"
  have "ht_unique ?ht'"
    using inv(2) mset_distinct_map [OF t(3), of "\<lambda>e. key_class (equal_func ht) (fst e)"]
    by (simp add: ht_unique_def ht_entries_def)
  moreover have "ht_sized ?ht'"
    using inv(3) assms(2) size mset_eq_length [OF t(3)] by (simp add: ht_sized_def ht_entries_def)
  ultimately have "ht_inv ?ht'"
    using t(2) by (simp add: ht_inv_def)
  moreover have "hash_table_enlarge ht oom = Inr (1, ?ht', snd (alloc_ok oom))" if "fst (alloc_ok oom)"
    using that t(1) assms(2) by (simp add: hash_table_enlarge_def allocate_correct)
  moreover have "hash_table_enlarge ht oom = Inr (0, ht, snd (alloc_ok oom))" if "\<not> fst (alloc_ok oom)"
    using that assms(2) by (simp add: hash_table_enlarge_def allocate_correct)
  ultimately show ?thesis
    using t(3) by (fastforce simp: same_config_def ht_entries_def)
qed

section \<open>Replacing, adding and removing an entry in its bucket\<close>

lemma placed_update:
  assumes "ht_placed ht" "\<forall>e \<in> set c. slot ht (fst e) = i"
  shows "ht_placed (ht\<lparr>table := (table ht)[i := c]\<rparr>)"
proof -
  have "slot ht (fst e) = j" if "j < length (table ht)" "e \<in> set ((table ht)[i := c] ! j)" for j e
    using that assms by (cases "i = j") (auto simp: ht_placed_def)
  then show ?thesis using assms(1) by (simp add: ht_placed_def)
qed

lemma entries_field_irrelevant [simp]:
  "ht_placed (ht\<lparr>entries := n\<rparr>) = ht_placed ht"
  "ht_unique (ht\<lparr>entries := n\<rparr>) = ht_unique ht"
  "ht_entries (ht\<lparr>entries := n\<rparr>) = ht_entries ht"
  by (simp_all add: ht_placed_def ht_shape_def slot_def ht_unique_def ht_entries_def)

lemma entries_update:
  assumes "i < length (table ht)"
  shows "mset (ht_entries (ht\<lparr>table := (table ht)[i := c]\<rparr>)) + mset (table ht ! i) =
    mset (ht_entries ht) + mset c"
  using assms by (simp add: ht_entries_def mset_concat_update mset_concat_nth)

lemma table_update_config [simp]:
  "same_config ht (ht\<lparr>table := t\<rparr>)" "same_config ht (ht\<lparr>table := t, entries := n\<rparr>)" "same_config ht ht"
  by (simp_all add: same_config_def)

lemma same_config_trans: "same_config a b \<Longrightarrow> same_config b c \<Longrightarrow> same_config a c"
  by (simp add: same_config_def)

definition insert_frees ::
    "('k, 'v, 's) hash_table \<Rightarrow> 'k \<Rightarrow> 's \<Rightarrow> fault + 's" where
  "insert_frees ht k s =
     (case ht_find ht k of
        None \<Rightarrow> Inr s
      | Some e \<Rightarrow> rbind (run_free (value_free_func ht) (snd e) s) (run_free (key_free_func ht) (fst e)))"

definition found_mset :: "('k, 'v, 's) hash_table \<Rightarrow> 'k \<Rightarrow> ('k \<times> 'v) multiset" where
  "found_mset ht k = (case ht_find ht k of None \<Rightarrow> {#} | Some e \<Rightarrow> {#e#})"

lemma slot_small:
  assumes "ht_sized ht" "entries ht < 536870914" "entries ht * 3 div table_size ht > 0" "0 < table_size ht"
  shows "Suc (prime_index ht) < hash_table_num_primes"
proof (rule ccontr)
  assume "\<not> ?thesis"
  with assms(1) have "prime_index ht = 23" by (simp add: ht_sized_def)
  moreover have "hash_table_primes ! 23 = 1610612741" by code_simp
  ultimately have "table_size ht = 1610612741" using assms(1) by (simp add: ht_sized_def)
  with assms(2,3) show False by simp
qed


context keyed_hash
begin

lemma find_in_bucket_rev:
  assumes "ht_placed ht" "ht_unique ht" "hash_func ht = hash" "equal_func ht = equal"
  shows "chain_lookup (\<lambda>k'. equal k' k \<noteq> 0) (table ht ! slot ht k) = ht_find ht k"
proof -
  have "(\<lambda>k'. equal k' k \<noteq> 0) = (\<lambda>k'. equal k k' \<noteq> 0)"
    using equal_commute by blast
  then show ?thesis using find_in_bucket [OF assms] by simp
qed

text \<open>
  Replacing, adding and removing an entry are one change: \<open>M\<close>, the entries equal to \<open>k\<close>,
  becomes \<open>N\<close>, which is empty or the new entry.
\<close>

lemma lookup_change:
  assumes rest: "\<forall>x \<in> set (A @ B). equal k (fst x) = 0"
    and M: "\<forall>x \<in> set M. equal k (fst x) \<noteq> 0"
    and N: "N = [] \<or> N = [(k, v)]"
  shows "chain_lookup (\<lambda>j. equal k' j \<noteq> 0) (A @ N @ B) =
    (if equal k k' \<noteq> 0 then (if N = [] then None else Some (k, v))
     else chain_lookup (\<lambda>j. equal k' j \<noteq> 0) (A @ M @ B))"
proof (cases "equal k k' \<noteq> 0")
  case True
  then have "equal k' j \<noteq> 0 \<longleftrightarrow> equal k j \<noteq> 0" for j
    using equal_left [of k k' j] by blast
  moreover have "equal k k \<noteq> 0" by (rule equal_refl)
  ultimately show ?thesis using True rest N
    by (auto simp: chain_lookup_append chain_lookup_None_iff split: option.splits
        dest!: chain_lookup_SomeD)
next
  case False
  then have "equal k' (fst x) = 0" if "x \<in> set M" for x
    using that M equal_trans equal_sym by blast
  then have "chain_lookup (\<lambda>j. equal k' j \<noteq> 0) M = None"
    by (simp add: chain_lookup_None_iff)
  moreover have "chain_lookup (\<lambda>j. equal k' j \<noteq> 0) N = None"
    using N False equal_commute by auto
  ultimately show ?thesis using False
    by (simp add: chain_lookup_append split: option.splits)
qed

lemma classes_change:
  assumes "\<forall>x \<in> set (A @ B). equal k (fst x) = 0" "N = [] \<or> N = [(k, v)]"
    and "distinct (map (\<lambda>e. key_class equal (fst e)) (A @ M @ B))"
  shows "distinct (map (\<lambda>e. key_class equal (fst e)) (A @ N @ B))"
proof -
  have "key_class equal k \<noteq> key_class equal (fst x)" if "x \<in> set (A @ B)" for x
    using assms(1) that by (simp only: key_class_eq)
  then have "key_class equal k \<notin> (\<lambda>e. key_class equal (fst e)) ` set (A @ B)"
    by blast
  with assms(3) show ?thesis
    by (rule distinct_middle) (use assms(2) in auto)
qed

lemma rest_of_unique:
  assumes "distinct (map (\<lambda>e. key_class equal (fst e)) (A @ e # B))" "equal k (fst e) \<noteq> 0"
  shows "\<forall>x \<in> set (A @ B). equal k (fst x) = 0"
proof
  fix x assume x: "x \<in> set (A @ B)"
  show "equal k (fst x) = 0"
  proof (rule ccontr)
    assume "equal k (fst x) \<noteq> 0"
    then have "key_class equal (fst e) = key_class equal (fst x)"
      using assms(2) equal_sym equal_trans by (subst key_class_eq) blast
    with x assms(1) show False by auto
  qed
qed

text \<open>
  One bucket of a table changes: the effect on the entries, the invariant and the map.
\<close>

lemma bucket_change:
  assumes inv: "ht_inv ht" and fns: "hash_func ht = hash" "equal_func ht = equal"
    and bucket: "table ht ! slot ht k = xs @ M @ ys"
    and M: "M = [] \<and> ht_find ht k = None \<or> (\<exists>e. M = [e] \<and> ht_find ht k = Some e)"
    and N: "N = [] \<or> N = [(k, v)]"
    and ht': "ht' = ht\<lparr>table := (table ht)[slot ht k := xs @ N @ ys],
                      entries := entries ht - int (length M) + int (length N)\<rparr>"
    and fits: "entries ht' * 3 \<le> table_size ht + 2"
  shows "ht_inv ht'" "same_config ht ht'"
    "ht_map ht' = (\<lambda>k'. if equal k k' \<noteq> 0 then (if N = [] then None else Some v) else ht_map ht k')"
    "mset (ht_entries ht') = mset (ht_entries ht) - found_mset ht k + mset N"
proof -
  let ?i = "slot ht k"
  let ?A = "concat (take ?i (table ht)) @ xs"
  let ?B = "ys @ concat (drop (Suc ?i) (table ht))"
  have parts: "ht_placed ht" "ht_unique ht" "ht_sized ht"
    using inv by (auto simp: ht_inv_def)
  then have i: "?i < length (table ht)"
    by (intro slot_less ht_placed_shape)
  have old: "ht_entries ht = ?A @ M @ ?B"
    using id_take_nth_drop [OF i] bucket
    by (metis append.assoc concat.simps(2) concat_append ht_entries_def)
  have new: "ht_entries ht' = ?A @ N @ ?B"
    using i by (simp add: ht' ht_entries_def upd_conv_take_nth_drop)
  have find: "ht_find ht k = Some e \<longleftrightarrow> e \<in> set (ht_entries ht) \<and> equal k (fst e) \<noteq> 0" for e
    using parts(2) fns by (simp add: ht_find_def chain_lookup_unique ht_unique_def)
  have uniq: "distinct (map (\<lambda>e. key_class equal (fst e)) (?A @ M @ ?B))"
    using parts(2) fns old by (simp add: ht_unique_def)
  have Meq: "\<forall>x \<in> set M. equal k (fst x) \<noteq> 0"
    using M find by auto
  have rest: "\<forall>x \<in> set (?A @ ?B). equal k (fst x) = 0"
  proof (cases M)
    case Nil
    with M have "ht_find ht k = None" by simp
    then show ?thesis using find old Nil
      by (metis append_Nil not_None_eq)
  next
    case (Cons e es)
    with M have "M = [e]" by auto
    with uniq Meq show ?thesis by (intro rest_of_unique [of ?A e ?B]) auto
  qed
  have "\<forall>e \<in> set (xs @ N @ ys). slot ht (fst e) = ?i"
  proof
    fix e assume "e \<in> set (xs @ N @ ys)"
    then have "e \<in> set (table ht ! ?i) \<or> fst e = k" using N bucket by auto
    then show "slot ht (fst e) = ?i" using parts(1) i by (auto simp: ht_placed_def)
  qed
  then have "ht_placed ht'"
    using placed_update [OF parts(1), of "xs @ N @ ys" ?i] by (simp add: ht')
  moreover have "ht_unique ht'"
    using classes_change [OF rest N uniq] new fns by (simp add: ht_unique_def ht')
  moreover have "ht_sized ht'"
    using parts(3) fits old new by (simp add: ht_sized_def ht')
  ultimately show "ht_inv ht'" by (simp add: ht_inv_def)
  show "same_config ht ht'" by (simp add: ht' same_config_def)
  show "ht_map ht' = (\<lambda>k'. if equal k k' \<noteq> 0 then (if N = [] then None else Some v) else ht_map ht k')"
  proof
    fix k'
    have "equal_func ht' = equal" using fns by (simp add: ht')
    then have "ht_find ht' k' = (if equal k k' \<noteq> 0 then (if N = [] then None else Some (k, v)) else ht_find ht k')"
      using lookup_change [OF rest Meq N, of k'] by (simp only: ht_find_def old new fns)
    then show "ht_map ht' k' = (if equal k k' \<noteq> 0 then (if N = [] then None else Some v) else ht_map ht k')"
      by (simp add: ht_map_def)
  qed
  show "mset (ht_entries ht') = mset (ht_entries ht) - found_mset ht k + mset N"
    using M by (auto simp: old new found_mset_def)
qed


lemma same_entries:
  assumes "equal_func ht = equal" "ht_unique ht" "same_config ht ht'"
    and "mset (ht_entries ht') = mset (ht_entries ht)"
  shows "ht_find ht' k = ht_find ht k" "ht_map ht' = ht_map ht"
    "insert_frees ht' k s = insert_frees ht k s" "found_mset ht' k = found_mset ht k"
proof -
  have find: "ht_find ht' k = ht_find ht k" for k
    using assms chain_lookup_perm [OF assms(4)[symmetric], of k]
    by (simp add: ht_find_def same_config_def ht_unique_def)
  then show "ht_find ht' k = ht_find ht k" "ht_map ht' = ht_map ht"
    "insert_frees ht' k s = insert_frees ht k s" "found_mset ht' k = found_mset ht k"
    using assms(3)
    by (auto simp: ht_map_def insert_frees_def found_mset_def same_config_def split: option.splits)
qed

text \<open>The part of \<open>hash_table_insert\<close> after the growth check.\<close>

lemma replace_in_bucket:
  assumes inv: "ht_inv ht" and fns: "hash_func ht = hash" "equal_func ht = equal"
  shows "ht_find ht k = None \<Longrightarrow>
      chain_replace (\<lambda>j. equal j k \<noteq> 0) k v (table ht ! slot ht k) = None"
    and "ht_find ht k = Some e \<Longrightarrow>
      \<exists>xs ys. table ht ! slot ht k = xs @ e # ys \<and>
        chain_replace (\<lambda>j. equal j k \<noteq> 0) k v (table ht ! slot ht k) = Some (e, xs @ (k, v) # ys)"
proof -
  let ?c = "table ht ! slot ht k"
  have find: "chain_lookup (\<lambda>j. equal j k \<noteq> 0) ?c = ht_find ht k"
    using inv fns by (intro find_in_bucket_rev) (auto simp: ht_inv_def)
  then show "chain_replace (\<lambda>j. equal j k \<noteq> 0) k v ?c = None" if "ht_find ht k = None"
    using that by (simp add: chain_replace_None)
  assume Some: "ht_find ht k = Some e"
  with find obtain d c' where r: "chain_replace (\<lambda>j. equal j k \<noteq> 0) k v ?c = Some (d, c')"
    using chain_replace_None [of "\<lambda>j. equal j k \<noteq> 0" k v ?c]
    by (cases "chain_replace (\<lambda>j. equal j k \<noteq> 0) k v ?c") auto
  from chain_replace_Some [OF r] find Some r
  show "\<exists>xs ys. ?c = xs @ e # ys \<and>
      chain_replace (\<lambda>j. equal j k \<noteq> 0) k v ?c = Some (e, xs @ (k, v) # ys)"
    by (metis option.inject)
qed

end

definition insert_done ::
    "('k, 'v, 's) hash_table \<Rightarrow> 'k \<Rightarrow> 'v \<Rightarrow> ('k, 'v, 's) hash_table \<Rightarrow> bool" where
  "insert_done ht k v ht' \<longleftrightarrow>
     ht_inv ht' \<and> same_config ht ht' \<and>
     ht_map ht' = (\<lambda>j. if equal_func ht k j \<noteq> 0 then Some v else ht_map ht j) \<and>
     mset (ht_entries ht') = add_mset (k, v) (mset (ht_entries ht) - found_mset ht k)"

definition insert_undone :: "('k, 'v, 's) hash_table \<Rightarrow> ('k, 'v, 's) hash_table \<Rightarrow> bool" where
  "insert_undone ht ht' \<longleftrightarrow>
     ht_inv ht' \<and> same_config ht ht' \<and> ht_map ht' = ht_map ht \<and>
     mset (ht_entries ht') = mset (ht_entries ht)"

lemma alloc_ok_False: "\<not> fst (alloc_ok oom) \<Longrightarrow> False \<in> set oom"
  by (cases oom) auto

lemma alloc_ok_subset: "set (snd (alloc_ok oom)) \<subseteq> set oom"
  by (cases oom) auto

text \<open>The second half of \<open>hash_table_insert\<close>, once the table is large enough.\<close>

definition insert_tail ::
    "('k, 'v, 's) hash_table \<Rightarrow> 'k \<Rightarrow> 'v \<Rightarrow> bool list \<Rightarrow> 's \<Rightarrow>
     fault + (int \<times> ('k, 'v, 's) hash_table \<times> bool list \<times> 's)" where
  "insert_tail ht1 key value oom1 s =
     rbind (hash_table_index ht1 key) (\<lambda>index.
     rbind (bucket ht1 index) (\<lambda>chain.
       case chain_replace (\<lambda>k. equal_func ht1 k key \<noteq> 0) key value chain of
         Some (rover, chain') \<Rightarrow>
           rbind (run_free (value_free_func ht1) (snd rover) s) (\<lambda>s1.
           rbind (run_free (key_free_func ht1) (fst rover) s1) (\<lambda>s2.
             Inr (1, ht1\<lparr>table := (table ht1)[index := chain']\<rparr>, oom1, s2)))
       | None \<Rightarrow>
           (let (ok2, oom2) = alloc_ok oom1 in
            if \<not> ok2 then Inr (0, ht1, oom2, s)
            else rbind (c_add (entries ht1) 1) (\<lambda>n1.
                   Inr (1, ht1\<lparr>table := (table ht1)[index := (key, value) # chain],
                               entries := n1\<rparr>, oom2, s)))))"

lemma hash_table_insert_tail:
  "hash_table_insert ht key value oom s =
     rbind (c_mul (entries ht) 3) (\<lambda>n.
     rbind (c_div n (table_size ht)) (\<lambda>q.
     rbind (if q > 0 then hash_table_enlarge ht oom else Inr (1, ht, oom)) (\<lambda>(ok, ht1, oom1).
       if ok = 0 then Inr (0, ht1, oom1, s) else insert_tail ht1 key value oom1 s)))"
  unfolding hash_table_insert_def insert_tail_def by (rule refl)

context keyed_hash
begin

lemma insert_tail_run:
  assumes inv: "ht_inv ht" and fns: "hash_func ht = hash" "equal_func ht = equal"
    and room: "entries ht * 3 < table_size ht"
  shows "(\<exists>ht' oom'. insert_tail ht k v oom s = Inr (0, ht', oom', s) \<and> False \<in> set oom \<and>
      insert_undone ht ht') \<or>
    (\<exists>ht' oom'. insert_tail ht k v oom s =
        rbind (insert_frees ht k s) (\<lambda>s'. Inr (1, ht', oom', s')) \<and> insert_done ht k v ht')"
proof -
  have sh: "ht_shape ht" using inv by (rule ht_inv_shape)
  have i: "slot ht k < length (table ht)" using sh by (rule slot_less)
  have ent: "entries ht = int (length (ht_entries ht))" "table_size ht \<le> 1610612741"
    using inv prime_ok(3) by (auto simp: ht_inv_def ht_sized_def simp del: num_primes)
  show ?thesis
  proof (cases "ht_find ht k")
    case None
    note c = replace_in_bucket(1) [OF inv fns None, of v]
    show ?thesis
    proof (cases "fst (alloc_ok oom)")
      case False
      then have "insert_tail ht k v oom s = Inr (0, ht, snd (alloc_ok oom), s)"
        using c sh i fns by (simp add: insert_tail_def case_prod_beta)
      moreover have "insert_undone ht ht" using inv by (simp add: insert_undone_def)
      ultimately show ?thesis using alloc_ok_False [OF False] by blast
    next
      case True
      let ?ht' = "ht\<lparr>table := (table ht)[slot ht k := (k, v) # table ht ! slot ht k],
                    entries := entries ht + 1\<rparr>"
      have "insert_tail ht k v oom s = Inr (1, ?ht', snd (alloc_ok oom), s)"
        using True c sh i fns room ent
        by (simp add: insert_tail_def case_prod_beta c_add_def int_ok_def)
      moreover have "insert_done ht k v ?ht'"
        using bucket_change [OF inv fns, of k "[]" "[]" "table ht ! slot ht k" "[(k, v)]" v ?ht'] room None
        by (auto simp: insert_done_def found_mset_def fns)
      ultimately show ?thesis using None by (auto simp: insert_frees_def)
    qed
  next
    case (Some e)
    from replace_in_bucket(2) [OF inv fns Some, of v] obtain xs ys where
      c: "table ht ! slot ht k = xs @ [e] @ ys"
      "chain_replace (\<lambda>j. equal j k \<noteq> 0) k v (table ht ! slot ht k) = Some (e, xs @ (k, v) # ys)"
      by auto
    let ?ht' = "ht\<lparr>table := (table ht)[slot ht k := xs @ (k, v) # ys]\<rparr>"
    have "insert_tail ht k v oom s = rbind (insert_frees ht k s) (\<lambda>s'. Inr (1, ?ht', oom, s'))"
      using c(2) sh i fns Some by (simp add: insert_tail_def insert_frees_def rbind_assoc)
    moreover have "insert_done ht k v ?ht'"
      using bucket_change [OF inv fns c(1), of "[(k, v)]" v ?ht'] room Some
      by (auto simp: insert_done_def found_mset_def fns)
    ultimately show ?thesis by blast
  qed
qed


lemma grown_is_roomy:
  assumes "ht_inv ht" "entries ht < 536870914"
  shows "(\<not> fst (alloc_ok oom) \<and> False \<in> set oom \<and>
      hash_table_insert ht k v oom s = Inr (0, ht, snd (alloc_ok oom), s)) \<or>
    (\<exists>ht1 oom1. ht_inv ht1 \<and> same_config ht ht1 \<and> set oom1 \<subseteq> set oom \<and>
      mset (ht_entries ht1) = mset (ht_entries ht) \<and> entries ht1 * 3 < table_size ht1 \<and>
      hash_table_insert ht k v oom s = insert_tail ht1 k v oom1 s)"
proof -
  let ?q = "entries ht * 3 div table_size ht"
  have facts: "0 < table_size ht" "0 \<le> entries ht" "table_size ht \<le> 1610612741"
    "entries ht * 3 \<le> table_size ht + 2" "ht_sized ht"
    using assms(1) prime_ok [of "prime_index ht"]
    by (auto simp: ht_inv_def ht_sized_def simp del: num_primes)
  have start: "hash_table_insert ht k v oom s =
    rbind (if ?q > 0 then hash_table_enlarge ht oom else Inr (1, ht, oom)) (\<lambda>(ok, ht1, oom1).
      if ok = 0 then Inr (0, ht1, oom1, s) else insert_tail ht1 k v oom1 s)"
    using facts by (simp add: hash_table_insert_tail c_mul_Inr c_div_Inr int_ok_def)
  show ?thesis
  proof (cases "?q > 0")
    case False
    then have "entries ht * 3 < table_size ht"
      using facts(1) by (metis linorder_not_less pos_imp_zdiv_pos_iff)
    with False start assms(1) show ?thesis
      by (intro disjI2 exI [of _ ht] exI [of _ oom]) simp
  next
    case True
    then have next_prime: "Suc (prime_index ht) < hash_table_num_primes"
      using slot_small facts(1,5) assms(2) by blast
    note grow = enlarge_run [OF assms(1) next_prime, of oom]
    show ?thesis
    proof (cases "fst (alloc_ok oom)")
      case False
      with grow start True alloc_ok_False [OF False] show ?thesis by simp
    next
      case ok: True
      with grow obtain ht1 where g: "hash_table_enlarge ht oom = Inr (1, ht1, snd (alloc_ok oom))"
        "ht_inv ht1" "same_config ht ht1" "mset (ht_entries ht1) = mset (ht_entries ht)"
        "entries ht1 = entries ht" "prime_index ht1 = Suc (prime_index ht)"
        by blast
      have "table_size ht + 3 \<le> table_size ht1"
        using facts(5) g(2,6) next_prime primes_step by (simp add: ht_inv_def ht_sized_def)
      with g start True facts(4) alloc_ok_subset [of oom] show ?thesis
        by (intro disjI2 exI [of _ ht1] exI [of _ "snd (alloc_ok oom)"]) simp
    qed
  qed
qed

lemma insert_run:
  assumes inv: "ht_inv ht" and fns: "hash_func ht = hash" "equal_func ht = equal"
    and small: "entries ht < 536870914"
  shows "(\<exists>ht' oom'. hash_table_insert ht k v oom s = Inr (0, ht', oom', s) \<and> False \<in> set oom \<and>
      insert_undone ht ht') \<or>
    (\<exists>ht' oom'. hash_table_insert ht k v oom s =
        rbind (insert_frees ht k s) (\<lambda>s'. Inr (1, ht', oom', s')) \<and> insert_done ht k v ht')"
proof -
  have self: "insert_undone ht ht" using inv by (simp add: insert_undone_def)
  have uniq: "ht_unique ht" using inv by (simp add: ht_inv_def)
  from grown_is_roomy [OF inv small, of oom k v s] show ?thesis
  proof (elim disjE exE conjE)
    assume "hash_table_insert ht k v oom s = Inr (0, ht, snd (alloc_ok oom), s)" "False \<in> set oom"
    with self show ?thesis by blast
  next
    fix ht1 oom1
    assume g: "ht_inv ht1" "same_config ht ht1" "set oom1 \<subseteq> set oom"
      "mset (ht_entries ht1) = mset (ht_entries ht)" "entries ht1 * 3 < table_size ht1"
      "hash_table_insert ht k v oom s = insert_tail ht1 k v oom1 s"
    have fns1: "hash_func ht1 = hash" "equal_func ht1 = equal"
      using fns g(2) by (auto simp: same_config_def)
    note same = same_entries [OF fns(2) uniq g(2,4)]
    have "insert_undone ht ht'" if "insert_undone ht1 ht'" for ht'
      using that same same_config_trans [OF g(2)] g(4) by (simp add: insert_undone_def)
    moreover have "insert_done ht k v ht'" if "insert_done ht1 k v ht'" for ht'
      using that same same_config_trans [OF g(2)] g(4) fns fns1
      by (simp add: insert_done_def cong: if_cong)
    ultimately show ?thesis
      using insert_tail_run [OF g(1) fns1 g(5), of k v oom1 s] g(3,6) same(3) by auto
  qed
qed

lemma unlink_in_bucket:
  assumes inv: "ht_inv ht" and fns: "hash_func ht = hash" "equal_func ht = equal"
  shows "ht_find ht k = None \<Longrightarrow>
      chain_unlink (\<lambda>j. equal k j \<noteq> 0) (table ht ! slot ht k) = None"
    and "ht_find ht k = Some e \<Longrightarrow>
      \<exists>xs ys. table ht ! slot ht k = xs @ e # ys \<and>
        chain_unlink (\<lambda>j. equal k j \<noteq> 0) (table ht ! slot ht k) = Some (e, xs @ ys)"
proof -
  let ?c = "table ht ! slot ht k"
  have find: "chain_lookup (\<lambda>j. equal k j \<noteq> 0) ?c = ht_find ht k"
    using inv fns by (intro find_in_bucket) (auto simp: ht_inv_def)
  then show "chain_unlink (\<lambda>j. equal k j \<noteq> 0) ?c = None" if "ht_find ht k = None"
    using that by (simp add: chain_unlink_None)
  assume Some: "ht_find ht k = Some e"
  with find obtain d c' where r: "chain_unlink (\<lambda>j. equal k j \<noteq> 0) ?c = Some (d, c')"
    using chain_unlink_None [of "\<lambda>j. equal k j \<noteq> 0" ?c]
    by (cases "chain_unlink (\<lambda>j. equal k j \<noteq> 0) ?c") auto
  from chain_unlink_Some [OF r] find Some r
  show "\<exists>xs ys. ?c = xs @ e # ys \<and>
      chain_unlink (\<lambda>j. equal k j \<noteq> 0) ?c = Some (e, xs @ ys)"
    by (metis option.inject)
qed

lemma remove_run:
  assumes inv: "ht_inv ht" and fns: "hash_func ht = hash" "equal_func ht = equal"
  shows "(ht_find ht k = None \<longrightarrow> hash_table_remove ht k s = Inr (0, ht, s)) \<and>
    (\<forall>e. ht_find ht k = Some e \<longrightarrow>
      (\<exists>ht'. hash_table_remove ht k s =
          rbind (hash_table_free_entry ht e s) (\<lambda>s'. Inr (1, ht', s')) \<and>
        ht_inv ht' \<and> same_config ht ht' \<and>
        ht_map ht' = (\<lambda>j. if equal k j \<noteq> 0 then None else ht_map ht j) \<and>
        mset (ht_entries ht') = mset (ht_entries ht) - {#e#}))"
proof (intro conjI impI allI)
  have sh: "ht_shape ht" using inv by (rule ht_inv_shape)
  have i: "slot ht k < length (table ht)" using sh by (rule slot_less)
  have ent: "entries ht = int (length (ht_entries ht))" "table_size ht \<le> 1610612741"
    "entries ht * 3 \<le> table_size ht + 2"
    using inv prime_ok(3) by (auto simp: ht_inv_def ht_sized_def simp del: num_primes)
  show "hash_table_remove ht k s = Inr (0, ht, s)" if "ht_find ht k = None"
    using unlink_in_bucket(1) [OF inv fns that] sh i fns by (simp add: hash_table_remove_def)
  fix e assume Some: "ht_find ht k = Some e"
  from unlink_in_bucket(2) [OF inv fns Some] obtain xs ys where
    c: "table ht ! slot ht k = xs @ [e] @ ys"
      "chain_unlink (\<lambda>j. equal k j \<noteq> 0) (table ht ! slot ht k) = Some (e, xs @ ys)"
    by auto
  let ?ht' = "ht\<lparr>table := (table ht)[slot ht k := xs @ ys], entries := entries ht - 1\<rparr>"
  have "hash_table_remove ht k s = rbind (hash_table_free_entry ht e s) (\<lambda>s'. Inr (1, ?ht', s'))"
    using c(2) sh i fns ent by (simp add: hash_table_remove_def c_add_def int_ok_def)
  moreover have "ht_inv ?ht' \<and> same_config ht ?ht' \<and>
      ht_map ?ht' = (\<lambda>j. if equal k j \<noteq> 0 then None else ht_map ht j) \<and>
      mset (ht_entries ?ht') = mset (ht_entries ht) - {#e#}"
    using bucket_change [OF inv fns c(1), of "[]" undefined ?ht'] ent Some
    by (auto simp: found_mset_def)
  ultimately show "\<exists>ht'. hash_table_remove ht k s =
          rbind (hash_table_free_entry ht e s) (\<lambda>s'. Inr (1, ht', s')) \<and>
        ht_inv ht' \<and> same_config ht ht' \<and>
        ht_map ht' = (\<lambda>j. if equal k j \<noteq> 0 then None else ht_map ht j) \<and>
        mset (ht_entries ht') = mset (ht_entries ht) - {#e#}"
    by blast
qed

end

text \<open>Outcomes of allocations are only consumed.\<close>

lemma alloc_oom: "alloc_ok oom = (ok, oom') \<Longrightarrow> set oom' \<subseteq> set oom"
  using alloc_ok_subset [of oom] by simp

lemma allocate_oom:
  "hash_table_allocate_table ht oom = Inr (ok, ht', oom') \<Longrightarrow> set oom' \<subseteq> set oom"
  by (cases "alloc_ok oom")
    (auto simp: hash_table_allocate_table_def rbind_eq_Inr_iff dest: alloc_oom)

lemma enlarge_oom: "hash_table_enlarge ht oom = Inr (r, ht', oom') \<Longrightarrow> set oom' \<subseteq> set oom"
  by (auto simp: hash_table_enlarge_def rbind_eq_Inr_iff split: if_splits dest!: allocate_oom)

lemma insert_tail_oom:
  "insert_tail ht k v oom s = Inr (r, ht', oom', s') \<Longrightarrow> set oom' \<subseteq> set oom"
  by (cases "alloc_ok oom")
    (auto simp: insert_tail_def rbind_eq_Inr_iff split: if_splits option.splits dest: alloc_oom)

lemma insert_oom:
  "hash_table_insert ht k v oom s = Inr (r, ht', oom', s') \<Longrightarrow> set oom' \<subseteq> set oom"
  unfolding hash_table_insert_tail
  by (auto simp: rbind_eq_Inr_iff split: if_splits dest!: enlarge_oom insert_tail_oom)

section \<open>Creation, destruction and iteration\<close>

lemma new_run:
  "hash_table_new h eq oom =
     (if fst (alloc_ok oom) \<and> fst (alloc_ok (snd (alloc_ok oom)))
      then Inr (Some \<lparr>table = replicate 193 [], table_size = 193, hash_func = h, equal_func = eq,
                      key_free_func = None, value_free_func = None, entries = 0, prime_index = 0\<rparr>,
                snd (alloc_ok (snd (alloc_ok oom))))
      else Inr (None, if fst (alloc_ok oom) then snd (alloc_ok (snd (alloc_ok oom)))
                      else snd (alloc_ok oom)))"
proof -
  have "hash_table_primes ! 0 = 193" by (simp add: hash_table_primes_def)
  then show ?thesis
    by (simp add: hash_table_new_def allocate_correct case_prod_beta)
qed

lemma new_inv:
  assumes "hash_table_new h eq oom = Inr (Some ht, oom')"
  shows "ht_inv (hash_table_register_free_functions ht kf vf)"
    "ht_entries (hash_table_register_free_functions ht kf vf) = []"
    "hash_func ht = h" "equal_func ht = eq"
proof -
  have "hash_table_primes ! 0 = 193" by (simp add: hash_table_primes_def)
  then show "ht_inv (hash_table_register_free_functions ht kf vf)"
    "ht_entries (hash_table_register_free_functions ht kf vf) = []"
    "hash_func ht = h" "equal_func ht = eq"
    using assms
    by (auto simp: new_run ht_inv_def ht_placed_def ht_shape_def ht_unique_def ht_sized_def
        ht_entries_def hash_table_register_free_functions_def int_ok_def split: if_splits)
qed

lemma free_chain_append:
  "free_chain ht (xs @ ys) s = rbind (free_chain ht xs s) (free_chain ht ys)"
  by (induction xs arbitrary: s) (auto simp: rbind_def split: sum.splits)

lemma free_chains_run:
  "ht_shape ht \<Longrightarrow> free_chains ht i s = free_chain ht (concat (drop i (table ht))) s"
proof (induction ht i s rule: free_chains.induct)
  case (1 ht i s)
  have len: "length (table ht) = nat (table_size ht)"
    using "1.prems" by (simp add: ht_shape_def)
  show ?case
  proof (cases "int i < table_size ht")
    case True
    then have i: "i < length (table ht)" using len by linarith
    then show ?thesis
      using "1.IH" [OF True _ _ "1.prems"] True
      by (subst free_chains.simps)
        (auto simp: Cons_nth_drop_Suc [symmetric] free_chain_append rbind_def split: sum.splits)
  next
    case False
    then show ?thesis using len by (subst free_chains.simps) simp
  qed
qed

lemma free_run: "ht_inv ht \<Longrightarrow> hash_table_free ht s = free_chain ht (ht_entries ht) s"
  by (simp add: hash_table_free_def free_chains_run ht_inv_shape ht_entries_def)

definition iter_rest :: "('k, 'v, 's) hash_table \<Rightarrow> ('k, 'v) ht_iterator \<Rightarrow> ('k, 'v) chain" where
  "iter_rest ht it =
     (if next_entry it = [] then [] else next_entry it @ concat (drop (Suc (next_chain it)) (table ht)))"

lemma scan_chains_run:
  "ht_shape ht \<Longrightarrow>
   \<exists>c b. scan_chains ht i = Inr (c, b) \<and>
     (if b = [] then [] else b @ concat (drop (Suc c) (table ht))) = concat (drop i (table ht))"
proof (induction ht i rule: scan_chains.induct)
  case (1 ht i)
  have len: "length (table ht) = nat (table_size ht)"
    using "1.prems" by (simp add: ht_shape_def)
  show ?case
  proof (cases "int i < table_size ht")
    case True
    then have i: "i < length (table ht)" using len by linarith
    then show ?thesis
      using "1.IH" [OF True _ _ "1.prems"] True
      by (subst scan_chains.simps) (auto simp: Cons_nth_drop_Suc [symmetric])
  next
    case False
    then show ?thesis using len by (subst scan_chains.simps) simp
  qed
qed

lemma scan_chains_bounds:
  "scan_chains ht i = Inr (c, b) \<Longrightarrow> i \<le> c \<and> (b \<noteq> [] \<longrightarrow> int c < table_size ht)"
proof (induction ht i rule: scan_chains.induct)
  case (1 ht i)
  show ?case
  proof (cases "int i < table_size ht")
    case True
    with "1.prems" obtain d where d: "bucket ht i = Inr d"
      "(if d \<noteq> [] then Inr (i, d) else scan_chains ht (Suc i)) = Inr (c, b)"
      by (subst (asm) scan_chains.simps) (auto simp: rbind_eq_Inr_iff)
    with "1.IH" [OF True d(1)] True show ?thesis by (auto split: if_splits)
  next
    case False
    with "1.prems" show ?thesis by (subst (asm) scan_chains.simps) simp
  qed
qed


lemma iterate_run:
  "ht_shape ht \<Longrightarrow> \<exists>it'. hash_table_iterate ht it = Inr it' \<and> iter_rest ht it' = ht_entries ht"
  using scan_chains_run [of ht 0]
  by (auto simp: hash_table_iterate_def iter_rest_def ht_entries_def split: if_splits)

lemma iter_has_more_run:
  "hash_table_iter_has_more it \<noteq> 0 \<longleftrightarrow> iter_rest ht it \<noteq> []"
  by (auto simp: hash_table_iter_has_more_def iter_rest_def)

lemma iter_next_entry_run:
  assumes "ht_shape ht"
  shows "(iter_rest ht it = [] \<longrightarrow> hash_table_iter_next_entry ht it = Inr (None, it)) \<and>
    (\<forall>e es. iter_rest ht it = e # es \<longrightarrow>
      (\<exists>it'. hash_table_iter_next_entry ht it = Inr (Some e, it') \<and> iter_rest ht it' = es))"
proof (cases "next_entry it")
  case Nil
  then show ?thesis by (simp add: iter_rest_def hash_table_iter_next_entry_def)
next
  case (Cons e nx)
  show ?thesis
  proof (cases "nx = []")
    case True
    from scan_chains_run [OF assms, of "Suc (next_chain it)"] show ?thesis
      using Cons True by (auto simp: iter_rest_def hash_table_iter_next_entry_def split: if_splits)
  next
    case False
    then show ?thesis using Cons by (auto simp: iter_rest_def hash_table_iter_next_entry_def)
  qed
qed

lemma iter_next_by_entry:
  "hash_table_iter_next ht it =
    rbind (hash_table_iter_next_entry ht it) (\<lambda>(e, it'). Inr (map_option snd e, it'))"
  by (auto simp: hash_table_iter_next_def hash_table_iter_next_entry_def rbind_def
      split: list.splits sum.splits)

lemma iter_next_run:
  assumes "ht_shape ht" "iter_rest ht it = e # es"
  shows "\<exists>it'. hash_table_iter_next ht it = Inr (Some (snd e), it') \<and> iter_rest ht it' = es"
  using iter_next_entry_run [OF assms(1), of it] assms(2) by (auto simp: iter_next_by_entry)

text \<open>Every step of an iterator moves it forward, whatever table it is used with.\<close>

definition iter_order :: "('k, 'v, 's) hash_table \<Rightarrow> ('k, 'v) ht_iterator \<Rightarrow> nat" where
  "iter_order ht it = nat (table_size ht) - next_chain it"

lemma iter_next_entry_forward:
  assumes "hash_table_iter_next_entry ht it = Inr (x, it')" "hash_table_iter_has_more it \<noteq> 0"
  shows "iter_order ht it' < iter_order ht it \<or>
    iter_order ht it' = iter_order ht it \<and> length (next_entry it') < length (next_entry it)"
proof (cases "next_entry it")
  case Nil
  with assms(2) show ?thesis by (simp add: hash_table_iter_has_more_def)
next
  case (Cons e nx)
  show ?thesis
  proof (cases "nx = []")
    case True
    with assms(1) Cons obtain c b where s: "scan_chains ht (next_chain it + 1) = Inr (c, b)"
      "it' = it\<lparr>next_entry := b, next_chain := c\<rparr>"
      by (auto simp: hash_table_iter_next_entry_def rbind_eq_Inr_iff)
    with scan_chains_bounds [OF s(1)] Cons show ?thesis
      by (auto simp: iter_order_def)
  next
    case False
    with assms(1) Cons show ?thesis
      by (auto simp: hash_table_iter_next_entry_def iter_order_def)
  qed
qed

lemma iter_next_forward:
  assumes "hash_table_iter_next ht it = Inr (x, it')" "hash_table_iter_has_more it \<noteq> 0"
  shows "iter_order ht it' < iter_order ht it \<or>
    iter_order ht it' = iter_order ht it \<and> length (next_entry it') < length (next_entry it)"
  using assms iter_next_entry_forward [of ht it _ it'] by (auto simp: iter_next_by_entry rbind_eq_Inr_iff)

text \<open>The loop \<open>while (hash_table_iter_has_more(&it)) hash_table_iter_next_entry(&it)\<close>.\<close>

function iter_collect :: "('k, 'v, 's) hash_table \<Rightarrow> ('k, 'v) ht_iterator \<Rightarrow> fault + ('k, 'v) chain" where
  "iter_collect ht it =
     (if hash_table_iter_has_more it \<noteq> 0
      then rbind (hash_table_iter_next_entry ht it) (\<lambda>r.
           rbind (iter_collect ht (snd r)) (\<lambda>es.
             case fst r of None \<Rightarrow> Inr es | Some e \<Rightarrow> Inr (e # es)))
      else Inr [])"
  by pat_completeness auto
termination
  by (relation "measures [\<lambda>(ht, it). iter_order ht it, \<lambda>(ht, it). length (next_entry it)]")
    (auto dest: iter_next_entry_forward)

declare iter_collect.simps [simp del]

lemma iter_collect_run: "ht_shape ht \<Longrightarrow> iter_collect ht it = Inr (iter_rest ht it)"
proof (induction "iter_rest ht it" arbitrary: it)
  case Nil
  then show ?case
    using iter_has_more_run [of it ht] by (subst iter_collect.simps) simp
next
  case (Cons e es)
  obtain it' where "hash_table_iter_next_entry ht it = Inr (Some e, it')" "iter_rest ht it' = es"
    using iter_next_entry_run [OF Cons.prems, of it] Cons.hyps(2) [symmetric] by blast
  with Cons show ?case
    using iter_has_more_run [of it ht] by (subst iter_collect.simps) auto
qed

end
