(* ===== verification/Compare_String.thy ===== *)
theory Compare_String
  imports Hash_String Hash_Table
begin

text \<open>
  compare-string.c: equality and ordering of C strings, with and without regard to case. The
  comparison that ignores case passes a plain \<open>char\<close> to \<open>tolower\<close>, so a byte above 127
  reaches it as a negative number; the model makes that a \<open>CtypeDomain\<close> fault.
\<close>

definition string_equal :: "string \<Rightarrow> string \<Rightarrow> int" where
  "string_equal string1 string2 = (if strcmp string1 string2 = 0 then 1 else 0)"

definition string_compare :: "string \<Rightarrow> string \<Rightarrow> int" where
  "string_compare string1 string2 =
     (let result = strcmp string1 string2
      in if result < 0 then - 1 else if 0 < result then 1 else 0)"

definition byte_at :: "string \<Rightarrow> char" where
  "byte_at p = (case p of [] \<Rightarrow> NUL | c # _ \<Rightarrow> c)"

function string_nocase_compare :: "string \<Rightarrow> string \<Rightarrow> fault + int" where
  "string_nocase_compare p1 p2 =
     rbind (tolower (schar (byte_at p1))) (\<lambda>c1.
     rbind (tolower (schar (byte_at p2))) (\<lambda>c2.
       if c1 \<noteq> c2 then (if c1 < c2 then Inr (- 1) else Inr 1)
       else if c1 = 0 then Inr 0
       else string_nocase_compare (tl p1) (tl p2)))"
  by pat_completeness auto
termination
proof (relation "measure (\<lambda>(p1, p2). length p1)", goal_cases)
  case (2 p1 p2 c1 c2)
  then show ?case
    by (cases p1) (auto simp: byte_at_def tolower_def schar_def)
qed simp

declare string_nocase_compare.simps [simp del]

definition string_nocase_equal :: "string \<Rightarrow> string \<Rightarrow> fault + int" where
  "string_nocase_equal string1 string2 =
     rbind (string_nocase_compare string1 string2) (\<lambda>r. Inr (if r = 0 then 1 else 0))"

section \<open>Equality and hashing\<close>

lemma string_equal_iff: "string_equal a b \<noteq> 0 \<longleftrightarrow> cstr a = cstr b"
  by (simp add: string_equal_def strcmp_eq_0_iff)

interpretation string_key: keyed_hash string_hash string_equal
proof
  fix k k' k'' :: string
  show "string_equal k k \<noteq> 0"
    by (simp add: string_equal_iff)
  show "string_equal k k' \<noteq> 0 \<Longrightarrow> string_equal k' k \<noteq> 0"
    by (simp add: string_equal_iff)
  show "string_equal k k' \<noteq> 0 \<Longrightarrow> string_equal k' k'' \<noteq> 0 \<Longrightarrow> string_equal k k'' \<noteq> 0"
    by (simp add: string_equal_iff)
  show "string_equal k k' \<noteq> 0 \<Longrightarrow> string_hash k = string_hash k'"
    using string_hash_loop_cstr [of 5381 k] string_hash_loop_cstr [of 5381 k']
    by (simp add: string_equal_iff string_hash_def)
qed

section \<open>Comparison without case\<close>

lemma byte_at_cstr: "byte_at (cstr p) = byte_at p"
  by (cases p) (auto simp: byte_at_def cstr_Cons)

lemma tolower_schar_ascii: "ascii c \<Longrightarrow> tolower (schar c) = Inr (uchar (lower_char c))"
  by (simp add: schar_ascii tolower_uchar)

lemma nocase_compare_step:
  assumes "ascii (byte_at p)" "ascii (byte_at q)"
  shows "string_nocase_compare p q =
    (if uchar (lower_char (byte_at p)) < uchar (lower_char (byte_at q)) then Inr (- 1)
     else if uchar (lower_char (byte_at q)) < uchar (lower_char (byte_at p)) then Inr 1
     else if byte_at p = NUL then Inr 0
     else string_nocase_compare (tl p) (tl q))"
  by (subst string_nocase_compare.simps) (auto simp: tolower_schar_ascii assms)

lemma ascii_NUL [simp]: "ascii NUL"
  by (simp add: ascii_def)


lemma nocase_compare_ascii:
  "\<forall>c \<in> set p. ascii c \<Longrightarrow> \<forall>c \<in> set q. ascii c \<Longrightarrow>
   string_nocase_compare p q = Inr (string_compare (map lower_char p) (map lower_char q))"
proof (induction p q rule: list_induct2')
  case 1
  show ?case
    using nocase_compare_step [of "[]" "[]"] by (simp add: byte_at_def string_compare_def)
next
  case (2 c s)
  then show ?case
    using nocase_compare_step [of "c # s" "[]"] uchar_pos [of "lower_char c"]
    by (auto simp: byte_at_def string_compare_def)
next
  case (3 d t)
  then show ?case
    using nocase_compare_step [of "[]" "d # t"] uchar_pos [of "lower_char d"]
    by (auto simp: byte_at_def string_compare_def)
next
  case (4 c s d t)
  then show ?case
    using nocase_compare_step [of "c # s" "d # t"]
    by (auto simp: byte_at_def string_compare_def)
qed

lemma cstr_map_lower: "cstr (map lower_char s) = map lower_char (cstr s)"
  by (induction s) (auto simp: cstr_Cons)

lemma string_compare_cases:
  "string_compare a b =
    (if cstr a < cstr b then - 1 else if cstr b < cstr a then 1 else 0)"
  by (simp add: string_compare_def Let_def strcmp_less_0_iff strcmp_greater_0_iff)

section \<open>Properties\<close>

text \<open>\<open>string_compare\<close> is the byte-wise lexicographic order of the two C strings: -1, 1
  or 0 as the first is smaller, larger or the same string.\<close>

theorem string_compare_lexicographic:
  "(string_compare a b = - 1 \<longleftrightarrow> cstr a < cstr b) \<and>
   (string_compare a b = 1 \<longleftrightarrow> cstr b < cstr a) \<and>
   (string_compare a b = 0 \<longleftrightarrow> string_equal a b \<noteq> 0)"
  by (auto simp: string_compare_cases string_equal_iff)

text \<open>On 7-bit strings the comparison without case is the comparison of the lower-cased
  strings, and strings it calls equal have equal case-insensitive hashes.\<close>

theorem string_nocase_consistent:
  assumes "\<forall>c \<in> set a. ascii c" "\<forall>c \<in> set b. ascii c"
  shows "string_nocase_compare a b = Inr (string_compare (map lower_char a) (map lower_char b)) \<and>
    (string_nocase_equal a b = Inr 1 \<longleftrightarrow> cstr (map lower_char a) = cstr (map lower_char b)) \<and>
    (string_nocase_equal a b = Inr 1 \<longrightarrow> string_nocase_hash a = string_nocase_hash b)"
proof (intro conjI impI)
  show *: "string_nocase_compare a b = Inr (string_compare (map lower_char a) (map lower_char b))"
    using assms by (rule nocase_compare_ascii)
  show **: "string_nocase_equal a b = Inr 1 \<longleftrightarrow>
      cstr (map lower_char a) = cstr (map lower_char b)"
    by (auto simp: string_nocase_equal_def * string_compare_cases)
  show "string_nocase_hash a = string_nocase_hash b" if "string_nocase_equal a b = Inr 1"
    using that ** string_key.equal_hash [of "map lower_char a" "map lower_char b"]
    by (simp add: string_equal_iff string_nocase_hash_def nocase_hash_loop_lower string_hash_def)
qed

theorem string_nocase_consistent_witness:
  "string_nocase_equal ''PWD'' ''pwd'' = Inr 1 \<and>
   string_nocase_hash ''PWD'' = string_nocase_hash ''pwd''"
proof -
  have "\<forall>c \<in> set ''PWD''. ascii c" "\<forall>c \<in> set ''pwd''. ascii c"
    by code_simp+
  note * = string_nocase_consistent [OF this]
  moreover have "cstr (map lower_char ''PWD'') = cstr (map lower_char ''pwd'')"
    by code_simp
  ultimately show ?thesis by simp
qed

lemma nocase_compare_skip:
  "\<forall>c \<in> set p. ascii c \<and> c \<noteq> NUL \<Longrightarrow> \<forall>c \<in> set q. ascii c \<Longrightarrow>
   map lower_char p = map lower_char q \<Longrightarrow>
   string_nocase_compare (p @ s) (q @ t) = string_nocase_compare s t"
proof (induction p q rule: list_induct2')
  case (4 c p d q)
  then show ?case
    using nocase_compare_step [of "c # p @ s" "d # q @ t"] by (auto simp: byte_at_def)
qed auto

text \<open>A byte from 128 to 254 reached by the comparison without case is passed to
  \<open>tolower\<close> as a negative \<open>char\<close>, outside the domain of the function, while the hash
  without case reads the same byte as an \<open>unsigned char\<close> and is defined.\<close>

theorem string_nocase_compare_high_byte:
  assumes "\<forall>c \<in> set p. ascii c \<and> c \<noteq> NUL" "\<forall>c \<in> set q. ascii c"
    and "map lower_char p = map lower_char q" "\<not> ascii c" "uchar c \<noteq> 255"
  shows "string_nocase_compare (p @ c # s) (q @ t) = Inl CtypeDomain \<and>
    string_nocase_hash (p @ c # s) \<noteq> Inl CtypeDomain"
proof -
  have "tolower (schar c) = Inl CtypeDomain"
    using assms(4,5) uchar_range [of c] by (auto simp: tolower_def schar_def ascii_def)
  then have "string_nocase_compare (c # s) t = Inl CtypeDomain"
    by (subst string_nocase_compare.simps) (simp add: byte_at_def)
  with assms(1-3) show ?thesis
    by (simp add: nocase_compare_skip string_nocase_hash_def nocase_hash_loop_lower)
qed

theorem string_nocase_compare_high_byte_witness:
  "string_nocase_compare (''ab'' @ [CHR 0xE9]) (''AB'' @ [CHR 0xE9]) = Inl CtypeDomain"
proof -
  have "\<forall>c \<in> set ''ab''. ascii c \<and> c \<noteq> NUL" "\<forall>c \<in> set ''AB''. ascii c"
    "map lower_char ''ab'' = map lower_char ''AB''" "\<not> ascii (CHR 0xE9)" "uchar (CHR 0xE9) \<noteq> 255"
    by code_simp+
  from string_nocase_compare_high_byte [OF this] show ?thesis by simp
qed

end
