(* ===== verification/Dictionary.thy ===== *)
theory Dictionary
  imports Compare_String
begin

text \<open>
  The contract of hash-table.h as its clients see it: what a lookup returns after an insertion
  or a removal. \<open>inv\<close> is the provider's invariant, \<open>roomy\<close> the states in which the table
  may still grow, \<open>same\<close> the equivalence of keys. The hash table with the string functions,
  which is the table alias.c creates, provides it.
\<close>

locale dictionary =
  fixes inv :: "'d \<Rightarrow> bool"
    and roomy :: "'d \<Rightarrow> bool"
    and same :: "'k \<Rightarrow> 'k \<Rightarrow> bool"
    and look :: "'d \<Rightarrow> 'k \<Rightarrow> fault + 'v option"
    and ins :: "'d \<Rightarrow> 'k \<Rightarrow> 'v \<Rightarrow> bool list \<Rightarrow> 's \<Rightarrow> fault + (int \<times> 'd \<times> bool list \<times> 's)"
    and rem :: "'d \<Rightarrow> 'k \<Rightarrow> 's \<Rightarrow> fault + (int \<times> 'd \<times> 's)"
  assumes same_sym: "same k j \<Longrightarrow> same j k"
    and same_trans: "same i j \<Longrightarrow> same j k \<Longrightarrow> same i k"
    and look_total: "inv d \<Longrightarrow> \<exists>r. look d k = Inr r"
    and look_same: "inv d \<Longrightarrow> same k j \<Longrightarrow> look d k = look d j"
    and ins_inv: "inv d \<Longrightarrow> roomy d \<Longrightarrow> ins d k v oom s = Inr (r, d', oom', s') \<Longrightarrow> inv d'"
    and look_ins: "inv d \<Longrightarrow> roomy d \<Longrightarrow> ins d k v oom s = Inr (r, d', oom', s') \<Longrightarrow>
      look d' j = (if r \<noteq> 0 \<and> same k j then Inr (Some v) else look d j)"
    and ins_result: "inv d \<Longrightarrow> roomy d \<Longrightarrow> ins d k v oom s = Inr (r, d', oom', s') \<Longrightarrow>
      r = 1 \<or> r = 0 \<and> False \<in> set oom"
    and rem_inv: "inv d \<Longrightarrow> rem d k s = Inr (r, d', s') \<Longrightarrow> inv d'"
    and look_rem: "inv d \<Longrightarrow> rem d k s = Inr (r, d', s') \<Longrightarrow>
      look d' j = (if same k j then Inr None else look d j)"
    and rem_result: "inv d \<Longrightarrow> rem d k s = Inr (r, d', s') \<Longrightarrow>
      r = (if look d k = Inr None then 0 else 1)"
begin

text \<open>Removing what was just inserted gives back a table where the key was absent.\<close>

lemma ins_rem:
  assumes "inv d" "roomy d" "ins d k v oom s = Inr (r, d', oom', s')"
    and "rem d' k s'' = Inr (r', d'', s3)" "look d k = Inr None"
  shows "look d'' j = look d j"
proof -
  have d': "inv d'" using assms(1-3) by (rule ins_inv)
  have "look d'' j = (if same k j then Inr None else look d' j)"
    using d' assms(4) by (rule look_rem)
  moreover have "look d j = Inr None" if "same k j"
    using look_same [OF assms(1) that] assms(5) by simp
  ultimately show ?thesis using look_ins [OF assms(1-3), of j] by simp
qed

text \<open>The later of two insertions of the same key wins, and different keys do not interfere.\<close>

lemma ins_ins:
  assumes "inv d" "roomy d" "ins d k v oom s = Inr (1, d1, oom1, s1)"
    and "roomy d1" "ins d1 k' v' oom1 s1 = Inr (1, d2, oom2, s2)"
  shows "look d2 j = (if same k' j then Inr (Some v') else if same k j then Inr (Some v) else look d j)"
proof -
  have d1: "inv d1" using assms(1-3) by (rule ins_inv)
  show ?thesis
    using look_ins [OF d1 assms(4,5), of j] look_ins [OF assms(1-3), of j] by simp
qed

text \<open>A key that was removed is not found, and removing it again reports so.\<close>

lemma rem_rem:
  assumes "inv d" "rem d k s = Inr (r, d', s')" "rem d' k s'' = Inr (r', d'', s3)" "same k k"
  shows "r' = 0 \<and> look d'' j = look d' j"
proof -
  have d': "inv d'" using assms(1,2) by (rule rem_inv)
  have gone: "look d' k = Inr None" using look_rem [OF assms(1,2), of k] assms(4) by simp
  have "look d'' j = (if same k j then Inr None else look d' j)"
    using d' assms(3) by (rule look_rem)
  moreover have "look d' j = Inr None" if "same k j"
    using look_same [OF d' that] gone by simp
  ultimately show ?thesis using rem_result [OF d' assms(3)] gone by simp
qed

end

section \<open>The table of strings provides it\<close>

definition string_table :: "(string, 'v, 's) hash_table \<Rightarrow> bool" where
  "string_table ht \<longleftrightarrow>
     ht_inv ht \<and> hash_func ht = string_hash \<and> equal_func ht = string_equal"

definition table_roomy :: "('k, 'v, 's) hash_table \<Rightarrow> bool" where
  "table_roomy ht \<longleftrightarrow> entries ht < 536870914"

lemma string_table_config: "string_table ht \<Longrightarrow> ht_inv ht' \<Longrightarrow> same_config ht ht' \<Longrightarrow> string_table ht'"
  by (simp add: string_table_def same_config_def)

lemma string_table_lookup: "string_table ht \<Longrightarrow> hash_table_lookup ht k = Inr (ht_map ht k)"
  by (auto simp: string_table_def intro: string_key.lookup_correct)

lemma string_table_same:
  "string_table ht \<Longrightarrow> cstr k = cstr j \<Longrightarrow> ht_map ht k = ht_map ht j"
  by (simp add: string_table_def ht_map_def ht_find_def string_equal_iff)

lemma string_table_distinct:
  assumes "string_table ht"
  shows "distinct (map (\<lambda>e. cstr (fst e)) (ht_entries ht))"
proof -
  have "distinct (map (\<lambda>e. key_class string_equal (fst e)) (ht_entries ht))"
    using assms by (auto simp: string_table_def ht_inv_def ht_unique_def)
  moreover have "key_class string_equal k = {k'. cstr k = cstr k'}" for k
    by (simp add: key_class_def string_equal_iff)
  ultimately have "distinct (map (\<lambda>s. {k'. s = cstr k'}) (map (\<lambda>e. cstr (fst e)) (ht_entries ht)))"
    by (simp add: comp_def)
  then show ?thesis by (rule distinct_map [THEN iffD1, THEN conjunct1])
qed

lemma string_table_find:
  assumes "string_table ht"
  shows "ht_find ht k = Some e \<longleftrightarrow> e \<in> set (ht_entries ht) \<and> cstr (fst e) = cstr k"
proof -
  have "distinct (map (\<lambda>e. key_class string_equal (fst e)) (ht_entries ht))"
    using assms by (auto simp: string_table_def ht_inv_def ht_unique_def)
  from string_key.chain_lookup_unique [OF this, of k e] assms show ?thesis
    by (auto simp: ht_find_def string_table_def string_equal_iff)
qed

lemma string_table_insert:
  assumes "string_table ht" "table_roomy ht" "hash_table_insert ht k v oom s = Inr (r, ht', oom', s')"
  shows "string_table ht'" "r = 1 \<or> r = 0 \<and> False \<in> set oom"
    "ht_map ht' = (\<lambda>j. if r \<noteq> 0 \<and> cstr k = cstr j then Some v else ht_map ht j)"
proof -
  have fns: "ht_inv ht" "hash_func ht = string_hash" "equal_func ht = string_equal"
    using assms(1) by (auto simp: string_table_def)
  have small: "entries ht < 536870914" using assms(2) by (simp add: table_roomy_def)
  from string_key.insert_run [OF fns small, of k v oom s] assms(3)
  have "r = 0 \<and> False \<in> set oom \<and> insert_undone ht ht' \<or> r = 1 \<and> insert_done ht k v ht'"
    by (auto simp: rbind_eq_Inr_iff Inr_eq_rbind_iff)
  then show "string_table ht'" "r = 1 \<or> r = 0 \<and> False \<in> set oom"
    "ht_map ht' = (\<lambda>j. if r \<noteq> 0 \<and> cstr k = cstr j then Some v else ht_map ht j)"
    using string_table_config [OF assms(1)]
    by (auto simp: insert_done_def insert_undone_def fns string_equal_iff fun_eq_iff)
qed

lemma string_table_remove:
  assumes "string_table ht" "hash_table_remove ht k s = Inr (r, ht', s')"
  shows "string_table ht'" "r = (if ht_map ht k = None then 0 else 1)"
    "ht_map ht' = (\<lambda>j. if cstr k = cstr j then None else ht_map ht j)"
proof -
  have fns: "ht_inv ht" "hash_func ht = string_hash" "equal_func ht = string_equal"
    using assms(1) by (auto simp: string_table_def)
  note run = string_key.remove_run [OF fns, of k s]
  have "string_table ht' \<and> r = (if ht_map ht k = None then 0 else 1) \<and>
    ht_map ht' = (\<lambda>j. if cstr k = cstr j then None else ht_map ht j)"
  proof (cases "ht_find ht k")
    case None
    with run assms have "ht' = ht" "r = 0" by auto
    moreover have "ht_map ht k = None" using None by (simp add: ht_map_def)
    moreover have "ht_map ht j = None" if "cstr k = cstr j" for j
      using string_table_same [OF assms(1) that] \<open>ht_map ht k = None\<close> by simp
    ultimately show ?thesis using assms(1) by auto
  next
    case (Some e)
    with run assms(2) have "r = 1" "ht_inv ht'" "same_config ht ht'"
      "ht_map ht' = (\<lambda>j. if string_equal k j \<noteq> 0 then None else ht_map ht j)"
      by (auto simp: rbind_eq_Inr_iff Inr_eq_rbind_iff)
    moreover have "ht_map ht k \<noteq> None" using Some by (simp add: ht_map_def)
    ultimately show ?thesis using string_table_config [OF assms(1)] by (simp add: string_equal_iff)
  qed
  then show "string_table ht'" "r = (if ht_map ht k = None then 0 else 1)"
    "ht_map ht' = (\<lambda>j. if cstr k = cstr j then None else ht_map ht j)" by auto
qed

interpretation string_dict: dictionary string_table table_roomy "\<lambda>k j. cstr k = cstr j"
  hash_table_lookup hash_table_insert hash_table_remove
proof
  fix i j k :: string
  show "cstr k = cstr j \<Longrightarrow> cstr j = cstr k" by simp
  show "cstr i = cstr j \<Longrightarrow> cstr j = cstr k \<Longrightarrow> cstr i = cstr k" by simp
next
  fix d :: "(string, 'v, 's) hash_table" and k j :: string
  assume d: "string_table d"
  then show "\<exists>r. hash_table_lookup d k = Inr r" by (simp add: string_table_lookup)
  show "hash_table_lookup d k = hash_table_lookup d j" if "cstr k = cstr j"
    using string_table_same [OF d that] d by (simp add: string_table_lookup)
next
  fix d d' :: "(string, 'v, 's) hash_table" and k j v oom oom' s s' r
  assume d: "string_table d" and ins: "table_roomy d" "hash_table_insert d k v oom s = Inr (r, d', oom', s')"
  note facts = string_table_insert [OF d ins]
  show "string_table d'" "r = 1 \<or> r = 0 \<and> False \<in> set oom" by (rule facts)+
  then show "hash_table_lookup d' j = (if r \<noteq> 0 \<and> cstr k = cstr j then Inr (Some v) else hash_table_lookup d j)"
    using d facts(3) by (simp add: string_table_lookup)
next
  fix d d' :: "(string, 'v, 's) hash_table" and k j s s' r
  assume d: "string_table d" and rem: "hash_table_remove d k s = Inr (r, d', s')"
  note facts = string_table_remove [OF d rem]
  show "string_table d'" by (rule facts)
  then show "hash_table_lookup d' j = (if cstr k = cstr j then Inr None else hash_table_lookup d j)"
    "r = (if hash_table_lookup d k = Inr None then 0 else 1)"
    using d facts(2,3) by (simp_all add: string_table_lookup)
qed


section \<open>Properties of the table of strings\<close>

text \<open>The table right after \<open>hash_table_new\<close>, without free functions, and its first use.\<close>

definition fresh_table :: "(string, nat, unit) hash_table" where
  "fresh_table =
     \<lparr>table = replicate 193 [], table_size = 193, hash_func = string_hash,
      equal_func = string_equal, key_free_func = None, value_free_func = None,
      entries = 0, prime_index = 0\<rparr>"

lemma fresh_table_new: "hash_table_new string_hash string_equal [] = Inr (Some fresh_table, [])"
  by (simp add: new_run fresh_table_def)

lemma fresh_table_ok: "string_table fresh_table" "table_roomy fresh_table"
  using new_inv(1) [OF fresh_table_new, of None None]
  by (auto simp: string_table_def table_roomy_def hash_table_register_free_functions_def fresh_table_def)

definition used_table :: "(string, nat, unit) hash_table" where
  "used_table =
     (case hash_table_insert fresh_table ''ls'' 7 [] () of
        Inr (_, ht, _) \<Rightarrow> ht | Inl _ \<Rightarrow> fresh_table)"

lemma used_table_insert: "hash_table_insert fresh_table ''ls'' 7 [] () = Inr (1, used_table, [], ())"
proof -
  obtain r ht oom s where i: "hash_table_insert fresh_table ''ls'' 7 [] () = Inr (r, ht, oom, s)"
    "r = 1" "oom = []"
  proof -
    have "case hash_table_insert fresh_table ''ls'' 7 [] () of
        Inr (r, ht, oom, s) \<Rightarrow> r = 1 \<and> oom = [] | Inl _ \<Rightarrow> False"
      by code_simp
    with that show thesis by (auto split: sum.splits)
  qed
  then show ?thesis by (simp add: used_table_def)
qed

lemma used_table_ok: "string_table used_table" "table_roomy used_table"
  using string_table_insert(1) [OF fresh_table_ok used_table_insert]
  by simp code_simp

text \<open>C15. After an insertion that reports success the key is found with the new value and every
  other key is found as before; after one that reports failure nothing has changed.\<close>

theorem hash_table_insert_lookup:
  assumes "string_table ht" "table_roomy ht"
    and "hash_table_insert ht k v oom s = Inr (r, ht', oom', s')"
  shows "hash_table_lookup ht' j =
    (if r \<noteq> 0 \<and> cstr k = cstr j then Inr (Some v) else hash_table_lookup ht j)"
  using assms by (rule string_dict.look_ins)

theorem hash_table_insert_lookup_witness:
  "hash_table_lookup used_table ''ls'' = Inr (Some 7) \<and>
   hash_table_lookup used_table ''cd'' = hash_table_lookup fresh_table ''cd''"
  using hash_table_insert_lookup [OF fresh_table_ok used_table_insert, of "''ls''"]
    hash_table_insert_lookup [OF fresh_table_ok used_table_insert, of "''cd''"]
  by (simp add: cstr_def NUL_def)

text \<open>C24. An insertion never faults: it either stores the entry, having freed the value and
  then the key of an entry with the same key exactly once, or reports 0 because an allocation
  failed, leaving the entries and the caller's heap as they were. The invariant holds after both.\<close>

theorem hash_table_insert_outcome:
  assumes "string_table ht" "table_roomy ht" "insert_frees ht k s = Inr s1"
  shows "(\<exists>ht' oom'. hash_table_insert ht k v oom s = Inr (1, ht', oom', s1) \<and>
      string_table ht' \<and>
      mset (ht_entries ht') = add_mset (k, v) (mset (ht_entries ht) - found_mset ht k)) \<or>
    (\<exists>ht' oom'. hash_table_insert ht k v oom s = Inr (0, ht', oom', s) \<and> False \<in> set oom \<and>
      string_table ht' \<and> mset (ht_entries ht') = mset (ht_entries ht))"
proof -
  have fns: "ht_inv ht" "hash_func ht = string_hash" "equal_func ht = string_equal"
    "entries ht < 536870914"
    using assms(1,2) by (auto simp: string_table_def table_roomy_def)
  from string_key.insert_run [OF fns, of k v oom s] assms(3) show ?thesis
    using string_table_config [OF assms(1)] by (auto simp: insert_done_def insert_undone_def)
qed

theorem hash_table_insert_outcome_witness:
  "\<exists>ht' oom'. hash_table_insert used_table ''ls'' 8 [] () = Inr (1, ht', oom', ()) \<and>
     mset (ht_entries ht') = add_mset (''ls'', 8) (mset (ht_entries used_table) - found_mset used_table ''ls'')"
proof -
  have "insert_frees used_table ''ls'' () = Inr ()" by code_simp
  from hash_table_insert_outcome [OF used_table_ok this, of 8 "[]"] show ?thesis by auto
qed

text \<open>A removal reports whether the key was there, frees the key and the value of the entry
  it unlinks exactly once, keeps the invariant, and afterwards the key is not found while every
  other key is found as before.\<close>

theorem hash_table_remove_outcome:
  assumes "string_table ht"
  shows "case ht_find ht k of
      None \<Rightarrow> hash_table_remove ht k s = Inr (0, ht, s)
    | Some e \<Rightarrow> (\<exists>ht'. hash_table_remove ht k s =
          rbind (hash_table_free_entry ht e s) (\<lambda>s'. Inr (1, ht', s')) \<and>
        string_table ht' \<and> mset (ht_entries ht') = mset (ht_entries ht) - {#e#} \<and>
        hash_table_num_entries ht' = hash_table_num_entries ht - 1 \<and>
        (\<forall>j. hash_table_lookup ht' j =
          (if cstr k = cstr j then Inr None else hash_table_lookup ht j)))"
proof -
  have fns: "ht_inv ht" "hash_func ht = string_hash" "equal_func ht = string_equal"
    using assms by (auto simp: string_table_def)
  have len: "hash_table_num_entries h = int (size (mset (ht_entries h)))" if "ht_inv h"
    for h :: "(string, 'v, 's) hash_table"
    using that by (simp add: hash_table_num_entries_def ht_inv_def ht_sized_def)
  note run = string_key.remove_run [OF fns, of k s]
  show ?thesis
  proof (cases "ht_find ht k")
    case None
    with run show ?thesis by simp
  next
    case (Some e)
    with run obtain ht' where r: "hash_table_remove ht k s =
        rbind (hash_table_free_entry ht e s) (\<lambda>s'. Inr (1, ht', s'))"
      "ht_inv ht'" "same_config ht ht'"
      "ht_map ht' = (\<lambda>j. if string_equal k j \<noteq> 0 then None else ht_map ht j)"
      "mset (ht_entries ht') = mset (ht_entries ht) - {#e#}"
      by blast
    have "e \<in># mset (ht_entries ht)"
      using Some chain_lookup_SomeD by (fastforce simp: ht_find_def)
    then have "hash_table_num_entries ht' = hash_table_num_entries ht - 1"
      using len [OF r(2)] len [OF fns(1)] r(5) 
      by (cases "ht_entries ht") (simp_all add: size_Diff_singleton)
    moreover have st: "string_table ht'"
      using assms r(2,3) by (rule string_table_config)
    moreover have "hash_table_lookup ht' j =
        (if cstr k = cstr j then Inr None else hash_table_lookup ht j)" for j
      using st assms r(4) by (simp add: string_table_lookup string_equal_iff)
    ultimately show ?thesis using Some r(1,5) by auto
  qed
qed

theorem hash_table_remove_outcome_witness:
  "\<exists>ht'. hash_table_remove used_table ''ls'' () = Inr (1, ht', ()) \<and>
     hash_table_lookup ht' ''ls'' = Inr None"
proof -
  have "ht_find used_table ''ls'' = Some (''ls'', 7)"
    "hash_table_free_entry used_table (''ls'', 7) () = Inr ()"
    by code_simp+
  with hash_table_remove_outcome [OF used_table_ok(1), of "''ls''" "()"] show ?thesis by auto
qed


text \<open>Inserting a new key and removing it again leaves every lookup as it was.\<close>

theorem hash_table_insert_remove:
  assumes "string_table ht" "table_roomy ht"
    and "hash_table_insert ht k v oom s = Inr (r, ht', oom', s')"
    and "hash_table_remove ht' k s'' = Inr (r', ht'', s3)"
    and "hash_table_lookup ht k = Inr None"
  shows "hash_table_lookup ht'' j = hash_table_lookup ht j"
  using assms by (rule string_dict.ins_rem)

theorem hash_table_insert_remove_witness:
  "\<exists>ht''. hash_table_remove used_table ''ls'' () = Inr (1, ht'', ()) \<and>
     hash_table_lookup ht'' ''pwd'' = hash_table_lookup fresh_table ''pwd''"
proof -
  have absent: "hash_table_lookup fresh_table ''ls'' = Inr None" by code_simp
  have "case hash_table_remove used_table ''ls'' () of Inr (r, _) \<Rightarrow> r = 1 | Inl _ \<Rightarrow> False"
    by code_simp
  then obtain ht'' where "hash_table_remove used_table ''ls'' () = Inr (1, ht'', ())"
    by (auto split: sum.splits)
  with hash_table_insert_remove [OF fresh_table_ok used_table_insert this absent, of "''pwd''"]
  show ?thesis by blast
qed

text \<open>C38. Growing the table relinks every entry: the entries are the same multiset, every lookup
  gives the same result, the invariant holds for the larger prime size and the load is back under
  a third; a failed allocation leaves the table exactly as it was.\<close>

theorem hash_table_enlarge_keeps:
  assumes "string_table ht" "Suc (prime_index ht) < hash_table_num_primes"
  shows "(\<not> fst (alloc_ok oom) \<longrightarrow> hash_table_enlarge ht oom = Inr (0, ht, snd (alloc_ok oom))) \<and>
    (fst (alloc_ok oom) \<longrightarrow> (\<exists>ht'. hash_table_enlarge ht oom = Inr (1, ht', snd (alloc_ok oom)) \<and>
      string_table ht' \<and> mset (ht_entries ht') = mset (ht_entries ht) \<and>
      table_size ht' = hash_table_primes ! Suc (prime_index ht) \<and>
      hash_table_num_entries ht' * 3 < table_size ht' \<and>
      (\<forall>j. hash_table_lookup ht' j = hash_table_lookup ht j)))"
proof -
  have fns: "ht_inv ht" "equal_func ht = string_equal"
    using assms(1) by (auto simp: string_table_def)
  note run = enlarge_run [OF fns(1) assms(2), of oom]
  show ?thesis
  proof (cases "fst (alloc_ok oom)")
    case False
    with run show ?thesis by simp
  next
    case True
    with run obtain ht' where r: "hash_table_enlarge ht oom = Inr (1, ht', snd (alloc_ok oom))"
      "ht_inv ht'" "same_config ht ht'" "mset (ht_entries ht') = mset (ht_entries ht)"
      "entries ht' = entries ht" "prime_index ht' = Suc (prime_index ht)"
      by blast
    have sizes: "table_size ht' = hash_table_primes ! Suc (prime_index ht)"
      "table_size ht + 3 \<le> table_size ht'" "entries ht * 3 \<le> table_size ht + 2"
      using r(2,6) fns(1) assms(2) primes_step by (auto simp: ht_inv_def ht_sized_def)
    have st: "string_table ht'" using assms(1) r(2,3) by (rule string_table_config)
    have "ht_unique ht" using fns(1) by (simp add: ht_inv_def)
    from string_key.same_entries(2) [OF fns(2) this r(3,4)]
    have "hash_table_lookup ht' j = hash_table_lookup ht j" for j
      using st assms(1) by (simp add: string_table_lookup)
    with True r(1,4,5) st sizes show ?thesis by (simp add: hash_table_num_entries_def)
  qed
qed

theorem hash_table_enlarge_keeps_witness:
  "\<exists>ht'. hash_table_enlarge used_table [] = Inr (1, ht', []) \<and> table_size ht' = 389 \<and>
     hash_table_lookup ht' ''ls'' = hash_table_lookup used_table ''ls''"
proof -
  have "Suc (prime_index used_table) < hash_table_num_primes"
    "hash_table_primes ! Suc (prime_index used_table) = 389"
    by code_simp+
  with hash_table_enlarge_keeps [OF used_table_ok(1) this(1), of "[]"] show ?thesis by auto
qed

text \<open>C39. Iterating from \<open>hash_table_iterate\<close> until \<open>hash_table_iter_has_more\<close> is zero ends,
  visits every entry exactly once (as many as \<open>hash_table_num_entries\<close>, no key twice), and the
  visited entries are exactly what lookups find.\<close>

theorem hash_table_iterate_all:
  assumes "string_table ht"
  shows "\<exists>it es. hash_table_iterate ht it0 = Inr it \<and> iter_collect ht it = Inr es \<and>
    int (length es) = hash_table_num_entries ht \<and> distinct (map (\<lambda>e. cstr (fst e)) es) \<and>
    (\<forall>k v. hash_table_lookup ht k = Inr (Some v) \<longleftrightarrow> (\<exists>e \<in> set es. cstr (fst e) = cstr k \<and> snd e = v))"
proof -
  have fns: "ht_inv ht" "equal_func ht = string_equal"
    using assms by (auto simp: string_table_def)
  from iterate_run [OF ht_inv_shape [OF fns(1)], of it0] obtain it where
    it: "hash_table_iterate ht it0 = Inr it" "iter_rest ht it = ht_entries ht" by blast
  have all: "iter_collect ht it = Inr (ht_entries ht)"
    using iter_collect_run [OF ht_inv_shape [OF fns(1)], of it] it(2) by simp
  have "distinct (map (\<lambda>e. cstr (fst e)) (ht_entries ht))"
    using assms by (rule string_table_distinct)
  moreover have "hash_table_lookup ht k = Inr (Some v) \<longleftrightarrow>
      (\<exists>e \<in> set (ht_entries ht). cstr (fst e) = cstr k \<and> snd e = v)" for k v
  proof -
    have find: "ht_find ht k = Some e \<longleftrightarrow> e \<in> set (ht_entries ht) \<and> cstr (fst e) = cstr k" for e
      using assms by (rule string_table_find)
    have "hash_table_lookup ht k = Inr (Some v) \<longleftrightarrow> (\<exists>e. ht_find ht k = Some e \<and> snd e = v)"
      by (simp add: string_table_lookup [OF assms] ht_map_def)
    then show ?thesis by (simp only: find) blast
  qed
  moreover have "int (length (ht_entries ht)) = hash_table_num_entries ht"
    using fns(1) by (simp add: ht_inv_def ht_sized_def hash_table_num_entries_def)
  ultimately show ?thesis using it(1) all by blast
qed

theorem hash_table_iterate_all_witness:
  "\<exists>it es. hash_table_iterate used_table \<lparr>next_entry = [], next_chain = 0\<rparr> = Inr it \<and>
     iter_collect used_table it = Inr es \<and> int (length es) = hash_table_num_entries used_table"
  using hash_table_iterate_all [OF used_table_ok(1), of "\<lparr>next_entry = [], next_chain = 0\<rparr>"] by blast

end
