(* ===== verification/Alias.thy ===== *)
theory Alias
  imports Dictionary
begin

text \<open>
  alias.c: the alias table. Its state is the static pointer \<open>table\<close> (NULL before
  \<open>initializeAliases\<close> and after \<open>destroyAliases\<close>), the \<open>alias_t\<close> objects on the heap,
  the live heap strings and the outcomes of the allocations to come. The values of the hash
  table are pointers to \<open>alias_t\<close>; \<open>free\<close> and \<open>aliasFree\<close> are its free functions.

  The invariant \<open>alias_ok\<close> says that the table points to distinct live aliases with a value
  and accounts for every heap string the table owns; the lemmas show that each operation keeps
  it, what it does to the map of names to values, and that no string or alias is leaked or
  freed twice.
\<close>

section \<open>Data and operations\<close>

record alias_t =
  alias_value :: "string option"
  in_use :: int

type_synonym alias_heap = "alias_t cells \<times> strheap"

type_synonym alias_table = "(string, ptr, alias_heap) hash_table"

record alias_state =
  al_table :: "alias_table option"
  al_cells :: "alias_t cells"
  al_strings :: strheap
  al_oom :: "bool list"

definition aliasNew :: "bool list \<Rightarrow> alias_t cells \<Rightarrow> ptr \<times> bool list \<times> alias_t cells" where
  "aliasNew oom h =
     (let (ok, oom') = alloc_ok oom in
      if \<not> ok then (None, oom', h)
      else let (a, h') = new_cell \<lparr>alias_value = None, in_use = 0\<rparr> h in (Some a, oom', h'))"

definition aliasFree :: "ptr \<Rightarrow> alias_heap \<Rightarrow> fault + alias_heap" where
  "aliasFree data hs =
     (if data = None then Inl AssertFailed
      else
        rbind (load (fst hs) data) (\<lambda>alias.
        rbind (str_free_opt (alias_value alias) (snd hs)) (\<lambda>strings.
        rbind (release (fst hs) data) (\<lambda>h. Inr (h, strings)))))"

definition key_free :: "string \<Rightarrow> alias_heap \<Rightarrow> fault + alias_heap" where
  "key_free key hs = rbind (str_free key (snd hs)) (\<lambda>strings. Inr (fst hs, strings))"

definition the_table :: "alias_state \<Rightarrow> fault + alias_table" where
  "the_table st = (case al_table st of None \<Rightarrow> Inl NullPointer | Some ht \<Rightarrow> Inr ht)"

text \<open>\<open>add_alias_value\<close> is \<open>addAlias\<close> for a value that may be NULL.\<close>

definition add_alias_value ::
    "string \<Rightarrow> string option \<Rightarrow> alias_state \<Rightarrow> fault + alias_state" where
  "add_alias_value key val st =
     (let (alias, oom1, h1) = aliasNew (al_oom st) (al_cells st) in
      rbind (load h1 alias) (\<lambda>a.
      rbind (store h1 alias (a\<lparr>alias_value := val\<rparr>)) (\<lambda>h2.
      rbind (the_table st) (\<lambda>ht.
      rbind (hash_table_insert ht key alias oom1 (h2, al_strings st))
        (\<lambda>(r, ht', oom2, h3, strings).
        Inr \<lparr>al_table = Some ht', al_cells = h3, al_strings = strings, al_oom = oom2\<rparr>)))))"

definition addAlias :: "string \<Rightarrow> string \<Rightarrow> alias_state \<Rightarrow> fault + alias_state" where
  "addAlias key val = add_alias_value key (Some val)"

definition removeAlias :: "string \<Rightarrow> alias_state \<Rightarrow> fault + alias_state" where
  "removeAlias key st =
     rbind (the_table st) (\<lambda>ht.
     rbind (hash_table_remove ht key (al_cells st, al_strings st)) (\<lambda>(r, ht', h, strings).
       Inr (st\<lparr>al_table := Some ht', al_cells := h, al_strings := strings\<rparr>)))"

definition getAlias :: "string \<Rightarrow> alias_state \<Rightarrow> fault + (string option \<times> alias_state)" where
  "getAlias key st =
     rbind (the_table st) (\<lambda>ht.
     rbind (hash_table_lookup ht key) (\<lambda>r.
       case Option.bind r id of
         None \<Rightarrow> Inr (None, st)
       | Some a \<Rightarrow>
           rbind (load (al_cells st) (Some a)) (\<lambda>alias.
             if in_use alias = 0
             then rbind (store (al_cells st) (Some a) (alias\<lparr>in_use := 1\<rparr>)) (\<lambda>h.
                  Inr (alias_value alias, st\<lparr>al_cells := h\<rparr>))
             else Inr (None, st))))"

definition stack_iterator :: "('k, 'v) ht_iterator" where
  "stack_iterator = \<lparr>next_entry = [], next_chain = 0\<rparr>"

function release_loop ::
    "alias_table \<Rightarrow> (string, ptr) ht_iterator \<Rightarrow> alias_t cells \<Rightarrow> fault + alias_t cells" where
  "release_loop ht it h =
     (if hash_table_iter_has_more it \<noteq> 0
      then rbind (hash_table_iter_next ht it) (\<lambda>r.
             case Option.bind (fst r) id of
               None \<Rightarrow> Inl AssertFailed
             | Some a \<Rightarrow>
                 rbind (load h (Some a)) (\<lambda>alias.
                 rbind (store h (Some a) (alias\<lparr>in_use := 0\<rparr>)) (\<lambda>h'.
                   release_loop ht (snd r) h')))
      else Inr h)"
  by pat_completeness auto
termination
  by (relation "measures [\<lambda>(ht, it, h). iter_order ht it, \<lambda>(ht, it, h). length (next_entry it)]")
    (auto dest: iter_next_forward)

declare release_loop.simps [simp del]

definition releaseAliases :: "alias_state \<Rightarrow> fault + alias_state" where
  "releaseAliases st =
     rbind (the_table st) (\<lambda>ht.
     rbind (hash_table_iterate ht stack_iterator) (\<lambda>it.
     rbind (release_loop ht it (al_cells st)) (\<lambda>h.
       Inr (st\<lparr>al_cells := h\<rparr>))))"

function print_loop ::
    "alias_table \<Rightarrow> (string, ptr) ht_iterator \<Rightarrow> alias_t cells \<Rightarrow> fault + string" where
  "print_loop ht it h =
     (if hash_table_iter_has_more it \<noteq> 0
      then rbind (hash_table_iter_next_entry ht it) (\<lambda>r.
             case fst r of
               None \<Rightarrow> Inl NullPointer
             | Some entry \<Rightarrow>
                 rbind (load h (snd entry)) (\<lambda>alias.
                 rbind (case alias_value alias of None \<Rightarrow> Inl NullPointer | Some v \<Rightarrow> Inr v) (\<lambda>v.
                 rbind (print_loop ht (snd r) h) (\<lambda>out.
                   Inr (cstr (fst entry) @ ''='' @ [CHR 0x27] @ cstr v @ [CHR 0x27, CHR 0x0A] @ out)))))
      else Inr [])"
  by pat_completeness auto
termination
  by (relation "measures [\<lambda>(ht, it, h). iter_order ht it, \<lambda>(ht, it, h). length (next_entry it)]")
    (auto dest: iter_next_entry_forward)

declare print_loop.simps [simp del]

definition printAliases :: "alias_state \<Rightarrow> fault + string" where
  "printAliases st =
     rbind (the_table st) (\<lambda>ht.
     rbind (hash_table_iterate ht stack_iterator) (\<lambda>it.
       print_loop ht it (al_cells st)))"

definition initializeAliases :: "alias_state \<Rightarrow> fault + alias_state" where
  "initializeAliases st =
     rbind (hash_table_new string_hash string_equal (al_oom st)) (\<lambda>(table, oom').
       case table of
         None \<Rightarrow> Inl NullPointer
       | Some ht \<Rightarrow>
           Inr (st\<lparr>al_table :=
                     Some (hash_table_register_free_functions ht (Some key_free) (Some aliasFree)),
                   al_oom := oom'\<rparr>))"

definition destroyAliases :: "alias_state \<Rightarrow> fault + alias_state" where
  "destroyAliases st =
     rbind (the_table st) (\<lambda>ht.
     rbind (hash_table_free ht (al_cells st, al_strings st)) (\<lambda>(h, strings).
       Inr (st\<lparr>al_table := None, al_cells := h, al_strings := strings\<rparr>)))"

section \<open>Invariant, ownership and abstraction\<close>

definition alias_config :: "alias_table \<Rightarrow> bool" where
  "alias_config ht \<longleftrightarrow>
     string_table ht \<and> key_free_func ht = Some key_free \<and> value_free_func ht = Some aliasFree"

definition entry_ok :: "alias_t cells \<Rightarrow> string \<times> ptr \<Rightarrow> bool" where
  "entry_ok h e \<longleftrightarrow>
     (case snd e of None \<Rightarrow> False | Some a \<Rightarrow> live_at h a \<and> alias_value (object_at h a) \<noteq> None)"

definition entry_value :: "alias_t cells \<Rightarrow> ptr \<Rightarrow> string" where
  "entry_value h p = the (alias_value (object_at h (the p)))"

definition owned :: "alias_t cells \<Rightarrow> (string \<times> ptr) multiset \<Rightarrow> strheap" where
  "owned h es = image_mset fst es + image_mset (\<lambda>e. entry_value h (snd e)) es"

text \<open>The table points to live aliases that have a value, each from one entry only.\<close>

definition heap_ok :: "alias_t cells \<Rightarrow> (string \<times> ptr) multiset \<Rightarrow> bool" where
  "heap_ok h es \<longleftrightarrow> (\<forall>e \<in># es. entry_ok h e) \<and> (\<forall>p. count (image_mset snd es) p \<le> 1)"

text \<open>\<open>others\<close> are the live strings the table does not own.\<close>

definition alias_ok :: "alias_state \<Rightarrow> strheap \<Rightarrow> bool" where
  "alias_ok st others \<longleftrightarrow>
     (case al_table st of
        None \<Rightarrow> False
      | Some ht \<Rightarrow>
          alias_config ht \<and>
          heap_ok (al_cells st) (mset (ht_entries ht)) \<and>
          al_strings st = owned (al_cells st) (mset (ht_entries ht)) + others)"

definition alias_lookup :: "alias_state \<Rightarrow> string \<Rightarrow> alias_t option" where
  "alias_lookup st k =
     (case al_table st of
        None \<Rightarrow> None
      | Some ht \<Rightarrow> map_option (\<lambda>p. object_at (al_cells st) (the p)) (ht_map ht k))"

definition alias_count :: "alias_state \<Rightarrow> nat" where
  "alias_count st = (case al_table st of None \<Rightarrow> 0 | Some ht \<Rightarrow> length (ht_entries ht))"

definition alias_roomy :: "alias_state \<Rightarrow> bool" where
  "alias_roomy st \<longleftrightarrow> (case al_table st of None \<Rightarrow> False | Some ht \<Rightarrow> table_roomy ht)"


lemma size_Diff_le: "size (A - B) \<le> size (A :: 'a multiset)"
  by (rule size_mset_mono) (rule diff_subset_eq_self)

section \<open>Ownership of cells and strings\<close>

lemma entry_okE:
  assumes "entry_ok h e"
  obtains k a v where "e = (k, Some a)" "live_at h a" "alias_value (object_at h a) = Some v"
    "entry_value h (Some a) = v"
  using assms by (cases e) (auto simp: entry_ok_def entry_value_def split: option.splits)

lemma heap_ok_entry: "heap_ok h es \<Longrightarrow> e \<in># es \<Longrightarrow> entry_ok h e"
  by (simp add: heap_ok_def)

lemma heap_ok_inj:
  assumes "heap_ok h es" "e \<in># es" "e' \<in># es" "snd e = snd e'"
  shows "e = e'"
proof (rule ccontr)
  assume "e \<noteq> e'"
  obtain es1 where es1: "es = add_mset e es1" using assms(2) by (rule mset_add)
  with assms(3) \<open>e \<noteq> e'\<close> have "e' \<in># es1" by simp
  then obtain es2 where "es1 = add_mset e' es2" by (rule mset_add)
  then have "2 \<le> count (image_mset snd es) (snd e)"
    using assms(4) es1 by simp
  then show False using assms(1) unfolding heap_ok_def by (metis Suc_1 not_less_eq_eq)
qed

lemma heap_ok_empty [simp]: "heap_ok h {#}"
  by (simp add: heap_ok_def)

lemma owned_simps [simp]:
  "owned h {#} = {#}"
  "owned h (add_mset e es) = add_mset (fst e) (add_mset (entry_value h (snd e)) (owned h es))"
  by (simp_all add: owned_def)

lemma owned_cong: "(\<And>e. e \<in># es \<Longrightarrow> entry_value h' (snd e) = entry_value h (snd e)) \<Longrightarrow>
    owned h' es = owned h es"
  by (auto simp: owned_def intro: image_mset_cong)

lemma heap_ok_append:
  assumes "heap_ok h es"
  shows "heap_ok (h @ [Some x]) es" "owned (h @ [Some x]) es = owned h es"
proof -
  have e: "entry_ok (h @ [Some x]) e \<and> entry_value (h @ [Some x]) (snd e) = entry_value h (snd e)"
    if "e \<in># es" for e
    using heap_ok_entry [OF assms that]
    by (elim entry_okE) (auto simp: entry_ok_def entry_value_def)
  then show "heap_ok (h @ [Some x]) es" using assms by (auto simp: heap_ok_def)
  show "owned (h @ [Some x]) es = owned h es" using e by (auto intro: owned_cong)
qed

lemma heap_ok_add:
  assumes "heap_ok h es" "live_at h a" "alias_value (object_at h a) \<noteq> None"
    and "Some a \<notin> snd ` set_mset es"
  shows "heap_ok h (add_mset (k, Some a) es)"
proof -
  have "count (image_mset snd es) (Some a) = 0"
    using assms(4) by (metis not_in_iff set_image_mset)
  with assms show ?thesis by (auto simp: heap_ok_def entry_ok_def)
qed

lemma heap_ok_fresh: "heap_ok h es \<Longrightarrow> Some (length h) \<notin> snd ` set_mset es"
proof
  assume ok: "heap_ok h es" and "Some (length h) \<in> snd ` set_mset es"
  then obtain e where "e \<in># es" "snd e = Some (length h)" by auto
  with heap_ok_entry [OF ok, of e] show False by (auto elim!: entry_okE simp: live_at_def)
qed

lemma heap_ok_release:
  assumes "heap_ok h (add_mset e es)"
  shows "heap_ok (h[the (snd e) := None]) es" "owned (h[the (snd e) := None]) es = owned h es"
proof -
  obtain a where a: "snd e = Some a"
    using heap_ok_entry [OF assms, of e] by (auto elim!: entry_okE)
  have "count (image_mset snd es) (Some a) = 0"
    using assms a unfolding heap_ok_def by (auto dest!: spec [of _ "Some a"])
  then have ne: "snd e' \<noteq> Some a" if "e' \<in># es" for e'
    using that by (metis count_eq_zero_iff image_eqI set_image_mset)
  have e: "entry_ok (h[a := None]) e' \<and> entry_value (h[a := None]) (snd e') = entry_value h (snd e')"
    if "e' \<in># es" for e'
  proof -
    have "entry_ok h e'" using heap_ok_entry [OF assms, of e'] that by simp
    then show ?thesis using ne [OF that]
      by (elim entry_okE) (auto simp: entry_ok_def entry_value_def live_at_less)
  qed
  have "count (image_mset snd es) p \<le> 1" for p
  proof -
    have "count (image_mset snd (add_mset e es)) p \<le> 1" using assms by (simp only: heap_ok_def)
    then show ?thesis by (simp split: if_splits)
  qed
  then show "heap_ok (h[the (snd e) := None]) es"
    using e a by (auto simp: heap_ok_def)
  show "owned (h[the (snd e) := None]) es = owned h es"
    using e a by (auto intro: owned_cong)
qed

lemma heap_ok_old:
  assumes "heap_ok h (mset xs)" "mset xs = add_mset e es" "e' \<in># es"
  shows "object_at (h[the (snd e) := None]) (the (snd e')) = object_at h (the (snd e'))"
proof -
  have ok: "heap_ok h (add_mset e es)" using assms(1,2) by simp
  obtain a b where ab: "snd e = Some a" "snd e' = Some b"
    using heap_ok_entry [OF ok, of e] heap_ok_entry [OF ok, of e'] assms(3)
    by (auto elim!: entry_okE)
  have "count (image_mset snd (add_mset e es)) (snd e) \<le> 1"
    using ok by (simp only: heap_ok_def)
  then have "count (image_mset snd es) (snd e) = 0" by simp
  then have "snd e' \<noteq> snd e" using assms(3) by (metis count_eq_zero_iff image_eqI set_image_mset)
  with ab show ?thesis by simp
qed

lemma run_free_Some [simp]: "run_free (Some f) = f"
  by (simp add: run_free_def fun_eq_iff)

text \<open>Freeing an entry in either order gives back its key, its value and its cell.\<close>

lemma free_entry_parts:
  assumes "entry_ok h e"
  shows "rbind (aliasFree (snd e) (h, owned h {#e#} + S)) (key_free (fst e)) =
      Inr (h[the (snd e) := None], S)"
    and "rbind (key_free (fst e) (h, owned h {#e#} + S)) (aliasFree (snd e)) =
      Inr (h[the (snd e) := None], S)"
proof -
  from assms obtain k a v where e: "e = (k, Some a)" "live_at h a"
    "alias_value (object_at h a) = Some v" "entry_value h (Some a) = v"
    by (rule entry_okE)
  show "rbind (aliasFree (snd e) (h, owned h {#e#} + S)) (key_free (fst e)) =
      Inr (h[the (snd e) := None], S)"
    "rbind (key_free (fst e) (h, owned h {#e#} + S)) (aliasFree (snd e)) =
      Inr (h[the (snd e) := None], S)"
    using e by (simp_all add: aliasFree_def key_free_def load_live release_live str_free_opt_def
        str_free_def add_mset_commute)
qed

lemma free_entry_run:
  assumes "alias_config ht" "entry_ok h e"
  shows "hash_table_free_entry ht e (h, owned h {#e#} + S) = Inr (h[the (snd e) := None], S)"
  using free_entry_parts(2) [OF assms(2), of S] assms(1)
  by (cases e) (simp add: hash_table_free_entry_def alias_config_def)

lemma insert_frees_run:
  assumes "alias_config ht" "ht_find ht k = Some e" "entry_ok h e"
  shows "insert_frees ht k (h, owned h {#e#} + S) = Inr (h[the (snd e) := None], S)"
  using free_entry_parts(1) [OF assms(3), of S] assms(1,2)
  by (simp add: insert_frees_def alias_config_def)

text \<open>A table of aliases keeps its configuration.\<close>

lemma alias_config_same: "alias_config ht \<Longrightarrow> ht_inv ht' \<Longrightarrow> same_config ht ht' \<Longrightarrow> alias_config ht'"
  using string_table_config [of ht ht'] by (simp add: alias_config_def same_config_def)

lemma alias_config_parts:
  "alias_config ht \<Longrightarrow> ht_inv ht \<and> hash_func ht = string_hash \<and> equal_func ht = string_equal"
  by (simp add: alias_config_def string_table_def)

lemma ht_find_mem: "ht_find ht k = Some e \<Longrightarrow> e \<in># mset (ht_entries ht)"
  using chain_lookup_SomeD by (fastforce simp: ht_find_def)

lemma ht_map_find: "ht_map ht k = Some p \<longleftrightarrow> (\<exists>e. ht_find ht k = Some e \<and> snd e = p)"
  by (auto simp: ht_map_def)

lemma ht_find_same:
  "alias_config ht \<Longrightarrow> ht_find ht k = Some e \<Longrightarrow> cstr (fst e) = cstr k"
  using chain_lookup_SomeD [of "\<lambda>k'. equal_func ht k k' \<noteq> 0" "ht_entries ht" e]
  by (simp add: ht_find_def alias_config_parts string_equal_iff)

lemma alias_okE:
  assumes "alias_ok st others"
  obtains ht where "al_table st = Some ht" "alias_config ht"
    "heap_ok (al_cells st) (mset (ht_entries ht))"
    "al_strings st = owned (al_cells st) (mset (ht_entries ht)) + others"
  using assms by (auto simp: alias_ok_def split: option.splits)


lemma alias_roomyI: "alias_ok st others \<Longrightarrow> alias_count st < 536870914 \<Longrightarrow> alias_roomy st"
  by (elim alias_okE) (simp add: alias_roomy_def table_roomy_def alias_count_def alias_config_def
      string_table_def ht_inv_def ht_sized_def)

section \<open>Adding\<close>

lemma alias_lookup_find:
  "al_table st = Some ht \<Longrightarrow>
   alias_lookup st k = map_option (\<lambda>e. object_at (al_cells st) (the (snd e))) (ht_find ht k)"
  by (simp add: alias_lookup_def ht_map_def option.map_comp comp_def)

lemma alias_lookup_same:
  assumes "alias_ok st others" "cstr k = cstr j"
  shows "alias_lookup st k = alias_lookup st j"
proof -
  obtain ht where "al_table st = Some ht" "string_table ht"
    using assms(1) by (elim alias_okE) (auto simp: alias_config_def)
  with string_table_same [of ht k j] assms(2) show ?thesis by (simp add: alias_lookup_def)
qed

lemma the_table_Some [simp]: "al_table st = Some ht \<Longrightarrow> the_table st = Inr ht"
  by (simp add: the_table_def)

lemma addAlias_start:
  assumes "al_table st = Some ht"
  shows "addAlias key val st =
    (if fst (alloc_ok (al_oom st))
     then rbind (hash_table_insert ht key (Some (length (al_cells st))) (snd (alloc_ok (al_oom st)))
                  (al_cells st @ [Some \<lparr>alias_value = Some val, in_use = 0\<rparr>], al_strings st))
            (\<lambda>(r, ht', oom, h, strings).
              Inr \<lparr>al_table = Some ht', al_cells = h, al_strings = strings, al_oom = oom\<rparr>)
     else Inl NullPointer)"
  using assms
  by (cases "alloc_ok (al_oom st)")
    (simp add: addAlias_def add_alias_value_def aliasNew_def new_cell_def load_live store_live)

text \<open>What an insertion does to the cells and strings, given the free functions of the table.\<close>

lemma insert_frees_ok:
  assumes "alias_config ht" "heap_ok h (mset (ht_entries ht))"
  shows "\<exists>h'. insert_frees ht k (h, owned h (mset (ht_entries ht)) + S) =
      Inr (h', owned h' (mset (ht_entries ht) - found_mset ht k) + S) \<and>
    heap_ok h' (mset (ht_entries ht) - found_mset ht k) \<and> length h' = length h \<and>
    (\<forall>e \<in># mset (ht_entries ht) - found_mset ht k. object_at h' (the (snd e)) = object_at h (the (snd e))) \<and>
    (\<forall>a. live_at h a \<longrightarrow> Some a \<notin> snd ` set (ht_entries ht) \<longrightarrow>
       live_at h' a \<and> object_at h' a = object_at h a)"
proof (cases "ht_find ht k")
  case None
  then show ?thesis using assms by (simp add: insert_frees_def found_mset_def)
next
  case (Some e)
  obtain es where es: "mset (ht_entries ht) = add_mset e es"
    using ht_find_mem [OF Some] by (rule mset_add)
  have ok: "entry_ok h e" using heap_ok_entry [OF assms(2)] es by simp
  then obtain a where a: "snd e = Some a" by (auto elim: entry_okE)
  let ?h = "h[the (snd e) := None]"
  have rel: "heap_ok ?h es" "owned ?h es = owned h es"
    using heap_ok_release [of h e es] assms(2) es by simp_all
  have eq: "owned h (mset (ht_entries ht)) + S = owned h {#e#} + (owned h es + S)"
    using es by simp
  have "insert_frees ht k (h, owned h (mset (ht_entries ht)) + S) = Inr (?h, owned ?h es + S)"
    unfolding eq rel(2) by (rule insert_frees_run [OF assms(1) Some ok])
  moreover have "object_at ?h (the (snd e')) = object_at h (the (snd e'))" if "e' \<in># es" for e'
    using assms(2) es that by (rule heap_ok_old)
  moreover have "live_at ?h b \<and> object_at ?h b = object_at h b"
    if "live_at h b" "Some b \<notin> snd ` set (ht_entries ht)" for b
  proof -
    have "e \<in> set (ht_entries ht)" using ht_find_mem [OF Some] by simp
    with that(2) a have "b \<noteq> a" by (metis image_eqI)
    with that(1) a show ?thesis by simp
  qed
  ultimately show ?thesis using Some es rel(1) by (auto simp: found_mset_def)
qed

lemma alias_lookup_other:
  assumes "alias_config ht" "alias_config ht'" "cstr key \<noteq> cstr j"
    and "ht_map ht' j = ht_map ht j"
    and "\<And>e. e \<in># mset (ht_entries ht) - found_mset ht key \<Longrightarrow>
      object_at h' (the (snd e)) = object_at h (the (snd e))"
  shows "map_option (\<lambda>p. object_at h' (the p)) (ht_map ht' j) =
    map_option (\<lambda>p. object_at h (the p)) (ht_map ht j)"
proof (cases "ht_find ht j")
  case None
  then show ?thesis using assms(4) by (simp add: ht_map_def)
next
  case (Some e)
  have "e \<in># mset (ht_entries ht) - found_mset ht key"
  proof (cases "ht_find ht key")
    case None
    then show ?thesis using ht_find_mem [OF Some] by (simp add: found_mset_def)
  next
    case (Some d)
    have "e \<noteq> d"
      using ht_find_same [OF assms(1) Some] ht_find_same [OF assms(1) \<open>ht_find ht j = Some e\<close>]
        assms(3) by auto
    with Some ht_find_mem [OF \<open>ht_find ht j = Some e\<close>] show ?thesis
      by (simp add: found_mset_def in_diff_count)
  qed
  note keep = assms(5) [OF this]
  have "ht_map ht j = Some (snd e)" using Some by (simp add: ht_map_def)
  then show ?thesis using assms(4) keep by simp
qed


lemma addAlias_run:
  assumes ok: "alias_ok st ({#key, val#} + others)" and room: "alias_roomy st"
    and al: "fst (alloc_ok (al_oom st))"
  shows "(\<exists>st'. addAlias key val st = Inr st' \<and> alias_ok st' others \<and>
      alias_count st' \<le> Suc (alias_count st) \<and>
      alias_lookup st' = (\<lambda>j. if cstr key = cstr j then Some \<lparr>alias_value = Some val, in_use = 0\<rparr>
                             else alias_lookup st j)) \<or>
    (\<exists>st'. addAlias key val st = Inr st' \<and> False \<in> set (al_oom st) \<and>
      alias_ok st' ({#key, val#} + others) \<and> alias_count st' = alias_count st \<and>
      alias_lookup st' = alias_lookup st)"
proof -
  obtain ht where ht: "al_table st = Some ht" "alias_config ht"
    "heap_ok (al_cells st) (mset (ht_entries ht))"
    "al_strings st = owned (al_cells st) (mset (ht_entries ht)) + ({#key, val#} + others)"
    using ok by (rule alias_okE)
  let ?x = "\<lparr>alias_value = Some val, in_use = 0\<rparr>"
  let ?h = "al_cells st @ [Some ?x]"
  let ?p = "Some (length (al_cells st))"
  let ?S = "{#key, val#} + others"
  note cfg = alias_config_parts [OF ht(2)]
  have small: "entries ht < 536870914" using room ht(1) by (simp add: alias_roomy_def table_roomy_def)
  have h: "heap_ok ?h (mset (ht_entries ht))"
    "al_strings st = owned ?h (mset (ht_entries ht)) + ?S"
    using heap_ok_append [OF ht(3)] ht(4) by simp_all
  note start = addAlias_start [OF ht(1), of key val, simplified al if_True]
  have sub: "set (snd (alloc_ok (al_oom st))) \<subseteq> set (al_oom st)" by (rule alloc_ok_subset)
  from string_key.insert_run [OF _ _ _ small, of key ?p "snd (alloc_ok (al_oom st))" "(?h, al_strings st)"] cfg
  consider (undone) ht' oom' where
      "hash_table_insert ht key ?p (snd (alloc_ok (al_oom st))) (?h, al_strings st) =
        Inr (0, ht', oom', ?h, al_strings st)"
      "False \<in> set (al_oom st)" "insert_undone ht ht'"
    | (stored) ht' oom' where
      "hash_table_insert ht key ?p (snd (alloc_ok (al_oom st))) (?h, al_strings st) =
        rbind (insert_frees ht key (?h, al_strings st)) (\<lambda>s'. Inr (1, ht', oom', s'))"
      "insert_done ht key ?p ht'"
    using sub by blast
  then show ?thesis
  proof cases
    case undone
    let ?st = "\<lparr>al_table = Some ht', al_cells = ?h, al_strings = al_strings st, al_oom = oom'\<rparr>"
    have "alias_config ht'" "mset (ht_entries ht') = mset (ht_entries ht)" "ht_map ht' = ht_map ht"
      using undone(3) alias_config_same [OF ht(2)] by (auto simp: insert_undone_def)
    moreover have "alias_lookup ?st j = alias_lookup st j" for j
    proof (cases "ht_find ht j")
      case (Some e)
      have "entry_ok (al_cells st) e" using ht(3) ht_find_mem [OF Some] by (rule heap_ok_entry)
      then show ?thesis
        using calculation(3) Some ht(1) by (elim entry_okE) (simp add: alias_lookup_def ht_map_def)
    qed (use calculation(3) ht(1) in \<open>simp add: alias_lookup_def ht_map_def\<close>)
    ultimately have "alias_ok ?st ?S" "alias_lookup ?st = alias_lookup st"
      using h by (auto simp: alias_ok_def)
    moreover have "alias_count ?st = alias_count st"
      using ht(1) mset_eq_length [OF \<open>mset (ht_entries ht') = mset (ht_entries ht)\<close>]
      by (simp add: alias_count_def)
    moreover have "addAlias key val st = Inr ?st" using start undone(1) by simp
    ultimately show ?thesis using undone(2) by blast
  next
    case stored
    obtain h' where h': "insert_frees ht key (?h, owned ?h (mset (ht_entries ht)) + ?S) =
        Inr (h', owned h' (mset (ht_entries ht) - found_mset ht key) + ?S)"
      "heap_ok h' (mset (ht_entries ht) - found_mset ht key)" "length h' = length ?h"
      "\<And>e. e \<in># mset (ht_entries ht) - found_mset ht key \<Longrightarrow>
        object_at h' (the (snd e)) = object_at ?h (the (snd e))"
      "\<And>a. live_at ?h a \<Longrightarrow> Some a \<notin> snd ` set (ht_entries ht) \<Longrightarrow>
        live_at h' a \<and> object_at h' a = object_at ?h a"
      using insert_frees_ok [OF ht(2) h(1), of key ?S] by blast
    let ?es = "mset (ht_entries ht) - found_mset ht key"
    have fresh: "?p \<notin> snd ` set (ht_entries ht)"
      using heap_ok_fresh [OF ht(3)] by simp
    have new: "live_at h' (length (al_cells st))" "object_at h' (length (al_cells st)) = ?x"
      using h'(5) [of "length (al_cells st)"] fresh by simp_all
    have "set_mset ?es \<subseteq> set (ht_entries ht)"
      by (auto dest: in_diffD)
    then have "snd ` set_mset ?es \<subseteq> snd ` set (ht_entries ht)"
      by (rule image_mono)
    then have es: "heap_ok h' (add_mset (key, ?p) ?es)"
      using h'(2) new fresh by (intro heap_ok_add) auto
    have ht': "alias_config ht'" "mset (ht_entries ht') = add_mset (key, ?p) ?es"
      "ht_map ht' = (\<lambda>j. if cstr key = cstr j then Some ?p else ht_map ht j)"
      using stored(2) alias_config_same [OF ht(2)] cfg
      by (auto simp: insert_done_def string_equal_iff)
    let ?st = "\<lparr>al_table = Some ht', al_cells = h', al_strings = owned h' ?es + ?S, al_oom = oom'\<rparr>"
    have run: "addAlias key val st = Inr ?st"
      unfolding start stored(1) unfolding h(2) h'(1) by simp
    have "owned h' (add_mset (key, ?p) ?es) + others = owned h' ?es + ?S"
      using new by (simp add: entry_value_def)
    then have ok': "alias_ok ?st others"
      using ht' es by (simp add: alias_ok_def)
    have "alias_lookup ?st j = (if cstr key = cstr j then Some ?x else alias_lookup st j)" for j
    proof (cases "cstr key = cstr j")
      case True
      then show ?thesis using new ht'(3) by (simp add: alias_lookup_def)
    next
      case False
      have old: "object_at h' (the (snd e)) = object_at (al_cells st) (the (snd e))" if "e \<in># ?es" for e
      proof -
        have "entry_ok (al_cells st) e" using ht(3) that by (auto intro: heap_ok_entry dest: in_diffD)
        then show ?thesis using h'(4) [OF that] by (elim entry_okE) simp
      qed
      show ?thesis
        using alias_lookup_other [OF ht(2) ht'(1) False _ old] ht'(3) False ht(1)
        by (simp add: alias_lookup_def)
    qed
    then have "alias_lookup ?st = (\<lambda>j. if cstr key = cstr j then Some ?x else alias_lookup st j)"
      by (rule ext)
    moreover have "size (mset (ht_entries ht')) \<le> Suc (size (mset (ht_entries ht)))"
      using size_Diff_le [of "mset (ht_entries ht)" "found_mset ht key"] by (simp add: ht'(2))
    then have "alias_count ?st \<le> Suc (alias_count st)"
      using ht(1) by (simp add: alias_count_def)
    ultimately show ?thesis using run ok' by blast
  qed
qed


section \<open>Removing\<close>

lemma removeAlias_run:
  assumes ok: "alias_ok st others"
  shows "\<exists>st'. removeAlias key st = Inr st' \<and> alias_ok st' others \<and> al_oom st' = al_oom st \<and>
    alias_count st' \<le> alias_count st \<and>
    alias_lookup st' = (\<lambda>j. if cstr key = cstr j then None else alias_lookup st j)"
proof -
  obtain ht where ht: "al_table st = Some ht" "alias_config ht"
    "heap_ok (al_cells st) (mset (ht_entries ht))"
    "al_strings st = owned (al_cells st) (mset (ht_entries ht)) + others"
    using ok by (rule alias_okE)
  note cfg = alias_config_parts [OF ht(2)]
  let ?s = "(al_cells st, al_strings st)"
  note run = string_key.remove_run [of ht key ?s]
  show ?thesis
  proof (cases "ht_find ht key")
    case None
    with run cfg ht(1) have "removeAlias key st = Inr st"
      by (simp add: removeAlias_def)
    moreover have "alias_lookup st j = None" if "cstr key = cstr j" for j
      using None string_table_same [of ht key j] that ht(1,2)
      by (simp add: alias_lookup_def ht_map_def alias_config_def)
    ultimately show ?thesis using ok by (auto simp: fun_eq_iff)
  next
    case (Some e)
    with run cfg obtain ht' where ht': "hash_table_remove ht key ?s =
        rbind (hash_table_free_entry ht e ?s) (\<lambda>s'. Inr (1, ht', s'))"
      "ht_inv ht'" "same_config ht ht'"
      "ht_map ht' = (\<lambda>j. if string_equal key j \<noteq> 0 then None else ht_map ht j)"
      "mset (ht_entries ht') = mset (ht_entries ht) - {#e#}"
      by blast
    obtain es where es: "mset (ht_entries ht) = add_mset e es"
      using ht_find_mem [OF Some] by (rule mset_add)
    let ?h = "(al_cells st)[the (snd e) := None]"
    have eok: "entry_ok (al_cells st) e" using heap_ok_entry [OF ht(3)] es by simp
    have rel: "heap_ok ?h es" "owned ?h es = owned (al_cells st) es"
      using heap_ok_release [of _ e es] ht(3) es by simp_all
    have strs: "al_strings st = owned (al_cells st) {#e#} + (owned ?h es + others)"
      using ht(4) es rel(2) by simp
    let ?st = "st\<lparr>al_table := Some ht', al_cells := ?h, al_strings := owned ?h es + others\<rparr>"
    have "removeAlias key st = Inr ?st"
      unfolding removeAlias_def the_table_Some [OF ht(1)] rbind_Inr ht'(1)
      unfolding strs free_entry_run [OF ht(2) eok] by simp
    moreover have cfg': "alias_config ht'" using ht(2) ht'(2,3) by (rule alias_config_same)
    moreover have "alias_ok ?st others"
      using rel cfg' ht'(5) es by (simp add: alias_ok_def)
    moreover have "size (mset (ht_entries ht')) \<le> size (mset (ht_entries ht))"
      unfolding ht'(5) by (rule size_Diff_le)
    then have "alias_count ?st \<le> alias_count st" using ht(1) by (simp add: alias_count_def)
    moreover have "alias_lookup ?st j = (if cstr key = cstr j then None else alias_lookup st j)" for j
    proof (cases "cstr key = cstr j")
      case True
      then show ?thesis using ht'(4) by (simp add: alias_lookup_def string_equal_iff)
    next
      case False
      have old: "object_at ?h (the (snd e')) = object_at (al_cells st) (the (snd e'))"
        if "e' \<in># mset (ht_entries ht) - found_mset ht key" for e'
        using heap_ok_old [OF ht(3) es] that Some es by (simp add: found_mset_def)
      show ?thesis
        using alias_lookup_other [OF ht(2) cfg' False _ old] ht'(4) False ht(1)
        by (simp add: alias_lookup_def string_equal_iff)
    qed
    ultimately show ?thesis by (intro exI [of _ ?st]) (auto simp: fun_eq_iff)
  qed
qed

section \<open>Marking aliases\<close>

definition mark :: "int \<Rightarrow> nat \<Rightarrow> alias_t cells \<Rightarrow> alias_t cells" where
  "mark n a h = h[a := Some ((object_at h a)\<lparr>in_use := n\<rparr>)]"

lemma mark_cells:
  assumes "live_at h a"
  shows "live_at (mark n a h) b \<longleftrightarrow> live_at h b"
    "live_at h b \<Longrightarrow> object_at (mark n a h) b = (if a = b then (object_at h b)\<lparr>in_use := n\<rparr> else object_at h b)"
  using assms by (auto simp: mark_def live_at_less)

lemma store_mark: "live_at h a \<Longrightarrow> store h (Some a) ((object_at h a)\<lparr>in_use := n\<rparr>) = Inr (mark n a h)"
  by (simp add: mark_def store_live)

lemma mark_entry:
  assumes "live_at h a" "entry_ok h e"
  shows "entry_ok (mark n a h) e" "entry_value (mark n a h) (snd e) = entry_value h (snd e)"
  using assms by (auto simp: entry_ok_def entry_value_def mark_cells split: option.splits)

lemma mark_ok:
  assumes "live_at h a" "heap_ok h es"
  shows "heap_ok (mark n a h) es" "owned (mark n a h) es = owned h es"
  using assms mark_entry [OF assms(1) heap_ok_entry [OF assms(2)]]
  by (auto simp: heap_ok_def intro: owned_cong)

text \<open>The cell of the alias that a key names.\<close>

lemma alias_lookup_cell:
  assumes "alias_ok st others" "alias_lookup st key = Some a"
  obtains ht e p where "al_table st = Some ht" "ht_find ht key = Some e" "snd e = Some p"
    "live_at (al_cells st) p" "object_at (al_cells st) p = a" "alias_value a \<noteq> None"
proof -
  obtain ht where ht: "al_table st = Some ht" "alias_config ht"
    "heap_ok (al_cells st) (mset (ht_entries ht))"
    using assms(1) by (rule alias_okE)
  then obtain e where e: "ht_find ht key = Some e"
    "a = object_at (al_cells st) (the (snd e))"
    using assms(2) by (auto simp: alias_lookup_find)
  have "entry_ok (al_cells st) e" using ht(3) ht_find_mem [OF e(1)] by (rule heap_ok_entry)
  then obtain p where "snd e = Some p" "live_at (al_cells st) p"
    "alias_value (object_at (al_cells st) p) \<noteq> None"
    by (auto elim: entry_okE)
  with ht(1) e that show thesis by simp
qed

lemma mark_lookup:
  assumes ok: "alias_ok st others" and ht: "al_table st = Some ht"
    and e: "ht_find ht key = Some e" "snd e = Some p"
  shows "alias_ok (st\<lparr>al_cells := mark n p (al_cells st)\<rparr>) others"
    "alias_lookup (st\<lparr>al_cells := mark n p (al_cells st)\<rparr>) =
      (\<lambda>j. if cstr key = cstr j then map_option (in_use_update (\<lambda>_. n)) (alias_lookup st j)
           else alias_lookup st j)"
proof -
  have inv: "alias_config ht" "heap_ok (al_cells st) (mset (ht_entries ht))"
    "al_strings st = owned (al_cells st) (mset (ht_entries ht)) + others"
    using ok ht by (auto simp: alias_ok_def)
  have live: "live_at (al_cells st) p"
    using heap_ok_entry [OF inv(2) ht_find_mem [OF e(1)]] e(2) by (auto elim: entry_okE)
  show "alias_ok (st\<lparr>al_cells := mark n p (al_cells st)\<rparr>) others"
    using inv ht mark_ok [OF live inv(2)] by (simp add: alias_ok_def)
  have "alias_lookup (st\<lparr>al_cells := mark n p (al_cells st)\<rparr>) j =
      (if cstr key = cstr j then map_option (in_use_update (\<lambda>_. n)) (alias_lookup st j)
       else alias_lookup st j)" for j
  proof (cases "ht_find ht j")
    case None
    then show ?thesis using ht by (simp add: alias_lookup_find)
  next
    case (Some d)
    note mem = ht_find_mem [OF e(1)] ht_find_mem [OF Some]
    have same: "snd d = snd e \<longleftrightarrow> cstr key = cstr j"
    proof
      assume "snd d = snd e"
      then have "d = e" using heap_ok_inj [OF inv(2) mem(2,1)] by simp
      then show "cstr key = cstr j"
        using ht_find_same [OF inv(1) e(1)] ht_find_same [OF inv(1) Some] by simp
    next
      assume "cstr key = cstr j"
      then have "ht_find ht key = ht_find ht j"
        using alias_config_parts [OF inv(1)] by (simp add: ht_find_def string_equal_iff)
      then show "snd d = snd e" using e(1) Some by simp
    qed
    have "entry_ok (al_cells st) d" using inv(2) mem(2) by (rule heap_ok_entry)
    then obtain q where "snd d = Some q" "live_at (al_cells st) q" by (auto elim: entry_okE)
    then show ?thesis using Some ht e(2) same mark_cells(2) [OF live, of q n]
      by (auto simp: alias_lookup_find)
  qed
  then show "alias_lookup (st\<lparr>al_cells := mark n p (al_cells st)\<rparr>) =
      (\<lambda>j. if cstr key = cstr j then map_option (in_use_update (\<lambda>_. n)) (alias_lookup st j)
           else alias_lookup st j)"
    by (rule ext)
qed


lemma getAlias_run:
  assumes ok: "alias_ok st others"
  shows "case alias_lookup st key of
      None \<Rightarrow> getAlias key st = Inr (None, st)
    | Some a \<Rightarrow>
        if in_use a \<noteq> 0 then getAlias key st = Inr (None, st)
        else \<exists>st'. getAlias key st = Inr (alias_value a, st') \<and> alias_ok st' others \<and>
          al_table st' = al_table st \<and> al_strings st' = al_strings st \<and> al_oom st' = al_oom st \<and>
          alias_lookup st' = (\<lambda>j. if cstr key = cstr j then Some (a\<lparr>in_use := 1\<rparr>) else alias_lookup st j)"
proof (cases "alias_lookup st key")
  case None
  obtain ht where ht: "al_table st = Some ht" "alias_config ht" using ok by (rule alias_okE)
  with None have "getAlias key st = Inr (None, st)"
    by (simp add: getAlias_def alias_lookup_def string_table_lookup alias_config_def)
  with None show ?thesis by simp
next
  case (Some a)
  from alias_lookup_cell [OF ok Some] obtain ht e p where c: "al_table st = Some ht"
    "ht_find ht key = Some e" "snd e = Some p" "live_at (al_cells st) p"
    "object_at (al_cells st) p = a" "alias_value a \<noteq> None" .
  have cfg: "alias_config ht" using ok c(1) by (simp add: alias_ok_def)
  let ?st = "st\<lparr>al_cells := mark 1 p (al_cells st)\<rparr>"
  have "ht_map ht key = Some (Some p)" using c(2,3) by (simp add: ht_map_def)
  then have run: "getAlias key st = Inr (if in_use a = 0 then (alias_value a, ?st) else (None, st))"
    using c cfg by (simp add: getAlias_def string_table_lookup alias_config_def load_live store_live
        mark_def)
  have same: "alias_lookup st j = Some a" if "cstr key = cstr j" for j
    using Some string_table_same [of ht key j] that cfg c(1)
    by (simp add: alias_lookup_def alias_config_def)
  note m = mark_lookup [OF ok c(1,2,3), of 1]
  have look: "alias_lookup ?st = (\<lambda>j. if cstr key = cstr j then Some (a\<lparr>in_use := 1\<rparr>) else alias_lookup st j)"
    unfolding m(2) using same by auto
  show ?thesis using Some run m(1) look by auto
qed

section \<open>The loops over all aliases\<close>

lemma release_loop_run:
  assumes "ht_shape ht" "iter_rest ht it = es" "\<forall>e \<in> set es. entry_ok h e"
  shows "release_loop ht it h = Inr (fold (\<lambda>e. mark 0 (the (snd e))) es h)"
  using assms(2,3)
proof (induction es arbitrary: it h)
  case Nil
  then have "\<not> hash_table_iter_has_more it \<noteq> 0" by (simp add: iter_has_more_run [of it ht])
  then show ?case by (subst release_loop.simps) simp
next
  case (Cons e es)
  have more: "hash_table_iter_has_more it \<noteq> 0" using Cons.prems(1) by (simp add: iter_has_more_run [of it ht])
  obtain it' where it': "hash_table_iter_next ht it = Inr (Some (snd e), it')" "iter_rest ht it' = es"
    using iter_next_run [OF assms(1) Cons.prems(1)] by blast
  obtain a where a: "snd e = Some a" "live_at h a"
    using Cons.prems(2) by (auto elim!: entry_okE)
  have "\<forall>e \<in> set es. entry_ok (mark 0 a h) e"
    using Cons.prems(2) mark_entry(1) [OF a(2)] by simp
  note IH = Cons.IH [OF it'(2) this]
  show ?case
    using more it'(1) a IH
    by (subst release_loop.simps) (simp add: load_live store_mark)
qed

lemma marks_ok:
  assumes "heap_ok h es" "\<forall>e \<in> set xs. e \<in># es"
  shows "heap_ok (fold (\<lambda>e. mark n (the (snd e))) xs h) es \<and>
    owned (fold (\<lambda>e. mark n (the (snd e))) xs h) es = owned h es \<and>
    (\<forall>a. live_at h a \<longrightarrow> object_at (fold (\<lambda>e. mark n (the (snd e))) xs h) a =
      (if Some a \<in> snd ` set xs then (object_at h a)\<lparr>in_use := n\<rparr> else object_at h a))"
  using assms
proof (induction xs arbitrary: h)
  case (Cons e xs)
  obtain a where a: "snd e = Some a" "live_at h a"
    using heap_ok_entry [OF Cons.prems(1), of e] Cons.prems(2) by (auto elim: entry_okE)
  note m = mark_ok [OF a(2) Cons.prems(1), of n]
  have "\<forall>e \<in> set xs. e \<in># es" using Cons.prems(2) by simp
  note IH = Cons.IH [OF m(1) this]
  show ?case using IH a m(2) mark_cells [OF a(2)] by auto
qed simp

lemma releaseAliases_run:
  assumes ok: "alias_ok st others"
  shows "\<exists>h'. releaseAliases st = Inr (st\<lparr>al_cells := h'\<rparr>) \<and> alias_ok (st\<lparr>al_cells := h'\<rparr>) others \<and>
    alias_lookup (st\<lparr>al_cells := h'\<rparr>) = (\<lambda>j. map_option (in_use_update (\<lambda>_. 0)) (alias_lookup st j))"
proof -
  obtain ht where ht: "al_table st = Some ht" "alias_config ht"
    "heap_ok (al_cells st) (mset (ht_entries ht))"
    "al_strings st = owned (al_cells st) (mset (ht_entries ht)) + others"
    using ok by (rule alias_okE)
  have sh: "ht_shape ht" using alias_config_parts [OF ht(2)] by (auto intro: ht_inv_shape)
  obtain it where it: "hash_table_iterate ht stack_iterator = Inr it" "iter_rest ht it = ht_entries ht"
    using iterate_run [OF sh] by blast
  let ?h = "fold (\<lambda>e. mark 0 (the (snd e))) (ht_entries ht) (al_cells st)"
  have all: "\<forall>e \<in> set (ht_entries ht). entry_ok (al_cells st) e"
    using heap_ok_entry [OF ht(3)] by simp
  then have run: "releaseAliases st = Inr (st\<lparr>al_cells := ?h\<rparr>)"
    using release_loop_run [OF sh it(2)] ht(1) it(1) by (simp add: releaseAliases_def)
  have m: "heap_ok ?h (mset (ht_entries ht))"
    "owned ?h (mset (ht_entries ht)) = owned (al_cells st) (mset (ht_entries ht))"
    "\<And>a. live_at (al_cells st) a \<Longrightarrow> object_at ?h a =
      (if Some a \<in> snd ` set (ht_entries ht) then (object_at (al_cells st) a)\<lparr>in_use := 0\<rparr>
       else object_at (al_cells st) a)"
    using marks_ok [OF ht(3), of "ht_entries ht" 0] by auto
  have "alias_ok (st\<lparr>al_cells := ?h\<rparr>) others" using ht m(1,2) by (simp add: alias_ok_def)
  moreover have "alias_lookup (st\<lparr>al_cells := ?h\<rparr>) j = map_option (in_use_update (\<lambda>_. 0)) (alias_lookup st j)" for j
  proof (cases "ht_find ht j")
    case None
    then show ?thesis using ht(1) by (simp add: alias_lookup_find)
  next
    case (Some e)
    then have mem: "e \<in> set (ht_entries ht)" using ht_find_mem [OF Some] by simp
    then obtain a where a: "snd e = Some a" "live_at (al_cells st) a"
      using all by (auto elim!: entry_okE)
    have "Some a \<in> snd ` set (ht_entries ht)" using mem a(1) by (metis image_eqI)
    then show ?thesis using m(3) [OF a(2)] a(1) Some ht(1) by (simp add: alias_lookup_find)
  qed
  ultimately show ?thesis using run by blast
qed

text \<open>What \<open>printAliases\<close> writes for one entry.\<close>

definition alias_line :: "alias_t cells \<Rightarrow> string \<times> ptr \<Rightarrow> string" where
  "alias_line h e = cstr (fst e) @ ''='' @ [CHR 0x27] @ cstr (entry_value h (snd e)) @ [CHR 0x27, CHR 0x0A]"

lemma print_loop_run:
  assumes "ht_shape ht" "iter_rest ht it = es" "\<forall>e \<in> set es. entry_ok h e"
  shows "print_loop ht it h = Inr (concat (map (alias_line h) es))"
  using assms(2,3)
proof (induction es arbitrary: it)
  case Nil
  then have "\<not> hash_table_iter_has_more it \<noteq> 0" by (simp add: iter_has_more_run [of it ht])
  then show ?case by (subst print_loop.simps) simp
next
  case (Cons e es)
  have more: "hash_table_iter_has_more it \<noteq> 0" using Cons.prems(1) by (simp add: iter_has_more_run [of it ht])
  obtain it' where it': "hash_table_iter_next_entry ht it = Inr (Some e, it')" "iter_rest ht it' = es"
    using iter_next_entry_run [OF assms(1), of it] Cons.prems(1) by blast
  obtain k a v where a: "e = (k, Some a)" "live_at h a" "alias_value (object_at h a) = Some v"
    "entry_value h (Some a) = v"
    using Cons.prems(2) by (auto elim!: entry_okE)
  show ?case
    using more it'(1) a Cons.IH [OF it'(2)] Cons.prems(2)
    by (subst print_loop.simps) (simp add: load_live alias_line_def [of h "(k, Some a)"])
qed

lemma printAliases_run:
  assumes "alias_ok st others" "al_table st = Some ht"
  shows "printAliases st = Inr (concat (map (alias_line (al_cells st)) (ht_entries ht)))"
proof -
  have ht: "alias_config ht" "heap_ok (al_cells st) (mset (ht_entries ht))"
    using assms by (auto simp: alias_ok_def)
  have sh: "ht_shape ht" using alias_config_parts [OF ht(1)] by (auto intro: ht_inv_shape)
  obtain it where it: "hash_table_iterate ht stack_iterator = Inr it" "iter_rest ht it = ht_entries ht"
    using iterate_run [OF sh] by blast
  have all: "\<forall>e \<in> set (ht_entries ht). entry_ok (al_cells st) e"
    using heap_ok_entry [OF ht(2)] by simp
  show ?thesis
    using print_loop_run [OF sh it(2) all] it(1) assms(2) by (simp add: printAliases_def)
qed

section \<open>Creation and destruction\<close>

lemma initializeAliases_run:
  assumes "fst (alloc_ok (al_oom st))" "fst (alloc_ok (snd (alloc_ok (al_oom st))))"
  shows "\<exists>st'. initializeAliases st = Inr st' \<and> alias_ok st' (al_strings st) \<and>
    alias_lookup st' = (\<lambda>_. None) \<and> alias_count st' = 0 \<and>
    al_oom st' = snd (alloc_ok (snd (alloc_ok (al_oom st))))"
proof -
  obtain ht :: alias_table and oom' where n: "hash_table_new string_hash string_equal (al_oom st) = Inr (Some ht, oom')"
    "oom' = snd (alloc_ok (snd (alloc_ok (al_oom st))))"
    using assms by (simp add: new_run)
  let ?ht = "hash_table_register_free_functions ht (Some key_free) (Some aliasFree)"
  note inv = new_inv(1,2) [OF n(1), of "Some key_free" "Some aliasFree"] new_inv(3,4) [OF n(1)]
  let ?st = "st\<lparr>al_table := Some ?ht, al_oom := oom'\<rparr>"
  have "initializeAliases st = Inr ?st" using n(1) by (simp add: initializeAliases_def)
  moreover have "alias_config ?ht"
    using inv by (auto simp: alias_config_def string_table_def hash_table_register_free_functions_def)
  then have "alias_ok ?st (al_strings st)" using inv(2) by (simp add: alias_ok_def)
  moreover have "alias_lookup ?st = (\<lambda>_. None)"
    using inv(2) by (simp add: alias_lookup_def ht_map_def ht_find_def fun_eq_iff)
  moreover have "alias_count ?st = 0" using inv(2) by (simp add: alias_count_def)
  ultimately show ?thesis using n(2) by (intro exI [of _ ?st]) simp
qed

lemma free_chain_aliases:
  assumes "alias_config ht" "heap_ok h (mset es)"
  shows "\<exists>h'. free_chain ht es (h, owned h (mset es) + S) = Inr (h', S) \<and> length h' = length h \<and>
    (\<forall>a. live_at h' a \<longleftrightarrow> live_at h a \<and> Some a \<notin> snd ` set es)"
  using assms(2)
proof (induction es arbitrary: h)
  case (Cons e es)
  let ?h = "h[the (snd e) := None]"
  have eok: "entry_ok h e" using heap_ok_entry [OF Cons.prems] by simp
  then obtain a where a: "snd e = Some a" by (auto elim: entry_okE)
  have rel: "heap_ok ?h (mset es)" "owned ?h (mset es) = owned h (mset es)"
    using heap_ok_release [of h e "mset es"] Cons.prems by simp_all
  have "owned h (mset (e # es)) + S = owned h {#e#} + (owned ?h (mset es) + S)"
    using rel(2) by simp
  then have "free_chain ht (e # es) (h, owned h (mset (e # es)) + S) =
      free_chain ht es (?h, owned ?h (mset es) + S)"
    unfolding free_chain.simps by (simp only: free_entry_run [OF assms(1) eok] rbind_Inr)
  with Cons.IH [OF rel(1)] a show ?case by auto
qed simp

lemma destroyAliases_run:
  assumes "alias_ok st others"
  shows "\<exists>st'. destroyAliases st = Inr st' \<and> al_table st' = None \<and> al_strings st' = others \<and>
    (\<forall>ht. al_table st = Some ht \<longrightarrow>
      (\<forall>a. live_at (al_cells st') a \<longleftrightarrow> live_at (al_cells st) a \<and> Some a \<notin> snd ` set (ht_entries ht)))"
proof -
  obtain ht where ht: "al_table st = Some ht" "alias_config ht"
    "heap_ok (al_cells st) (mset (ht_entries ht))"
    "al_strings st = owned (al_cells st) (mset (ht_entries ht)) + others"
    using assms by (rule alias_okE)
  obtain h' where h': "free_chain ht (ht_entries ht) (al_cells st, al_strings st) = Inr (h', others)"
    "\<forall>a. live_at h' a \<longleftrightarrow> live_at (al_cells st) a \<and> Some a \<notin> snd ` set (ht_entries ht)"
    using free_chain_aliases [OF ht(2,3), of others] ht(4) by auto
  have "ht_inv ht" using alias_config_parts [OF ht(2)] by simp
  then show ?thesis using ht(1) h' by (simp add: destroyAliases_def free_run)
qed

end
