(* ===== verification/Alias_Session.thy ===== *)
theory Alias_Session
  imports Alias
begin

text \<open>
  What alias.c promises its callers, over whole sessions. A session is any sequence of calls
  between \<open>initializeAliases\<close> and \<open>destroyAliases\<close>; the caller hands over fresh copies of the key
  and the value to \<open>addAlias\<close>, as \<open>cmd_alias\<close> does. The abstract specification is a function
  from names to aliases.
\<close>

datatype alias_call =
    Add string string
  | Remove string
  | Get string
  | Release

definition hand_over :: "string \<Rightarrow> string \<Rightarrow> alias_state \<Rightarrow> alias_state" where
  "hand_over k v st = st\<lparr>al_strings := str_new k (str_new v (al_strings st))\<rparr>"

fun do_call :: "alias_call \<Rightarrow> alias_state \<Rightarrow> fault + (string option \<times> alias_state)" where
  "do_call (Add k v) st = rbind (addAlias k v (hand_over k v st)) (\<lambda>st'. Inr (None, st'))"
| "do_call (Remove k) st = rbind (removeAlias k st) (\<lambda>st'. Inr (None, st'))"
| "do_call (Get k) st = getAlias k st"
| "do_call Release st = rbind (releaseAliases st) (\<lambda>st'. Inr (None, st'))"

fun do_calls :: "alias_call list \<Rightarrow> alias_state \<Rightarrow> fault + (string option list \<times> alias_state)" where
  "do_calls [] st = Inr ([], st)"
| "do_calls (c # cs) st =
     rbind (do_call c st) (\<lambda>(r, st1).
     rbind (do_calls cs st1) (\<lambda>(rs, st2). Inr (r # rs, st2)))"

section \<open>The abstract specification\<close>

type_synonym alias_map = "string \<Rightarrow> alias_t option"

fun spec_call :: "alias_call \<Rightarrow> alias_map \<Rightarrow> string option \<times> alias_map" where
  "spec_call (Add k v) m =
     (None, \<lambda>j. if cstr k = cstr j then Some \<lparr>alias_value = Some v, in_use = 0\<rparr> else m j)"
| "spec_call (Remove k) m = (None, \<lambda>j. if cstr k = cstr j then None else m j)"
| "spec_call (Get k) m =
     (case m k of
        None \<Rightarrow> (None, m)
      | Some a \<Rightarrow>
          if in_use a = 0
          then (alias_value a, \<lambda>j. if cstr k = cstr j then Some (a\<lparr>in_use := 1\<rparr>) else m j)
          else (None, m))"
| "spec_call Release m = (None, \<lambda>j. map_option (in_use_update (\<lambda>_. 0)) (m j))"

fun spec_calls :: "alias_call list \<Rightarrow> alias_map \<Rightarrow> string option list \<times> alias_map" where
  "spec_calls [] m = ([], m)"
| "spec_calls (c # cs) m =
     (let (r, m1) = spec_call c m; (rs, m2) = spec_calls cs m1 in (r # rs, m2))"

section \<open>The calls implement it\<close>

lemma addAlias_oom:
  "addAlias k v st = Inr st' \<Longrightarrow> set (al_oom st') \<subseteq> set (al_oom st)"
  using alloc_ok_subset [of "al_oom st"]
  by (cases "alloc_ok (al_oom st)")
    (auto simp: addAlias_def add_alias_value_def aliasNew_def new_cell_def rbind_eq_Inr_iff split: if_splits
      dest!: insert_oom)

lemma hand_over_ok:
  "alias_ok st others \<Longrightarrow> alias_ok (hand_over k v st) ({#k, v#} + others)"
  by (auto simp: alias_ok_def hand_over_def str_new_def split: option.splits)

lemma hand_over_simps [simp]:
  "al_table (hand_over k v st) = al_table st" "al_oom (hand_over k v st) = al_oom st"
  "al_cells (hand_over k v st) = al_cells st"
  "alias_lookup (hand_over k v st) = alias_lookup st"
  "alias_count (hand_over k v st) = alias_count st"
  by (simp_all add: hand_over_def alias_lookup_def alias_count_def fun_eq_iff
      split: option.split)

lemma alias_call_ok:
  assumes ok: "alias_ok st others" and room: "alias_count st < 536870914"
    and mem: "False \<notin> set (al_oom st)"
  shows "\<exists>r st'. do_call c st = Inr (r, st') \<and> alias_ok st' others \<and>
    spec_call c (alias_lookup st) = (r, alias_lookup st') \<and>
    alias_count st' \<le> Suc (alias_count st) \<and> False \<notin> set (al_oom st')"
proof (cases c)
  case (Add k v)
  have ok': "alias_ok (hand_over k v st) ({#k, v#} + others)" using ok by (rule hand_over_ok)
  have "fst (alloc_ok (al_oom st))" using mem alloc_ok_False by blast
  with addAlias_run [OF ok' alias_roomyI [OF ok']] room mem addAlias_oom [of k v "hand_over k v st"]
  show ?thesis using Add by fastforce
next
  case (Remove k)
  with removeAlias_run [OF ok, of k] mem show ?thesis by fastforce
next
  case (Get k)
  with getAlias_run [OF ok, of k] ok mem show ?thesis
    by (auto split: option.splits if_splits simp: alias_count_def)
next
  case Release
  with releaseAliases_run [OF ok] mem show ?thesis by (fastforce simp: alias_count_def)
qed

lemma alias_calls_ok:
  assumes "alias_ok st others" "alias_count st + length cs \<le> 536870914" "False \<notin> set (al_oom st)"
  shows "\<exists>rs st'. do_calls cs st = Inr (rs, st') \<and> alias_ok st' others \<and>
    spec_calls cs (alias_lookup st) = (rs, alias_lookup st') \<and> False \<notin> set (al_oom st')"
  using assms
proof (induction cs arbitrary: st)
  case (Cons c cs)
  have "alias_count st < 536870914" using Cons.prems(2) by simp
  from alias_call_ok [OF Cons.prems(1) this Cons.prems(3), of c] obtain r st1 where
    st1: "do_call c st = Inr (r, st1)" "alias_ok st1 others"
    "spec_call c (alias_lookup st) = (r, alias_lookup st1)"
    "alias_count st1 \<le> Suc (alias_count st)" "False \<notin> set (al_oom st1)" by blast
  have "alias_count st1 + length cs \<le> 536870914" using st1(4) Cons.prems(2) by simp
  from Cons.IH [OF st1(2) this st1(5)] st1(1,3) show ?case by auto
qed simp

lemma session_start:
  assumes "False \<notin> set (al_oom st)"
  obtains st1 where "initializeAliases st = Inr st1" "alias_ok st1 (al_strings st)"
    "alias_lookup st1 = (\<lambda>_. None)" "alias_count st1 = 0" "False \<notin> set (al_oom st1)"
proof -
  have "fst (alloc_ok (al_oom st))" "fst (alloc_ok (snd (alloc_ok (al_oom st))))"
    "False \<notin> set (snd (alloc_ok (snd (alloc_ok (al_oom st)))))"
    using assms alloc_ok_False alloc_ok_subset by blast+
  with initializeAliases_run [of st] that show thesis by auto
qed

section \<open>Properties\<close>

text \<open>The alias table of the shell right after it has started.\<close>

definition no_aliases :: alias_state where
  "no_aliases = \<lparr>al_table = None, al_cells = [], al_strings = {#}, al_oom = []\<rparr>"

text \<open>C4. Refinement. Over every sequence of calls after \<open>initializeAliases\<close>, no call faults and
  the results and the final aliases are those of the abstract map: a definition replaces the
  old one and is not in use, a removal forgets the name, \<open>getAlias\<close> hands out a value at most
  once until the aliases are released.\<close>

theorem alias_calls_refine:
  assumes "False \<notin> set (al_oom st)" "length calls \<le> 536870914"
  shows "\<exists>st1 st2 rs. initializeAliases st = Inr st1 \<and> do_calls calls st1 = Inr (rs, st2) \<and>
    spec_calls calls (\<lambda>_. None) = (rs, alias_lookup st2)"
proof -
  obtain st1 where st1: "initializeAliases st = Inr st1" "alias_ok st1 (al_strings st)"
    "alias_lookup st1 = (\<lambda>_. None)" "alias_count st1 = 0" "False \<notin> set (al_oom st1)"
    using assms(1) by (rule session_start)
  with alias_calls_ok [OF st1(2) _ st1(5), of calls] assms(2) show ?thesis by fastforce
qed

theorem alias_calls_refine_witness:
  "\<exists>st1 st2. initializeAliases no_aliases = Inr st1 \<and>
     do_calls [Add ''ll'' ''ls -l'', Get ''ll'', Get ''ll'', Release, Get ''ll'', Remove ''ll'', Get ''ll''] st1 =
       Inr ([None, Some ''ls -l'', None, None, Some ''ls -l'', None, None], st2)"
proof -
  let ?cs = "[Add ''ll'' ''ls -l'', Get ''ll'', Get ''ll'', Release, Get ''ll'', Remove ''ll'', Get ''ll'']"
  have "False \<notin> set (al_oom no_aliases)" "length ?cs \<le> 536870914" by (simp_all add: no_aliases_def)
  from alias_calls_refine [OF this] obtain st1 st2 rs where
    r: "initializeAliases no_aliases = Inr st1" "do_calls ?cs st1 = Inr (rs, st2)"
    "spec_calls ?cs (\<lambda>_. None) = (rs, alias_lookup st2)" by blast
  from r(3) have "rs = [None, Some ''ls -l'', None, None, Some ''ls -l'', None, None]" by simp
  with r(1,2) show ?thesis by blast
qed

text \<open>C23. Memory. After any session that ends in \<open>destroyAliases\<close>, every key and every value that
  was handed over has been freed exactly once and nothing else has: the live strings are those
  from before the session, and no call faulted on the way.\<close>

theorem alias_session_no_leak:
  assumes "False \<notin> set (al_oom st)" "length calls \<le> 536870914"
  shows "\<exists>st1 st2 st3 rs. initializeAliases st = Inr st1 \<and> do_calls calls st1 = Inr (rs, st2) \<and>
    destroyAliases st2 = Inr st3 \<and> al_table st3 = None \<and> al_strings st3 = al_strings st"
proof -
  obtain st1 where st1: "initializeAliases st = Inr st1" "alias_ok st1 (al_strings st)"
    "alias_count st1 = 0" "False \<notin> set (al_oom st1)"
    using assms(1) by (rule session_start)
  obtain rs st2 where st2: "do_calls calls st1 = Inr (rs, st2)" "alias_ok st2 (al_strings st)"
    using alias_calls_ok [OF st1(2) _ st1(4), of calls] st1(3) assms(2) by fastforce
  from destroyAliases_run [OF st2(2)] st1(1) st2(1) show ?thesis by blast
qed

theorem alias_session_no_leak_witness:
  "\<exists>st1 st2 st3 rs. initializeAliases no_aliases = Inr st1 \<and>
     do_calls [Add ''a'' ''ls'', Add ''a'' ''pwd'', Remove ''b''] st1 = Inr (rs, st2) \<and>
     destroyAliases st2 = Inr st3 \<and> al_strings st3 = {#}"
  using alias_session_no_leak [of no_aliases "[Add ''a'' ''ls'', Add ''a'' ''pwd'', Remove ''b'']"]
  by (auto simp: no_aliases_def)




text \<open>The listing has one line \<open>key='value'\<close> per alias: it is made of distinct keys, and a
  name is listed with a value exactly when it is an alias with that value. Listing changes
  nothing.\<close>

theorem printAliases_lists:
  assumes "alias_ok st others"
  shows "\<exists>kvs. printAliases st = Inr (concat (map (\<lambda>(k, v). k @ ''='' @ [CHR 0x27] @ v @ [CHR 0x27, CHR 0x0A]) kvs)) \<and>
    distinct (map fst kvs) \<and>
    (\<forall>k v. (k, v) \<in> set kvs \<longleftrightarrow>
      c_string k \<and> (\<exists>a. alias_lookup st k = Some a \<and> map_option cstr (alias_value a) = Some v))"
proof -
  obtain ht where ht: "al_table st = Some ht" "alias_config ht"
    "heap_ok (al_cells st) (mset (ht_entries ht))"
    using assms by (rule alias_okE)
  let ?h = "al_cells st"
  let ?kv = "\<lambda>e. (cstr (fst e), cstr (entry_value ?h (snd e)))"
  let ?kvs = "map ?kv (ht_entries ht)"
  have "alias_line ?h = (\<lambda>(k, v). k @ ''='' @ [CHR 0x27] @ v @ [CHR 0x27, CHR 0x0A]) \<circ> ?kv"
    by (simp add: alias_line_def fun_eq_iff)
  then have out: "printAliases st =
      Inr (concat (map (\<lambda>(k, v). k @ ''='' @ [CHR 0x27] @ v @ [CHR 0x27, CHR 0x0A]) ?kvs))"
    using printAliases_run [OF assms ht(1)] by (simp only: map_map)
  have st: "string_table ht" using ht(2) by (simp add: alias_config_def)
  then have uniq: "distinct (map (\<lambda>e. cstr (fst e)) (ht_entries ht))"
    by (rule string_table_distinct)
  have find: "ht_find ht k = Some e \<longleftrightarrow> e \<in> set (ht_entries ht) \<and> cstr (fst e) = cstr k" for k e
    using st by (rule string_table_find)
  have "(k, v) \<in> set ?kvs \<longleftrightarrow>
      c_string k \<and> (\<exists>a. alias_lookup st k = Some a \<and> map_option cstr (alias_value a) = Some v)" for k v
  proof
    assume "(k, v) \<in> set ?kvs"
    then obtain e where e: "e \<in> set (ht_entries ht)" "k = cstr (fst e)" "v = cstr (entry_value ?h (snd e))"
      by auto
    then have "ht_find ht k = Some e" by (simp add: find)
    moreover have "entry_ok ?h e" using heap_ok_entry [OF ht(3)] e(1) by simp
    ultimately show "c_string k \<and> (\<exists>a. alias_lookup st k = Some a \<and> map_option cstr (alias_value a) = Some v)"
      using e ht(1) by (auto elim!: entry_okE simp: alias_lookup_find)
  next
    assume r: "c_string k \<and> (\<exists>a. alias_lookup st k = Some a \<and> map_option cstr (alias_value a) = Some v)"
    then obtain e w where e: "ht_find ht k = Some e"
      "alias_value (object_at ?h (the (snd e))) = Some w" "v = cstr w"
      using ht(1) by (auto simp: alias_lookup_find)
    then have "?kv e = (k, v)" using r find [of k e] by (simp add: entry_value_def)
    moreover have "e \<in> set (ht_entries ht)" using e(1) find by blast
    ultimately show "(k, v) \<in> set ?kvs" by (metis (no_types, lifting) image_eqI set_map)
  qed
  moreover have "distinct (map fst ?kvs)" using uniq by (simp add: comp_def)
  ultimately show ?thesis using out by blast
qed

theorem printAliases_lists_witness:
  "\<exists>st1 st2. initializeAliases no_aliases = Inr st1 \<and>
     addAlias ''ll'' ''ls -l'' (hand_over ''ll'' ''ls -l'' st1) = Inr st2 \<and>
     (\<exists>out. printAliases st2 = Inr out)"
proof -
  have "False \<notin> set (al_oom no_aliases)" by (simp add: no_aliases_def)
  then obtain st1 where st1: "initializeAliases no_aliases = Inr st1" "alias_ok st1 (al_strings no_aliases)"
    "alias_count st1 = 0" "False \<notin> set (al_oom st1)"
    by (rule session_start)
  obtain rs st2 where "do_call (Add ''ll'' ''ls -l'') st1 = Inr (rs, st2)" "alias_ok st2 (al_strings no_aliases)"
    using alias_call_ok [OF st1(2) _ st1(4), of "Add ''ll'' ''ls -l''"] st1(3) by auto
  with st1(1) printAliases_lists [of st2 "al_strings no_aliases"] show ?thesis
    by (auto simp: rbind_eq_Inr_iff)
qed

end
