(* ===== verification/Command.thy ===== *)
theory Command
  imports CString
begin

text \<open>
  command.c: one command of an input line. Commands are objects on a heap; their argument and
  redirection strings are heap strings. \<open>argv\<close> is the NULL-terminated array (\<open>None\<close> before it
  is set), \<open>path\<close> the alias of \<open>argv[0]\<close>. \<open>commandFree\<close> frees the strings a command owns
  exactly once and the command, never \<open>path\<close>.
\<close>

section \<open>Data\<close>

datatype connection =
    commandConnectionNone
  | commandConnectionPipe
  | commandConnectionBackground
  | commandConnectionSequential

fun connection_code :: "connection \<Rightarrow> int" where
  "connection_code commandConnectionNone = 0"
| "connection_code commandConnectionPipe = 1"
| "connection_code commandConnectionBackground = 2"
| "connection_code commandConnectionSequential = 3"

instantiation connection :: linorder
begin

definition less_eq_connection :: "connection \<Rightarrow> connection \<Rightarrow> bool" where
  "less_eq_connection a b \<longleftrightarrow> connection_code a \<le> connection_code b"

definition less_connection :: "connection \<Rightarrow> connection \<Rightarrow> bool" where
  "less_connection a b \<longleftrightarrow> connection_code a < connection_code b"

instance
proof
  fix a b :: connection
  show "a \<le> b \<Longrightarrow> b \<le> a \<Longrightarrow> a = b"
    by (cases a; cases b) (simp_all add: less_eq_connection_def)
qed (auto simp: less_eq_connection_def less_connection_def)

end

record command_t =
  path :: "string option"
  argc :: int
  argv :: "string option list option"
  redirectToPath :: "string option"
  redirectFromPath :: "string option"
  connectionMask :: connection

type_synonym command_heap = "command_t cells \<times> strheap"

section \<open>Operations\<close>

definition blank_command :: command_t where
  "blank_command =
     \<lparr>path = None, argc = 0, argv = None, redirectToPath = None, redirectFromPath = None,
      connectionMask = commandConnectionNone\<rparr>"

definition commandNew :: "bool list \<Rightarrow> command_t cells \<Rightarrow> ptr \<times> bool list \<times> command_t cells" where
  "commandNew oom h =
     (let (ok, oom') = alloc_ok oom in
      if \<not> ok then (None, oom', h)
      else let (a, h') = new_cell blank_command h in (Some a, oom', h'))"

text \<open>The loop \<open>while (argv[i] != NULL) free(argv[i]), argv[i++] = NULL\<close>.\<close>

fun free_argv :: "string option list \<Rightarrow> strheap \<Rightarrow> fault + strheap" where
  "free_argv [] strings = Inl OutOfBounds"
| "free_argv (None # args) strings = Inr strings"
| "free_argv (Some s # args) strings = rbind (str_free s strings) (free_argv args)"

definition commandFree :: "ptr \<Rightarrow> command_heap \<Rightarrow> fault + command_heap" where
  "commandFree command hs =
     (if command = None then Inl AssertFailed
      else
        rbind (load (fst hs) command) (\<lambda>c.
        rbind (case argv c of None \<Rightarrow> Inr (snd hs) | Some args \<Rightarrow> free_argv args (snd hs)) (\<lambda>s1.
        rbind (str_free_opt (redirectToPath c) s1) (\<lambda>s2.
        rbind (str_free_opt (redirectFromPath c) s2) (\<lambda>s3.
        rbind (release (fst hs) command) (\<lambda>h. Inr (h, s3)))))))"

section \<open>Ownership\<close>

text \<open>The words of a command: the entries of \<open>argv\<close> before the terminating NULL.\<close>

fun argv_words :: "string option list \<Rightarrow> string list" where
  "argv_words (Some s # args) = s # argv_words args"
| "argv_words _ = []"

definition argv_ok :: "string option list \<Rightarrow> bool" where
  "argv_ok args \<longleftrightarrow> None \<in> set args"

definition words_of :: "command_t \<Rightarrow> string list" where
  "words_of c = (case argv c of None \<Rightarrow> [] | Some args \<Rightarrow> argv_words args)"

definition command_ok :: "command_t \<Rightarrow> bool" where
  "command_ok c \<longleftrightarrow> (case argv c of None \<Rightarrow> True | Some args \<Rightarrow> argv_ok args)"

definition command_strings :: "command_t \<Rightarrow> strheap" where
  "command_strings c =
     mset (words_of c) + mset (case redirectToPath c of None \<Rightarrow> [] | Some s \<Rightarrow> [s]) +
     mset (case redirectFromPath c of None \<Rightarrow> [] | Some s \<Rightarrow> [s])"

lemma argv_words_terminated [simp]: "argv_words (map Some ws @ None # rest) = ws"
  by (induction ws) auto

lemma argv_ok_terminated [simp]: "argv_ok (map Some ws @ [None])"
  by (simp add: argv_ok_def)

lemma free_argv_run: "argv_ok args \<Longrightarrow> free_argv args (mset (argv_words args) + S) = Inr S"
  by (induction args rule: argv_words.induct) (auto simp: argv_ok_def)

lemma free_argv_unterminated: "\<not> argv_ok args \<Longrightarrow> free_argv args S = Inr S' \<Longrightarrow> False"
  by (induction args S rule: free_argv.induct) (auto simp: argv_ok_def rbind_eq_Inr_iff)

lemma commandFree_run:
  assumes "live_at h a" "command_ok (object_at h a)"
  shows "commandFree (Some a) (h, command_strings (object_at h a) + S) = Inr (h[a := None], S)"
proof -
  let ?c = "object_at h a"
  let ?to = "mset (case redirectToPath ?c of None \<Rightarrow> [] | Some s \<Rightarrow> [s])"
  let ?from = "mset (case redirectFromPath ?c of None \<Rightarrow> [] | Some s \<Rightarrow> [s])"
  have strs: "command_strings ?c + S = mset (words_of ?c) + (?to + (?from + S))"
    by (simp add: command_strings_def add.assoc)
  have args: "(case argv ?c of None \<Rightarrow> Inr (mset (words_of ?c) + T) | Some args \<Rightarrow> free_argv args (mset (words_of ?c) + T)) = Inr T"
    for T
    using assms(2) by (auto simp: command_ok_def words_of_def free_argv_run split: option.splits)
  show ?thesis
    unfolding strs commandFree_def fst_conv snd_conv
    using assms(1) args by (simp add: load_live release_live str_free_opt_owned)
qed

text \<open>The strings of several commands.\<close>

definition strings_of :: "command_t cells \<Rightarrow> nat list \<Rightarrow> strheap" where
  "strings_of h ptrs = sum_list (map (\<lambda>a. command_strings (object_at h a)) ptrs)"

lemma strings_of_Cons:
  "strings_of h [] = {#}" "strings_of h (a # as) = command_strings (object_at h a) + strings_of h as"
  by (simp_all add: strings_of_def)

lemma strings_of_release: "a \<notin> set as \<Longrightarrow> strings_of (h[a := None]) as = strings_of h as"
  by (induction as) (auto simp: strings_of_Cons)

lemma commandNew_run: "fst (alloc_ok oom) \<Longrightarrow>
    commandNew oom h = (Some (length h), snd (alloc_ok oom), h @ [Some blank_command])"
  by (cases "alloc_ok oom") (simp add: commandNew_def new_cell_def)

section \<open>Properties\<close>

text \<open>A command is freed exactly: \<open>commandFree\<close> releases each word of \<open>argv\<close>, both
  redirection paths and the command itself, once each, and touches no other string or command;
  \<open>path\<close>, which aliases \<open>argv[0]\<close>, is not freed a second time.\<close>

theorem commandFree_exact:
  assumes "live_at h a" "command_ok (object_at h a)"
  shows "commandFree (Some a) (h, command_strings (object_at h a) + S) = Inr (h[a := None], S) \<and>
    \<not> live_at (h[a := None]) a \<and>
    (\<forall>b. b \<noteq> a \<longrightarrow> live_at (h[a := None]) b = live_at h b \<and> object_at (h[a := None]) b = object_at h b) \<and>
    (\<exists>e. commandFree (Some a) (h[a := None], S) = Inl e)"
  using commandFree_run [OF assms] by (simp add: commandFree_def load_Some)

theorem commandFree_exact_witness:
  "commandFree (Some 0)
     ([Some \<lparr>path = Some ''ls'', argc = 2, argv = Some [Some ''ls'', Some ''-l'', None],
             redirectToPath = Some ''out'', redirectFromPath = None,
             connectionMask = commandConnectionNone\<rparr>],
      {#''ls'', ''-l'', ''out'', ''other''#}) = Inr ([None], {#''other''#})"
proof -
  let ?h = "[Some \<lparr>path = Some ''ls'', argc = 2, argv = Some [Some ''ls'', Some ''-l'', None],
             redirectToPath = Some ''out'', redirectFromPath = None,
             connectionMask = commandConnectionNone\<rparr>]"
  have ok: "live_at ?h 0" "command_ok (object_at ?h 0)"
    by (simp_all add: live_at_def object_at_def command_ok_def argv_ok_def)
  have eq: "command_strings (object_at ?h 0) + {#''other''#} = {#''ls'', ''-l'', ''out'', ''other''#}"
    by (simp add: object_at_def command_strings_def words_of_def)
  from conjunct1 [OF commandFree_exact [OF ok, of "{#''other''#}"]] show ?thesis
    unfolding eq by simp
qed

end
