(* ===== verification/Helper.thy ===== *)
theory Helper
  imports Alias_Session Command
begin

text \<open>
  helper.c: word expansion and alias expansion. \<open>wordexp\<close> of the C library is a parameter: for a
  string it gives the list of words, or \<open>None\<close> for a result other than 0. A buffer that is
  allocated, written and freed is a heap string of its current content, so that overflow of its
  \<open>BUFSIZE + 1\<close> bytes, a leak and a double free all show. The lemmas compare \<open>expandAlias\<close> with a
  specification that replaces the first word of the line by its alias, each alias once.
\<close>

definition BUFSIZE :: nat where
  "BUFSIZE = 1024"

section \<open>Word expansion\<close>

definition strdup :: "string \<Rightarrow> bool list \<Rightarrow> strheap \<Rightarrow> string option \<times> bool list \<times> strheap" where
  "strdup s oom strings =
     (let (ok, oom') = alloc_ok oom in
      if ok then (Some (cstr s), oom', str_new (cstr s) strings) else (None, oom', strings))"

definition expand ::
    "(string \<Rightarrow> string list option) \<Rightarrow> string \<Rightarrow> bool list \<Rightarrow> strheap \<Rightarrow>
     string option \<times> bool list \<times> strheap" where
  "expand wordexp input oom strings =
     (case wordexp input of
        None \<Rightarrow> (None, oom, strings)
      | Some w \<Rightarrow> if length w = 1 then strdup (w ! 0) oom strings else (None, oom, strings))"

fun dup_words ::
    "string list \<Rightarrow> bool list \<Rightarrow> strheap \<Rightarrow> string option list \<times> bool list \<times> strheap" where
  "dup_words [] oom strings = ([], oom, strings)"
| "dup_words (w # ws) oom strings =
     (let (s, oom1, strings1) = strdup w oom strings;
          (ss, oom2, strings2) = dup_words ws oom1 strings1
      in (s # ss, oom2, strings2))"

definition expandGlob ::
    "(string \<Rightarrow> string list option) \<Rightarrow> ptr \<Rightarrow> string \<Rightarrow> bool list \<Rightarrow> command_heap \<Rightarrow>
     fault + (int \<times> bool list \<times> command_heap)" where
  "expandGlob wordexp command cmd oom hs =
     (case wordexp cmd of
        None \<Rightarrow> Inr (- 1, oom, hs)
      | Some w \<Rightarrow>
          rbind (load (fst hs) command) (\<lambda>c.
          let (ok, oom1) = alloc_ok oom in
          if \<not> ok then Inl NullPointer
          else
            let (args, oom2, strings) = dup_words w oom1 (snd hs) in
            rbind (store (fst hs) command (c\<lparr>argv := Some (args @ [None])\<rparr>)) (\<lambda>h.
              Inr (0, oom2, h, strings))))"

section \<open>Alias expansion\<close>

text \<open>\<open>buf_new\<close> is a \<open>calloc\<close> whose block is written right away; writing to NULL is a fault.\<close>

definition buf_new :: "string \<Rightarrow> alias_state \<Rightarrow> fault + alias_state" where
  "buf_new s st =
     (let (ok, oom) = alloc_ok (al_oom st) in
      if ok then Inr (st\<lparr>al_strings := str_new s (al_strings st), al_oom := oom\<rparr>)
      else Inl NullPointer)"

definition buf_free :: "string \<Rightarrow> alias_state \<Rightarrow> fault + alias_state" where
  "buf_free s st = rbind (str_free s (al_strings st)) (\<lambda>h. Inr (st\<lparr>al_strings := h\<rparr>))"

definition buf_write :: "string \<Rightarrow> string \<Rightarrow> alias_state \<Rightarrow> fault + alias_state" where
  "buf_write old new st =
     rbind (buf_free old st) (\<lambda>st1. Inr (st1\<lparr>al_strings := str_new new (al_strings st1)\<rparr>))"

text \<open>The text up to the first space, found with \<open>strstr(s, " ")\<close>.\<close>

definition first_word :: "string \<Rightarrow> string" where
  "first_word s =
     strncpy s (case strstr s '' '' of None \<Rightarrow> strlen s | Some ptr \<Rightarrow> length s - length ptr)"

definition append_space_tail :: "string \<Rightarrow> string \<Rightarrow> fault + string" where
  "append_space_tail dst src =
     (case strstr src '' '' of None \<Rightarrow> Inr dst | Some ptr \<Rightarrow> strcat (BUFSIZE + 1) dst ptr)"

definition unused_aliases :: "alias_state \<Rightarrow> nat" where
  "unused_aliases st =
     length (filter (\<lambda>c. case c of None \<Rightarrow> False | Some a \<Rightarrow> in_use a = 0) (al_cells st))"

lemma filter_update_less:
  "i < length xs \<Longrightarrow> P (xs ! i) \<Longrightarrow> \<not> P y \<Longrightarrow>
   length (filter P (xs[i := y])) < length (filter P xs)"
proof -
  assume i: "i < length xs" and P: "P (xs ! i)" "\<not> P y"
  have "filter P xs = filter P (take i xs @ xs ! i # drop (Suc i) xs)"
    using i by (simp only: id_take_nth_drop [symmetric])
  with i P show ?thesis by (simp add: upd_conv_take_nth_drop)
qed

lemma getAlias_uses_one:
  assumes "getAlias key st = Inr (Some v, st')"
  shows "unused_aliases st' < unused_aliases st"
proof -
  from assms obtain a where a: "live_at (al_cells st) a" "in_use (object_at (al_cells st) a) = 0"
    "al_cells st' = (al_cells st)[a := Some ((object_at (al_cells st) a)\<lparr>in_use := 1\<rparr>)]"
    by (auto simp: getAlias_def rbind_eq_Inr_iff load_eq_Inr_iff store_live split: option.splits if_splits)
  have "(case al_cells st ! a of None \<Rightarrow> False | Some a \<Rightarrow> in_use a = 0)"
    using a(1,2) by (auto simp: live_at_def object_at_def split: option.splits)
  then show ?thesis
    using a(1) unfolding unused_aliases_def a(3) by (intro filter_update_less) (auto simp: live_at_def)
qed

lemma buf_aliases [simp]:
  "buf_new s st = Inr st' \<Longrightarrow> al_cells st' = al_cells st"
  "buf_free s st = Inr st' \<Longrightarrow> al_cells st' = al_cells st"
  "buf_write s t st = Inr st' \<Longrightarrow> al_cells st' = al_cells st"
  by (auto simp: buf_new_def buf_free_def buf_write_def rbind_eq_Inr_iff Let_def
      split: prod.splits if_splits)

function expand_loop ::
    "string \<Rightarrow> string \<Rightarrow> alias_state \<Rightarrow> fault + (string \<times> string \<times> alias_state)" where
  "expand_loop final cmd st =
     rbind (getAlias cmd st) (\<lambda>r.
       case fst r of
         None \<Rightarrow> Inr (final, cmd, snd r)
       | Some aux \<Rightarrow>
           rbind (buf_new (strncpy (cstr aux) BUFSIZE) (snd r)) (\<lambda>st1.
           rbind (append_space_tail (strncpy (cstr aux) BUFSIZE) final) (\<lambda>tmp.
           rbind (buf_write (strncpy (cstr aux) BUFSIZE) tmp st1) (\<lambda>st2.
           rbind (buf_free final st2) (\<lambda>st3.
           rbind (buf_free cmd st3) (\<lambda>st4.
           rbind (buf_new (first_word (cstr aux)) st4) (\<lambda>st5.
             expand_loop tmp (first_word (cstr aux)) st5)))))))"
  by pat_completeness auto
termination
proof (relation "measure (\<lambda>(final, cmd, st). unused_aliases st)", goal_cases)
  case (2 final cmd st r aux st1 tmp st2 st3 st4 st5)
  then have "al_cells st5 = al_cells (snd r)" by simp
  moreover have "unused_aliases (snd r) < unused_aliases st"
    using 2 by (intro getAlias_uses_one [of cmd st aux]) (metis prod.collapse)
  ultimately show ?case by (simp add: unused_aliases_def)
qed simp

declare expand_loop.simps [simp del]

definition expandAlias :: "string \<Rightarrow> alias_state \<Rightarrow> fault + (string \<times> alias_state)" where
  "expandAlias command st =
     rbind (buf_new [] st) (\<lambda>st1.
     rbind (buf_new (first_word (cstr command)) st1) (\<lambda>st2.
     rbind (expand_loop [] (first_word (cstr command)) st2) (\<lambda>(final, cmd, st3).
     rbind (buf_free cmd st3) (\<lambda>st4.
     rbind (if strlen final = 0 then Inr (strncpy (cstr command) BUFSIZE)
            else append_space_tail final (cstr command)) (\<lambda>final'.
     rbind (buf_write final final' st4) (\<lambda>st5.
     rbind (releaseAliases st5) (\<lambda>st6.
       Inr (final', st6))))))))"


section \<open>Words and tails\<close>

definition tail_part :: "string \<Rightarrow> string" where
  "tail_part s = dropWhile (\<lambda>c. c \<noteq> CHR '' '') s"

lemma first_word_eq: "c_string s \<Longrightarrow> first_word s = takeWhile (\<lambda>c. c \<noteq> CHR '' '') s"
proof (cases "CHR '' '' \<in> set s")
  case True
  have len: "length s - length (dropWhile P s) = length (takeWhile P s)" for P
    by (metis add_diff_cancel_right' length_append takeWhile_dropWhile_id)
  have "take (length (takeWhile P s)) s = takeWhile P s" for P
    by (metis append_eq_conv_conj takeWhile_dropWhile_id)
  with True len show ?thesis
    by (simp add: first_word_def strstr_char strncpy_def)
next
  case False
  assume "c_string s"
  moreover have tw: "takeWhile (\<lambda>c. c \<noteq> CHR '' '') s = s" using False by auto
  ultimately show ?thesis using False
    by (simp only: tw) (simp add: first_word_def strstr_char strncpy_def strlen_def)
qed

lemma word_tail: "c_string s \<Longrightarrow> first_word s @ tail_part s = s"
  by (simp add: first_word_eq tail_part_def)

lemma c_string_parts: "c_string s \<Longrightarrow> c_string (first_word s)" "c_string s \<Longrightarrow> c_string (tail_part s)"
  by (metis c_string_simps(3) word_tail)+

lemma tail_part_cases: "tail_part s = [] \<or> (\<exists>r. tail_part s = CHR '' '' # r)"
  unfolding tail_part_def
  by (cases "dropWhile (\<lambda>c. c \<noteq> CHR '' '') s") (auto dest: dropWhile_eq_Cons_conv [THEN iffD1])

lemma tail_part_tail [simp]: "tail_part (tail_part s) = tail_part s"
  by (simp add: tail_part_def)

lemma tail_part_append: "t = [] \<or> (\<exists>r. t = CHR '' '' # r) \<Longrightarrow> tail_part (s @ t) = tail_part s @ t"
  by (induction s) (auto simp: tail_part_def)

lemma first_word_append:
  "c_string (s @ t) \<Longrightarrow> t = [] \<or> (\<exists>r. t = CHR '' '' # r) \<Longrightarrow> first_word (s @ t) = first_word s"
  by (induction s) (auto simp: first_word_eq)

lemma append_space_tail_eq:
  "append_space_tail dst src =
    (if length dst + length (tail_part src) \<le> BUFSIZE \<or> tail_part src = []
     then Inr (dst @ tail_part src) else Inl BufferOverflow)"
proof (cases "CHR '' '' \<in> set src")
  case True
  then have "tail_part src \<noteq> []" by (auto simp: tail_part_def)
  with True show ?thesis by (simp add: append_space_tail_def strstr_char strcat_def tail_part_def)
next
  case False
  then have "tail_part src = []" by (auto simp: tail_part_def)
  with False show ?thesis by (simp add: append_space_tail_def strstr_char)
qed

section \<open>Specification of alias expansion\<close>

text \<open>The first word of the line is replaced by its definition as long as it has one that was
  not used yet.\<close>

definition without :: "string \<Rightarrow> (string \<times> string) list \<Rightarrow> (string \<times> string) list" where
  "without k defs = filter (\<lambda>d. fst d \<noteq> k) defs"

lemma without_shorter: "map_of defs k = Some v \<Longrightarrow> length (without k defs) < length defs"
  by (induction defs) (auto simp: without_def less_Suc_eq_le split: if_splits)

lemma map_of_without: "map_of (without k defs) j = (if j = k then None else map_of defs j)"
  by (induction defs) (auto simp: without_def)

function alias_rewrite :: "(string \<times> string) list \<Rightarrow> string \<Rightarrow> string" where
  "alias_rewrite defs w =
     (case map_of defs (first_word w) of
        None \<Rightarrow> w
      | Some v \<Rightarrow> alias_rewrite (without (first_word w) defs) (v @ tail_part w))"
  by pat_completeness auto
termination
  by (relation "measure (\<lambda>(defs, w). length defs)") (auto dest: without_shorter)

text \<open>Every line on the way fits a buffer, and no definition on the way is empty.\<close>

function rewrite_fits :: "(string \<times> string) list \<Rightarrow> string \<Rightarrow> bool" where
  "rewrite_fits defs w =
     (case map_of defs (first_word w) of
        None \<Rightarrow> True
      | Some v \<Rightarrow> v \<noteq> [] \<and> length (v @ tail_part w) \<le> BUFSIZE \<and>
          rewrite_fits (without (first_word w) defs) (v @ tail_part w))"
  by pat_completeness auto
termination
  by (relation "measure (\<lambda>(defs, w). length defs)") (auto dest: without_shorter)

declare alias_rewrite.simps [simp del] rewrite_fits.simps [simp del]

text \<open>\<open>defs\<close> are the aliases that are defined and not in use.\<close>

definition available :: "alias_state \<Rightarrow> string \<Rightarrow> string option" where
  "available st k =
     (case alias_lookup st k of
        None \<Rightarrow> None
      | Some a \<Rightarrow> if in_use a = 0 then map_option cstr (alias_value a) else None)"

definition describes :: "(string \<times> string) list \<Rightarrow> alias_state \<Rightarrow> bool" where
  "describes defs st \<longleftrightarrow> (\<forall>k. c_string k \<longrightarrow> map_of defs k = available st k)"

definition released :: "alias_state \<Rightarrow> string \<Rightarrow> alias_t option" where
  "released st = (\<lambda>j. map_option (in_use_update (\<lambda>_. 0)) (alias_lookup st j))"

section \<open>The loop follows the specification\<close>

lemma getAlias_available:
  assumes ok: "alias_ok st others" and d: "describes defs st" and k: "c_string k"
  shows "case map_of defs k of
      None \<Rightarrow> getAlias k st = Inr (None, st)
    | Some v \<Rightarrow> \<exists>raw st'. getAlias k st = Inr (Some raw, st') \<and> cstr raw = v \<and> alias_ok st' others \<and>
        describes (without k defs) st' \<and> released st' = released st \<and>
        al_oom st' = al_oom st"
proof -
  have def: "map_of defs k = available st k" using d k by (simp add: describes_def)
  note run = getAlias_run [OF ok, of k]
  show ?thesis
  proof (cases "alias_lookup st k")
    case None
    with def run show ?thesis by (simp add: available_def)
  next
    case (Some a)
    obtain raw where raw: "alias_value a = Some raw"
      using alias_lookup_cell [OF ok Some] by blast
    show ?thesis
    proof (cases "in_use a = 0")
      case False
      with def run Some show ?thesis by (simp add: available_def)
    next
      case True
      with run Some raw obtain st' where st': "getAlias k st = Inr (Some raw, st')" "alias_ok st' others"
        "al_oom st' = al_oom st"
        "alias_lookup st' = (\<lambda>j. if cstr k = cstr j then Some (a\<lparr>in_use := 1\<rparr>) else alias_lookup st j)"
        by auto
      have "available st' j = (if j = k then None else available st j)" if "c_string j" for j
        using that k by (simp add: available_def st'(4))
      then have "describes (without k defs) st'"
        using d by (simp add: describes_def map_of_without)
      moreover have same: "alias_lookup st j = Some a" if "cstr k = cstr j" for j
        using alias_lookup_same [OF ok that] Some by simp
      have "released st' = released st"
        using same True by (auto simp: released_def st'(4) fun_eq_iff)
      ultimately show ?thesis using def Some True raw st'(1-3) by (auto simp: available_def)
    qed
  qed
qed

lemma strings_lookup [simp]:
  "alias_lookup (st\<lparr>al_strings := S\<rparr>) = alias_lookup st"
  "alias_lookup (st\<lparr>al_strings := S, al_oom := oom\<rparr>) = alias_lookup st"
  "alias_lookup (st\<lparr>al_oom := oom, al_strings := S\<rparr>) = alias_lookup st"
  by (simp_all add: alias_lookup_def fun_eq_iff split: option.split)

lemma oom_irrelevant [simp]:
  "alias_lookup (st\<lparr>al_oom := oom\<rparr>) = alias_lookup st"
  "alias_ok (st\<lparr>al_oom := oom\<rparr>) others = alias_ok st others"
  by (simp_all add: alias_lookup_def alias_ok_def fun_eq_iff split: option.split)

lemma alias_ok_swap:
  assumes "alias_ok st (A + others)"
  shows "A \<subseteq># al_strings st" "alias_ok (st\<lparr>al_strings := al_strings st - A + B, al_oom := oom\<rparr>) (B + others)"
proof -
  obtain ht where ht: "al_table st = Some ht" "alias_config ht"
    "heap_ok (al_cells st) (mset (ht_entries ht))"
    "al_strings st = A + (owned (al_cells st) (mset (ht_entries ht)) + others)"
    using assms by (elim alias_okE) (simp add: ac_simps)
  show "A \<subseteq># al_strings st" unfolding ht(4) by simp
  show "alias_ok (st\<lparr>al_strings := al_strings st - A + B, al_oom := oom\<rparr>) (B + others)"
    unfolding alias_ok_def using ht by (simp add: ac_simps)
qed

lemma alias_state_oom [simp]: "st\<lparr>al_strings := S, al_oom := al_oom st\<rparr> = st\<lparr>al_strings := S\<rparr>"
  by (cases st) simp

lemma buf_new_run:
  assumes "alias_ok st others" "False \<notin> set (al_oom st)"
  shows "\<exists>st'. buf_new s st = Inr st' \<and> alias_ok st' (add_mset s others) \<and>
    alias_lookup st' = alias_lookup st \<and> False \<notin> set (al_oom st')"
proof -
  obtain ok oom where al: "alloc_ok (al_oom st) = (ok, oom)" by fastforce
  then have "ok" "set oom \<subseteq> set (al_oom st)"
    using alloc_ok_False [of "al_oom st"] alloc_oom assms(2) by auto
  with al alias_ok_swap(2) [where st = st and A = "{#}" and B = "{#s#}" and oom = oom and others = others] assms show ?thesis
    by (auto simp: buf_new_def str_new_def)
qed

lemma buf_free_run:
  assumes "alias_ok st (add_mset s others)"
  shows "\<exists>st'. buf_free s st = Inr st' \<and> alias_ok st' others \<and>
    alias_lookup st' = alias_lookup st \<and> al_oom st' = al_oom st"
  using alias_ok_swap(1) [where st = st and A = "{#s#}" and others = others]
    alias_ok_swap(2) [where st = st and A = "{#s#}" and B = "{#}" and oom = "al_oom st" and others = others] assms
  by (auto simp: buf_free_def str_free_def)

lemma buf_write_run:
  assumes "alias_ok st (add_mset s others)"
  shows "\<exists>st'. buf_write s t st = Inr st' \<and> alias_ok st' (add_mset t others) \<and>
    alias_lookup st' = alias_lookup st \<and> al_oom st' = al_oom st"
  using alias_ok_swap(1) [where st = st and A = "{#s#}" and others = others]
    alias_ok_swap(2) [where st = st and A = "{#s#}" and B = "{#t#}" and oom = "al_oom st" and others = others] assms
  by (auto simp: buf_write_def buf_free_def str_free_def str_new_def)


lemma describes_lookup: "alias_lookup st' = alias_lookup st \<Longrightarrow> describes defs st' = describes defs st"
  by (simp add: describes_def available_def)

lemma released_lookup: "alias_lookup st' = alias_lookup st \<Longrightarrow> released st' = released st"
  by (simp add: released_def)

text \<open>One round of the loop, the overflow of the buffer included.\<close>

lemma expand_step:
  assumes ok: "alias_ok st ({#f, k#} + others)" and d: "describes defs st"
    and k: "c_string k" and mem: "False \<notin> set (al_oom st)"
    and def: "map_of defs k = Some v"
  shows "if length (take BUFSIZE v) + length (tail_part f) \<le> BUFSIZE \<or> tail_part f = []
    then \<exists>st'. expand_loop f k st = expand_loop (take BUFSIZE v @ tail_part f) (first_word v) st' \<and>
      alias_ok st' ({#take BUFSIZE v @ tail_part f, first_word v#} + others) \<and>
      describes (without k defs) st' \<and> released st' = released st \<and> False \<notin> set (al_oom st')
    else expand_loop f k st = Inl BufferOverflow"
proof -
  let ?v = "take BUFSIZE v"
  from getAlias_available [OF ok d k] def obtain raw st0 where g: "getAlias k st = Inr (Some raw, st0)"
    "cstr raw = v" "alias_ok st0 ({#f, k#} + others)" "describes (without k defs) st0"
    "released st0 = released st" "False \<notin> set (al_oom st0)"
    using mem by auto
  obtain st1 where s1: "buf_new ?v st0 = Inr st1" "alias_ok st1 (add_mset ?v ({#f, k#} + others))"
    "alias_lookup st1 = alias_lookup st0" "False \<notin> set (al_oom st1)"
    using buf_new_run [OF g(3,6)] by blast
  note app = append_space_tail_eq [of ?v f]
  show ?thesis
  proof (cases "length ?v + length (tail_part f) \<le> BUFSIZE \<or> tail_part f = []")
    case False
    then have "expand_loop f k st = Inl BufferOverflow"
      using g(1,2) s1(1) app by (subst expand_loop.simps) (simp add: strncpy_def)
    with False show ?thesis by simp
  next
    case True
    let ?t = "?v @ tail_part f"
    obtain st2 where s2: "buf_write ?v ?t st1 = Inr st2"
      "alias_ok st2 (add_mset ?t ({#f, k#} + others))"
      "alias_lookup st2 = alias_lookup st1" "al_oom st2 = al_oom st1"
      using buf_write_run [OF s1(2)] by blast
    have "alias_ok st2 (add_mset f ({#?t, k#} + others))"
      using s2(2) by (simp add: add_mset_commute)
    then obtain st3 where s3: "buf_free f st2 = Inr st3" "alias_ok st3 ({#?t, k#} + others)"
      "alias_lookup st3 = alias_lookup st2" "al_oom st3 = al_oom st2"
      using buf_free_run by blast
    have "alias_ok st3 (add_mset k ({#?t#} + others))"
      using s3(2) by (simp add: add_mset_commute)
    then obtain st4 where s4: "buf_free k st3 = Inr st4" "alias_ok st4 ({#?t#} + others)"
      "alias_lookup st4 = alias_lookup st3" "al_oom st4 = al_oom st3"
      using buf_free_run by blast
    have "False \<notin> set (al_oom st4)" using s1(4) s2(4) s3(4) s4(4) by simp
    then obtain st5 where s5: "buf_new (first_word v) st4 = Inr st5"
      "alias_ok st5 (add_mset (first_word v) ({#?t#} + others))"
      "alias_lookup st5 = alias_lookup st4" "False \<notin> set (al_oom st5)"
      using buf_new_run [OF s4(2)] by blast
    have run: "expand_loop f k st = expand_loop ?t (first_word v) st5"
      using g(1,2) s1(1) app True s2(1) s3(1) s4(1) s5(1)
      by (subst expand_loop.simps) (simp add: strncpy_def)
    have look: "alias_lookup st5 = alias_lookup st0"
      using s5(3) s4(3) s3(3) s2(3) s1(3) by simp
    have "alias_ok st5 ({#?t, first_word v#} + others)"
      using s5(2) by (simp add: add_mset_commute)
    with run True s5(4) g(4,5) describes_lookup [OF look] released_lookup [OF look]
    show ?thesis by auto
  qed
qed

lemma expand_stop:
  assumes "alias_ok st others" "describes defs st" "c_string k" "map_of defs k = None"
  shows "expand_loop f k st = Inr (f, k, st)"
  using getAlias_available [OF assms(1-3)] assms(4) by (subst expand_loop.simps) simp

lemma expand_loop_run:
  assumes "alias_ok st ({#f, first_word w#} + others)" "describes defs st"
    and "c_string w" "tail_part w = tail_part f @ T" "rewrite_fits defs w"
    and "False \<notin> set (al_oom st)"
  shows "\<exists>f' cmd st'. expand_loop f (first_word w) st = Inr (f', cmd, st') \<and>
    alias_ok st' ({#f', cmd#} + others) \<and> released st' = released st \<and>
    (if map_of defs (first_word w) = None then f' = f else f' \<noteq> [] \<and> c_string f' \<and> alias_rewrite defs w = f' @ T) \<and>
    (length f \<le> BUFSIZE \<longrightarrow> length f' \<le> BUFSIZE) \<and> False \<notin> set (al_oom st')"
  using assms
proof (induction defs w arbitrary: f st rule: alias_rewrite.induct)
  case (1 defs w)
  have k: "c_string (first_word w)" using "1.prems"(3) by (rule c_string_parts)
  show ?case
  proof (cases "map_of defs (first_word w)")
    case None
    from expand_stop [OF "1.prems"(1,2) k None] "1.prems"(1,6) None show ?thesis by auto
  next
    case (Some v)
    let ?w = "v @ tail_part w"
    let ?f = "v @ tail_part f"
    let ?defs = "without (first_word w) defs"
    have fits: "v \<noteq> []" "length ?w \<le> BUFSIZE" "rewrite_fits ?defs ?w"
      using "1.prems"(5) Some by (simp_all add: rewrite_fits.simps [of defs w])
    have v: "c_string v"
      using "1.prems"(2) Some k by (auto simp: describes_def available_def split: option.splits if_splits)
    have w: "c_string ?w" using v c_string_parts(2) [OF "1.prems"(3)] by simp
    have tw: "tail_part ?w = tail_part v @ tail_part w"
      using tail_part_cases by (rule tail_part_append)
    have tf: "tail_part ?f = tail_part v @ tail_part f"
      using tail_part_cases by (rule tail_part_append)
    have fw: "first_word ?w = first_word v"
      using w tail_part_cases by (rule first_word_append)
    have len: "take BUFSIZE v = v" "length v + length (tail_part f) \<le> BUFSIZE"
      using fits(2) "1.prems"(4) by auto
    with expand_step [OF "1.prems"(1,2) k "1.prems"(6) Some] obtain st' where
      st': "expand_loop f (first_word w) st = expand_loop ?f (first_word ?w) st'"
        "alias_ok st' ({#?f, first_word ?w#} + others)" "describes ?defs st'"
        "released st' = released st" "False \<notin> set (al_oom st')"
      unfolding fw by auto
    have "tail_part ?w = tail_part ?f @ T" using tw tf "1.prems"(4) by simp
    from "1.IH" [OF Some st'(2,3) w this fits(3) st'(5)] obtain f' cmd st2 where
      r: "expand_loop ?f (first_word ?w) st' = Inr (f', cmd, st2)" "alias_ok st2 ({#f', cmd#} + others)"
      "released st2 = released st'" "length ?f \<le> BUFSIZE \<longrightarrow> length f' \<le> BUFSIZE"
      "if map_of ?defs (first_word ?w) = None then f' = ?f
       else f' \<noteq> [] \<and> c_string f' \<and> alias_rewrite ?defs ?w = f' @ T"
      "False \<notin> set (al_oom st2)"
      by blast
    have rw: "alias_rewrite defs w = alias_rewrite ?defs ?w"
      using Some by (simp add: alias_rewrite.simps [of defs w])
    have "f' \<noteq> [] \<and> c_string f' \<and> alias_rewrite defs w = f' @ T"
    proof (cases "map_of ?defs (first_word ?w)")
      case None
      then have "alias_rewrite ?defs ?w = ?w" by (simp add: alias_rewrite.simps [of ?defs ?w])
      moreover have "?w = ?f @ T" using "1.prems"(4) by simp
      moreover have "c_string ?f" using w "1.prems"(4) by simp
      ultimately show ?thesis using r(5) None fits(1) rw by simp
    next
      case Some
      with r(5) rw show ?thesis by simp
    qed
    moreover have "length f' \<le> BUFSIZE" using r(4) len(2) by simp
    ultimately show ?thesis using st'(1,4) r(1-3,6) Some by auto
  qed
qed


lemma rewrite_fits_length:
  "rewrite_fits defs w \<Longrightarrow> length w \<le> BUFSIZE \<Longrightarrow> length (alias_rewrite defs w) \<le> BUFSIZE"
proof (induction defs w rule: alias_rewrite.induct)
  case (1 defs w)
  show ?case
  proof (cases "map_of defs (first_word w)")
    case None
    with "1.prems"(2) show ?thesis by (simp add: alias_rewrite.simps [of defs w])
  next
    case (Some v)
    with "1.prems"(1) "1.IH" [OF Some] show ?thesis
      by (simp add: alias_rewrite.simps [of defs w] rewrite_fits.simps [of defs w])
  qed
qed

text \<open>The aliases of a table can always be described.\<close>

lemma describes_exists:
  assumes "alias_ok st others"
  obtains defs where "describes defs st"
proof -
  define m where "m k = (if c_string k then available st k else None)" for k
  obtain ht where ht: "al_table st = Some ht" "alias_config ht"
    using assms by (rule alias_okE)
  have "dom m \<subseteq> (\<lambda>e. cstr (fst e)) ` set (ht_entries ht)"
  proof
    fix k assume "k \<in> dom m"
    then obtain e where e: "ht_find ht k = Some e" "c_string k"
      using ht(1) by (auto simp: m_def available_def alias_lookup_find split: if_splits option.splits)
    then have "k = cstr (fst e)" using ht_find_same [OF ht(2) e(1)] by simp
    moreover have "e \<in> set (ht_entries ht)" using ht_find_mem [OF e(1)] by simp
    ultimately show "k \<in> (\<lambda>e. cstr (fst e)) ` set (ht_entries ht)" by (rule image_eqI)
  qed
  then have "finite (dom m)" by (rule finite_subset) simp
  from finite_list [OF this] obtain ks where ks: "set ks = dom m" ..
  have "map_of (map (\<lambda>k. (k, the (m k))) ks) k = m k" for k
    unfolding map_of_map_restrict ks by (cases "m k") (simp_all add: restrict_map_def domIff)
  then have "describes (map (\<lambda>k. (k, the (m k))) ks) st"
    by (simp add: describes_def) (simp add: m_def)
  then show thesis by (rule that)
qed

lemma expand_loop_total:
  assumes "alias_ok st ({#f, k#} + others)" "describes defs st" "c_string k"
    and "False \<notin> set (al_oom st)" "length f \<le> BUFSIZE" "c_string f"
  shows "expand_loop f k st = Inl BufferOverflow \<or>
    (\<exists>f' cmd st'. expand_loop f k st = Inr (f', cmd, st') \<and>
      alias_ok st' ({#f', cmd#} + others) \<and> released st' = released st \<and>
      length f' \<le> BUFSIZE \<and> c_string f' \<and> False \<notin> set (al_oom st'))"
  using assms
proof (induction "length defs" arbitrary: defs f k st rule: less_induct)
  case less
  show ?case
  proof (cases "map_of defs k")
    case None
    from expand_stop [OF less.prems(1-3) None] less.prems(1,4,5,6) show ?thesis by auto
  next
    case (Some v)
    let ?f = "take BUFSIZE v @ tail_part f"
    note step = expand_step [OF less.prems(1-4) Some]
    show ?thesis
    proof (cases "length (take BUFSIZE v) + length (tail_part f) \<le> BUFSIZE \<or> tail_part f = []")
      case False
      show ?thesis using step [unfolded if_not_P [OF False]] by (rule disjI1)
    next
      case True
      from step [unfolded if_P [OF True]] obtain st' where st': "expand_loop f k st = expand_loop ?f (first_word v) st'"
        "alias_ok st' ({#?f, first_word v#} + others)" "describes (without k defs) st'"
        "released st' = released st" "False \<notin> set (al_oom st')"
        by blast
      have v: "c_string v"
        using less.prems(2,3) Some by (auto simp: describes_def available_def split: option.splits if_splits)
      have "c_string (take BUFSIZE v)" using v by (auto simp: c_string_def dest: in_set_takeD)
      then have f: "length ?f \<le> BUFSIZE" "c_string ?f"
        using True c_string_parts(2) [OF less.prems(6)] by auto
      from less.hyps [OF without_shorter [OF Some] st'(2,3) c_string_parts(1) [OF v] st'(5) f]
      show ?thesis using st'(1,4) by simp
    qed
  qed
qed

section \<open>The whole expansion\<close>

lemma expandAlias_start:
  assumes "alias_ok st others" "False \<notin> set (al_oom st)" "c_string command"
  obtains st2 where "alias_ok st2 ({#[], first_word command#} + others)"
    "alias_lookup st2 = alias_lookup st" "False \<notin> set (al_oom st2)"
    "expandAlias command st =
      rbind (expand_loop [] (first_word command) st2) (\<lambda>(final, cmd, st3).
      rbind (buf_free cmd st3) (\<lambda>st4.
      rbind (if strlen final = 0 then Inr (strncpy command BUFSIZE)
             else append_space_tail final command) (\<lambda>final'.
      rbind (buf_write final final' st4) (\<lambda>st5.
      rbind (releaseAliases st5) (\<lambda>st6. Inr (final', st6))))))"
proof -
  obtain st1 where st1: "buf_new [] st = Inr st1" "alias_ok st1 (add_mset [] others)"
    "alias_lookup st1 = alias_lookup st" "False \<notin> set (al_oom st1)"
    using buf_new_run [OF assms(1,2)] by blast
  obtain st2 where st2: "buf_new (first_word command) st1 = Inr st2"
    "alias_ok st2 (add_mset (first_word command) (add_mset [] others))"
    "alias_lookup st2 = alias_lookup st1" "False \<notin> set (al_oom st2)"
    using buf_new_run [OF st1(2,4)] by blast
  have "alias_ok st2 ({#[], first_word command#} + others)"
    using st2(2) by (simp add: add_mset_commute)
  moreover have "alias_lookup st2 = alias_lookup st" using st1(3) st2(3) by simp
  ultimately show thesis
    by (rule that [OF _ _ st2(4)])
      (simp only: expandAlias_def cstr_id [OF assms(3)] st1(1) st2(1) rbind_Inr)
qed

lemma expandAlias_finish:
  assumes "alias_ok st3 ({#final, cmd#} + others)"
  shows "\<exists>st6. rbind (buf_free cmd st3) (\<lambda>st4. rbind (buf_write final final' st4) (\<lambda>st5.
      rbind (releaseAliases st5) (\<lambda>st6. Inr (final', st6)))) = Inr (final', st6) \<and>
    alias_ok st6 (add_mset final' others) \<and> alias_lookup st6 = released st3 \<and> al_oom st6 = al_oom st3"
proof -
  have "alias_ok st3 (add_mset cmd ({#final#} + others))"
    using assms by (simp add: add_mset_commute)
  then obtain st4 where st4: "buf_free cmd st3 = Inr st4" "alias_ok st4 ({#final#} + others)"
    "alias_lookup st4 = alias_lookup st3" "al_oom st4 = al_oom st3"
    using buf_free_run by blast
  then obtain st5 where st5: "buf_write final final' st4 = Inr st5" "alias_ok st5 (add_mset final' others)"
    "alias_lookup st5 = alias_lookup st4" "al_oom st5 = al_oom st4"
    using buf_write_run [of st4 final others] by auto
  from releaseAliases_run [OF st5(2)] obtain h where
    "releaseAliases st5 = Inr (st5\<lparr>al_cells := h\<rparr>)" "alias_ok (st5\<lparr>al_cells := h\<rparr>) (add_mset final' others)"
    "alias_lookup (st5\<lparr>al_cells := h\<rparr>) = released st5"
    by (auto simp: released_def)
  moreover have "released st5 = released st3"
    using st4(3) st5(3) by (simp add: released_def)
  ultimately show ?thesis using st4(1,4) st5(1,4) by auto
qed


section \<open>Properties of word expansion\<close>

lemma strdup_run: "False \<notin> set oom \<Longrightarrow>
    \<exists>oom'. strdup s oom strings = (Some (cstr s), oom', add_mset (cstr s) strings) \<and> False \<notin> set oom'"
  using alloc_ok_False [of oom] alloc_ok_subset [of oom]
  by (cases "alloc_ok oom") (auto simp: strdup_def str_new_def)

definition single :: "(string \<Rightarrow> string list option) \<Rightarrow> string \<Rightarrow> string option" where
  "single wordexp s =
     (case wordexp s of None \<Rightarrow> None | Some w \<Rightarrow> if length w = 1 then Some (cstr (w ! 0)) else None)"

lemma expand_run: "False \<notin> set oom \<Longrightarrow>
    \<exists>oom'. expand wordexp s oom strings =
      (single wordexp s, oom', mset (case single wordexp s of None \<Rightarrow> [] | Some t \<Rightarrow> [t]) + strings) \<and>
      False \<notin> set oom'"
  using strdup_run [of oom] by (auto simp: expand_def single_def split: option.splits)

lemma dup_words_run: "False \<notin> set oom \<Longrightarrow>
    \<exists>oom'. dup_words ws oom strings =
      (map (\<lambda>w. Some (cstr w)) ws, oom', mset (map cstr ws) + strings) \<and> False \<notin> set oom'"
proof (induction ws arbitrary: oom strings)
  case (Cons w ws)
  obtain oom1 where s: "strdup w oom strings = (Some (cstr w), oom1, add_mset (cstr w) strings)"
    "False \<notin> set oom1" using strdup_run [OF Cons.prems] by blast
  from Cons.IH [OF s(2), of "add_mset (cstr w) strings"] s(1) show ?case by auto
qed simp

lemma expandGlob_run:
  assumes "live_at h a" "False \<notin> set oom" "wordexp cmd = Some ws"
  shows "\<exists>c oom'. expandGlob wordexp (Some a) cmd oom (h, strings) =
      Inr (0, oom', h[a := Some c], mset (map cstr ws) + strings) \<and>
    c = (object_at h a)\<lparr>argv := Some (map Some (map cstr ws) @ [None])\<rparr> \<and> False \<notin> set oom'"
proof -
  obtain ok oom1 where al: "alloc_ok oom = (ok, oom1)" by fastforce
  then have ok: "ok" "False \<notin> set oom1"
    using assms(2) alloc_ok_False [of oom] alloc_oom by auto
  from dup_words_run [OF ok(2), of ws strings] obtain oom2 where
    d: "dup_words ws oom1 strings = (map (\<lambda>w. Some (cstr w)) ws, oom2, mset (map cstr ws) + strings)"
    "False \<notin> set oom2" by blast
  have words: "map (\<lambda>w. Some (cstr w)) ws = map Some (map cstr ws)" by simp
  show ?thesis
    using assms(1,3) al ok d by (simp add: expandGlob_def words load_live store_live)
qed

text \<open>\<open>expandGlob\<close> gives the command exactly the words of \<open>wordexp\<close>, in order and followed
  by NULL, and allocates one fresh copy of each; nothing else of the command and no other
  command changes. When \<open>wordexp\<close> fails it returns -1 and changes nothing.\<close>

theorem expandGlob_words:
  assumes "live_at h a" "False \<notin> set oom"
  shows "case wordexp cmd of
      None \<Rightarrow> expandGlob wordexp (Some a) cmd oom (h, strings) = Inr (- 1, oom, h, strings)
    | Some ws \<Rightarrow> \<exists>c oom'. expandGlob wordexp (Some a) cmd oom (h, strings) =
          Inr (0, oom', h[a := Some c], mset (words_of c) + strings) \<and>
        words_of c = map cstr ws \<and> command_ok c \<and> c = (object_at h a)\<lparr>argv := argv c\<rparr>"
proof (cases "wordexp cmd")
  case None
  then show ?thesis by (simp add: expandGlob_def)
next
  case (Some ws)
  let ?c = "(object_at h a)\<lparr>argv := Some (map Some (map cstr ws) @ [None])\<rparr>"
  have c: "words_of ?c = map cstr ws" "command_ok ?c"
    by (simp_all add: words_of_def command_ok_def del: map_map)
  from expandGlob_run [OF assms, of wordexp cmd ws strings] Some obtain oom' where
    "expandGlob wordexp (Some a) cmd oom (h, strings) =
      Inr (0, oom', h[a := Some ?c], mset (words_of ?c) + strings)"
    unfolding c(1) by blast
  with c Some show ?thesis by (auto simp del: map_map)
qed

theorem expandGlob_words_witness:
  "\<exists>c oom'. expandGlob (\<lambda>s. if s = ''ls *.c'' then Some [''ls'', ''a.c'', ''b.c''] else None)
      (Some 0) ''ls *.c'' [] ([Some blank_command], {#}) = Inr (0, oom', [Some c], mset (words_of c)) \<and>
     words_of c = [''ls'', ''a.c'', ''b.c'']"
proof -
  have "live_at [Some blank_command] 0" by (simp add: live_at_def)
  from expandGlob_words [OF this, where oom = "[]" and cmd = "''ls *.c''" and strings = "{#}"
      and wordexp = "\<lambda>s. if s = ''ls *.c'' then Some [''ls'', ''a.c'', ''b.c''] else None"]
  show ?thesis by (auto simp: cstr_def NUL_def)
qed

section \<open>Properties of alias expansion\<close>

text \<open>The aliases after some calls, for concrete inputs.\<close>

definition aliases_after :: "alias_call list \<Rightarrow> alias_state" where
  "aliases_after calls =
     (case initializeAliases no_aliases of
        Inl _ \<Rightarrow> no_aliases
      | Inr st1 \<Rightarrow> (case do_calls calls st1 of Inl _ \<Rightarrow> no_aliases | Inr (rs, st2) \<Rightarrow> st2))"

lemma aliases_after_ok:
  assumes "length calls \<le> 536870914"
  shows "alias_ok (aliases_after calls) {#}" "False \<notin> set (al_oom (aliases_after calls))"
    "alias_lookup (aliases_after calls) = snd (spec_calls calls (\<lambda>_. None))"
proof -
  have "False \<notin> set (al_oom no_aliases)" by (simp add: no_aliases_def)
  then obtain st1 where st1: "initializeAliases no_aliases = Inr st1" "alias_ok st1 (al_strings no_aliases)"
    "alias_lookup st1 = (\<lambda>_. None)" "alias_count st1 = 0" "False \<notin> set (al_oom st1)"
    by (rule session_start)
  obtain rs st2 where st2: "do_calls calls st1 = Inr (rs, st2)" "alias_ok st2 (al_strings no_aliases)"
    "spec_calls calls (alias_lookup st1) = (rs, alias_lookup st2)" "False \<notin> set (al_oom st2)"
    using alias_calls_ok [OF st1(2) _ st1(5), of calls] st1(4) assms by fastforce
  have "aliases_after calls = st2" using st1(1) st2(1) by (simp add: aliases_after_def)
  then show "alias_ok (aliases_after calls) {#}" "False \<notin> set (al_oom (aliases_after calls))"
    "alias_lookup (aliases_after calls) = snd (spec_calls calls (\<lambda>_. None))"
    using st2 st1(3) by (auto simp: no_aliases_def)
qed

lemma expandAlias_rewrites_run:
  assumes "alias_ok st others" "describes defs st" "False \<notin> set (al_oom st)"
    and "c_string command" "length command \<le> BUFSIZE" "rewrite_fits defs command"
  shows "\<exists>st'. expandAlias command st = Inr (alias_rewrite defs command, st') \<and>
    alias_ok st' (add_mset (alias_rewrite defs command) others) \<and> alias_lookup st' = released st \<and> False \<notin> set (al_oom st')"
proof -
  obtain st2 where st2: "alias_ok st2 ({#[], first_word command#} + others)"
    "alias_lookup st2 = alias_lookup st" "False \<notin> set (al_oom st2)"
    "expandAlias command st =
      rbind (expand_loop [] (first_word command) st2) (\<lambda>(final, cmd, st3).
      rbind (buf_free cmd st3) (\<lambda>st4.
      rbind (if strlen final = 0 then Inr (strncpy command BUFSIZE)
             else append_space_tail final command) (\<lambda>final'.
      rbind (buf_write final final' st4) (\<lambda>st5.
      rbind (releaseAliases st5) (\<lambda>st6. Inr (final', st6))))))"
    using assms(1,3,4) by (rule expandAlias_start)
  have d: "describes defs st2" using assms(2) describes_lookup [OF st2(2)] by simp
  have "tail_part command = tail_part [] @ tail_part command" by (simp add: tail_part_def)
  from expand_loop_run [OF st2(1) d assms(4) this assms(6) st2(3)] obtain f' cmd st3 where
    l: "expand_loop [] (first_word command) st2 = Inr (f', cmd, st3)" "alias_ok st3 ({#f', cmd#} + others)"
    "released st3 = released st2" "if map_of defs (first_word command) = None then f' = []
      else f' \<noteq> [] \<and> c_string f' \<and> alias_rewrite defs command = f' @ tail_part command"
    "False \<notin> set (al_oom st3)"
    by blast
  have "(if strlen f' = 0 then Inr (strncpy command BUFSIZE) else append_space_tail f' command) =
      Inr (alias_rewrite defs command)"
  proof (cases "map_of defs (first_word command)")
    case None
    then show ?thesis using l(4) assms(5)
      by (simp add: strlen_def strncpy_def alias_rewrite.simps [of defs command])
  next
    case (Some v)
    then have f': "f' \<noteq> []" "c_string f'" "alias_rewrite defs command = f' @ tail_part command"
      using l(4) by auto
    have "length (f' @ tail_part command) \<le> BUFSIZE"
      using rewrite_fits_length [OF assms(6,5)] f'(3) by simp
    then show ?thesis using f' by (simp add: strlen_def append_space_tail_eq)
  qed
  with expandAlias_finish [OF l(2), of "alias_rewrite defs command"] l(1,3,5) st2(2,4)
  show ?thesis by (auto simp: released_def)
qed

text \<open>C5. As long as every intermediate line fits \<open>BUFSIZE\<close> bytes and no alias on the way is
  empty, \<open>expandAlias\<close> returns the line with its first word replaced by its alias again and
  again, each alias at most once (so recursive definitions end), leaves every alias ready for
  the next line, and owns exactly the returned buffer: every other buffer has been freed.\<close>

theorem expandAlias_rewrites:
  assumes "alias_ok st others" "describes defs st" "False \<notin> set (al_oom st)"
    and "c_string command" "length command \<le> BUFSIZE" "rewrite_fits defs command"
  shows "\<exists>st'. expandAlias command st = Inr (alias_rewrite defs command, st') \<and>
    alias_ok st' (add_mset (alias_rewrite defs command) others) \<and> alias_lookup st' = released st"
  using expandAlias_rewrites_run [OF assms] by blast

theorem expandAlias_rewrites_witness:
  "\<exists>st'. expandAlias ''ll /tmp'' (aliases_after [Add ''ll'' ''ls -l'', Add ''ls'' ''ls --color'']) =
     Inr (''ls --color -l /tmp'', st')"
proof -
  let ?calls = "[Add ''ll'' ''ls -l'', Add ''ls'' ''ls --color'']"
  let ?defs = "[(''ll'', ''ls -l''), (''ls'', ''ls --color'')]"
  have "length ?calls \<le> 536870914" by simp
  note ok = aliases_after_ok [OF this]
  have "cstr ''ll'' = ''ll''" "cstr ''ls'' = ''ls''" "cstr ''ls -l'' = ''ls -l''"
    "cstr ''ls --color'' = ''ls --color''"
    by (simp_all add: cstr_def NUL_def)
  then have d: "describes ?defs (aliases_after ?calls)"
    by (auto simp: describes_def available_def ok(3))
  have "c_string ''ll /tmp''" "length ''ll /tmp'' \<le> BUFSIZE" "rewrite_fits ?defs ''ll /tmp''"
    "alias_rewrite ?defs ''ll /tmp'' = ''ls --color -l /tmp''"
    by code_simp+
  with expandAlias_rewrites [OF ok(1) d ok(2), of "''ll /tmp''"] show ?thesis by auto
qed


lemma expandAlias_total_run:
  assumes "alias_ok st others" "False \<notin> set (al_oom st)" "c_string command"
  shows "expandAlias command st = Inl BufferOverflow \<or>
    (\<exists>final st'. expandAlias command st = Inr (final, st') \<and> length final \<le> BUFSIZE \<and> c_string final \<and>
      alias_ok st' (add_mset final others) \<and> alias_lookup st' = released st \<and>
      False \<notin> set (al_oom st'))"
proof -
  obtain st2 where st2: "alias_ok st2 ({#[], first_word command#} + others)"
    "alias_lookup st2 = alias_lookup st" "False \<notin> set (al_oom st2)"
    "expandAlias command st =
      rbind (expand_loop [] (first_word command) st2) (\<lambda>(final, cmd, st3).
      rbind (buf_free cmd st3) (\<lambda>st4.
      rbind (if strlen final = 0 then Inr (strncpy command BUFSIZE)
             else append_space_tail final command) (\<lambda>final'.
      rbind (buf_write final final' st4) (\<lambda>st5.
      rbind (releaseAliases st5) (\<lambda>st6. Inr (final', st6))))))"
    using assms by (rule expandAlias_start)
  obtain defs where d: "describes defs st2" using st2(1) by (rule describes_exists)
  consider "expand_loop [] (first_word command) st2 = Inl BufferOverflow"
    | f' cmd st3 where "expand_loop [] (first_word command) st2 = Inr (f', cmd, st3)"
        "alias_ok st3 ({#f', cmd#} + others)" "released st3 = released st2"
        "length f' \<le> BUFSIZE" "c_string f'" "False \<notin> set (al_oom st3)"
    using expand_loop_total [OF st2(1) d c_string_parts(1) [OF assms(3)] st2(3)] by auto
  then show ?thesis
  proof cases
    case 1
    then show ?thesis using st2(4) by simp
  next
    case 2
    let ?r = "if strlen f' = 0 then Inr (strncpy command BUFSIZE) else append_space_tail f' command"
    have "?r = Inl BufferOverflow \<or> (\<exists>final. ?r = Inr final \<and> length final \<le> BUFSIZE \<and> c_string final)"
      using 2(4,5) c_string_parts(2) [OF assms(3)] assms(3)
      by (auto simp: strncpy_def append_space_tail_eq c_string_def dest: in_set_takeD)
    then show ?thesis
    proof (elim disjE exE conjE)
      assume "?r = Inl BufferOverflow"
      moreover have "alias_ok st3 (add_mset cmd ({#f'#} + others))"
        using 2(2) by (simp add: add_mset_commute)
      then obtain st4 where "buf_free cmd st3 = Inr st4" using buf_free_run by blast
      ultimately show ?thesis using st2(4) 2(1) by simp
    next
      fix final assume r: "?r = Inr final" "length final \<le> BUFSIZE" "c_string final"
      with expandAlias_finish [OF 2(2), of final] 2(1,3,6) st2(2,4)
      show ?thesis by (auto simp: released_def)
    qed
  qed
qed

text \<open>C27. With enough memory \<open>expandAlias\<close> always returns: whatever the aliases are, recursive
  ones included, its loop ends. Either the expansion is a string of at most \<open>BUFSIZE\<close> bytes and
  the aliases are all released again, or the buffer of \<open>BUFSIZE + 1\<close> bytes overflows on the way;
  no other fault is possible.\<close>

theorem expandAlias_total:
  assumes "alias_ok st others" "False \<notin> set (al_oom st)" "c_string command"
  shows "expandAlias command st = Inl BufferOverflow \<or>
    (\<exists>final st'. expandAlias command st = Inr (final, st') \<and> length final \<le> BUFSIZE \<and> c_string final \<and>
      alias_ok st' (add_mset final others) \<and> alias_lookup st' = released st)"
  using expandAlias_total_run [OF assms] by blast

theorem expandAlias_total_witness:
  "expandAlias ''a x'' (aliases_after [Add ''a'' ''b'', Add ''b'' ''a'']) = Inl BufferOverflow \<or>
   (\<exists>final st'. expandAlias ''a x'' (aliases_after [Add ''a'' ''b'', Add ''b'' ''a'']) = Inr (final, st') \<and>
     length final \<le> BUFSIZE)"
proof -
  have "length [Add ''a'' ''b'', Add ''b'' ''a''] \<le> 536870914" "c_string ''a x''"
    by (simp_all add: NUL_def)
  from expandAlias_total [OF aliases_after_ok(1,2) [OF this(1)] this(2)] show ?thesis by blast
qed

text \<open>C28. The buffer does overflow: when an alias followed by the rest of its line is longer than
  \<open>BUFSIZE\<close>, the final \<open>strcat\<close> of \<open>expandAlias\<close> writes behind the \<open>BUFSIZE + 1\<close> bytes of the
  buffer, although the line and the alias each fit.\<close>

theorem expandAlias_overflow:
  assumes "alias_ok st others" "describes defs st" "False \<notin> set (al_oom st)" "c_string command"
    and "map_of defs (first_word command) = Some v" "v \<noteq> []"
    and "map_of defs (first_word v) = None" "tail_part command \<noteq> []"
    and "BUFSIZE < length v + length (tail_part command)"
  shows "expandAlias command st = Inl BufferOverflow"
proof -
  obtain st2 where st2: "alias_ok st2 ({#[], first_word command#} + others)"
    "alias_lookup st2 = alias_lookup st" "False \<notin> set (al_oom st2)"
    "expandAlias command st =
      rbind (expand_loop [] (first_word command) st2) (\<lambda>(final, cmd, st3).
      rbind (buf_free cmd st3) (\<lambda>st4.
      rbind (if strlen final = 0 then Inr (strncpy command BUFSIZE)
             else append_space_tail final command) (\<lambda>final'.
      rbind (buf_write final final' st4) (\<lambda>st5.
      rbind (releaseAliases st5) (\<lambda>st6. Inr (final', st6))))))"
    using assms(1,3,4) by (rule expandAlias_start)
  have d: "describes defs st2" using assms(2) describes_lookup [OF st2(2)] by simp
  note k = c_string_parts(1) [OF assms(4)]
  have v: "c_string v"
    using assms(2,5) k by (auto simp: describes_def available_def split: option.splits if_splits)
  have "tail_part [] = []" by (simp add: tail_part_def)
  with expand_step [OF st2(1) d k st2(3) assms(5)] obtain st3 where
    s: "expand_loop [] (first_word command) st2 = expand_loop (take BUFSIZE v) (first_word v) st3"
    "alias_ok st3 ({#take BUFSIZE v, first_word v#} + others)"
    "describes (without (first_word command) defs) st3"
    by auto
  have "map_of (without (first_word command) defs) (first_word v) = None"
    using assms(7) by (simp add: map_of_without)
  from expand_stop [OF s(2,3) c_string_parts(1) [OF v] this]
  have l: "expand_loop [] (first_word command) st2 = Inr (take BUFSIZE v, first_word v, st3)"
    using s(1) by simp
  have "alias_ok st3 (add_mset (first_word v) ({#take BUFSIZE v#} + others))"
    using s(2) by (simp add: add_mset_commute)
  then obtain st4 where f: "buf_free (first_word v) st3 = Inr st4" using buf_free_run by blast
  have "c_string (take BUFSIZE v)" using v by (auto simp: c_string_def dest: in_set_takeD)
  then have "strlen (take BUFSIZE v) \<noteq> 0" using assms(6) by (simp add: strlen_def BUFSIZE_def)
  moreover have "0 < length (tail_part command)" using assms(8) by simp
  then have "\<not> min (length v) BUFSIZE + length (tail_part command) \<le> BUFSIZE"
    using assms(9) by (auto simp: min_def)
  ultimately show ?thesis
    using st2(4) l f assms(8,9) by (simp add: append_space_tail_eq)
qed

theorem expandAlias_overflow_witness:
  "expandAlias (''x '' @ replicate 600 (CHR ''b''))
     (aliases_after [Add ''x'' (replicate 600 (CHR ''a''))]) = Inl BufferOverflow"
proof -
  let ?v = "replicate 600 (CHR ''a'')" and ?c = "''x '' @ replicate 600 (CHR ''b'')"
  have v: "c_string ?v" by (simp add: c_string_def NUL_def)
  have c: "c_string ?c" by (simp add: c_string_def NUL_def)
  have "length [Add ''x'' ?v] \<le> 536870914" by simp
  note ok = aliases_after_ok [OF this]
  have x: "cstr ''x'' = ''x''" by (simp add: cstr_def NUL_def)
  have d: "describes [(''x'', ?v)] (aliases_after [Add ''x'' ?v])"
    using v x by (auto simp: describes_def available_def ok(3))
  have "first_word ?c = ''x''" "tail_part ?c = '' '' @ replicate 600 (CHR ''b'')"
    "first_word ?v = ?v"
    using first_word_eq [OF v] first_word_eq [OF c] by (simp_all add: tail_part_def)
  moreover have "?v \<noteq> ''x''" by (simp add: numeral_eq_Suc)
  ultimately show ?thesis
    by (intro expandAlias_overflow [OF ok(1) d ok(2) c, of ?v]) (simp_all add: BUFSIZE_def)
qed


section \<open>For the parser\<close>

lemma expandAlias_cstr: "expandAlias command st = expandAlias (cstr command) st"
  by (simp only: expandAlias_def cstr_idem)

lemma expandAlias_outcome:
  assumes "alias_ok st others" "describes defs st" "False \<notin> set (al_oom st)"
    and "c_string command" "length command \<le> BUFSIZE"
  shows "expandAlias command st = Inl BufferOverflow \<and> \<not> rewrite_fits defs command \<or>
    (\<exists>final st'. expandAlias command st = Inr (final, st') \<and> alias_ok st' (add_mset final others) \<and>
      alias_lookup st' = released st \<and> False \<notin> set (al_oom st') \<and>
      (rewrite_fits defs command \<longrightarrow> final = alias_rewrite defs command))"
proof (cases "rewrite_fits defs command")
  case True
  from expandAlias_rewrites_run [OF assms True] show ?thesis by auto
next
  case False
  with expandAlias_total_run [OF assms(1,3,4)] show ?thesis by blast
qed

end
