(* ===== verification/Builtins.thy ===== *)
theory Builtins
  imports Helper
begin

text \<open>
  builtins.c and the dispatch over its table. \<open>shell\<close> is what the builtins act on: the aliases
  (with the heap strings and the allocation outcomes), the environment, the working directory and
  the two output streams. \<open>chdir\<close> is the system call, a parameter: for the working directory and
  the path argument it gives the new directory or the text of the error. A builtin returns its
  status, or \<open>None\<close> when it has ended the process. \<open>argv\<close> is an array whose last entry is NULL;
  reading behind the array is a fault.
\<close>

section \<open>Data\<close>

record shell =
  sh_aliases :: alias_state
  sh_env :: "string \<Rightarrow> string option"
  sh_cwd :: string
  sh_out :: string
  sh_err :: string

type_synonym builtin = "string option list \<Rightarrow> shell \<Rightarrow> fault + (int option \<times> shell)"
type_synonym chdir_call = "string \<Rightarrow> string option \<Rightarrow> string + string"

definition newline :: string where
  "newline = [CHR 0x0A]"

definition first_entry :: "string option list \<Rightarrow> fault + string option" where
  "first_entry args = (case args of [] \<Rightarrow> Inl OutOfBounds | a # _ \<Rightarrow> Inr a)"

definition put_out :: "string \<Rightarrow> shell \<Rightarrow> shell" where
  "put_out s sh = sh\<lparr>sh_out := sh_out sh @ s\<rparr>"

definition put_err :: "string \<Rightarrow> shell \<Rightarrow> shell" where
  "put_err s sh = sh\<lparr>sh_err := sh_err sh @ s\<rparr>"

definition perror :: "string option \<Rightarrow> string \<Rightarrow> shell \<Rightarrow> shell" where
  "perror s msg =
     put_err ((case s of None \<Rightarrow> [] | Some p \<Rightarrow> if cstr p = [] then [] else cstr p @ '': '') @ msg @ newline)"

text \<open>\<open>setenv(key, value, 1)\<close>: -1 for an empty name or a name with \<open>=\<close>.\<close>

definition setenv :: "string \<Rightarrow> string \<Rightarrow> shell \<Rightarrow> int \<times> shell" where
  "setenv key val sh =
     (if key = [] \<or> CHR ''='' \<in> set key then (- 1, sh)
      else (0, sh\<lparr>sh_env := (sh_env sh)(key \<mapsto> val)\<rparr>))"

section \<open>The commands\<close>

fun echo_loop :: "string option list \<Rightarrow> string \<Rightarrow> fault + string" where
  "echo_loop [] out = Inl OutOfBounds"
| "echo_loop (None # args) out = Inr out"
| "echo_loop (Some s # args) out =
     rbind (first_entry args) (\<lambda>a.
       echo_loop args (out @ cstr s @ (if a \<noteq> None then '' '' else [])))"

definition cmd_echo :: builtin where
  "cmd_echo args sh =
     rbind (echo_loop args []) (\<lambda>out. Inr (Some 0, put_out (out @ newline) sh))"

text \<open>The copy of the argument is cut at its \<open>=\<close> in place: the block then holds the key.\<close>

definition cmd_export :: builtin where
  "cmd_export args sh =
     rbind (first_entry args) (\<lambda>a.
       case a of
         None \<Rightarrow> Inl NullPointer
       | Some s \<Rightarrow>
           rbind (buf_new (cstr s) (sh_aliases sh)) (\<lambda>al1.
             case strstr (cstr s) ''='' of
               None \<Rightarrow>
                 rbind (buf_free (cstr s) al1) (\<lambda>al2. Inr (Some (- 1), sh\<lparr>sh_aliases := al2\<rparr>))
             | Some ptr \<Rightarrow>
                 let key = take (length (cstr s) - length ptr) (cstr s) in
                 rbind (buf_write (cstr s) key al1) (\<lambda>al2.
                 let (status, sh1) = setenv key (tl ptr) sh in
                 rbind (buf_free key al2) (\<lambda>al3.
                   Inr (Some status, sh1\<lparr>sh_aliases := al3\<rparr>)))))"

text \<open>\<open>getcwd\<close> gives NULL when the path and its NUL do not fit the buffer.\<close>

definition getcwd :: "nat \<Rightarrow> shell \<Rightarrow> string option" where
  "getcwd n sh = (if length (sh_cwd sh) < n then Some (sh_cwd sh) else None)"

definition cmd_pwd :: builtin where
  "cmd_pwd args sh =
     (case getcwd BUFSIZE sh of
        None \<Rightarrow> Inl NullPointer
      | Some dir \<Rightarrow> Inr (Some 0, put_out (dir @ newline) sh))"

definition cmd_cd :: "chdir_call \<Rightarrow> builtin" where
  "cmd_cd chdir args sh =
     rbind (first_entry args) (\<lambda>a.
       let p = (if a = None then sh_env sh ''HOME'' else map_option cstr a) in
       case chdir (sh_cwd sh) p of
         Inl msg \<Rightarrow> Inr (Some (- 1), perror p msg sh)
       | Inr dir \<Rightarrow> Inr (Some 0, sh\<lparr>sh_cwd := dir\<rparr>))"

definition cmd_exit :: builtin where
  "cmd_exit args sh = Inr (None, put_out (''Bye!'' @ newline) sh)"

text \<open>A NULL key is dereferenced by the hash function of the table.\<close>

definition cmd_alias :: builtin where
  "cmd_alias args sh =
     rbind (first_entry args) (\<lambda>a.
       case a of
         None \<Rightarrow> rbind (printAliases (sh_aliases sh)) (\<lambda>out. Inr (Some 0, put_out out sh))
       | Some s \<Rightarrow>
           rbind (buf_new (cstr s) (sh_aliases sh)) (\<lambda>al1.
             case strstr (cstr s) ''='' of
               None \<Rightarrow>
                 rbind (buf_free (cstr s) al1) (\<lambda>al2. Inr (Some (- 1), sh\<lparr>sh_aliases := al2\<rparr>))
             | Some ptr \<Rightarrow>
                 let k = take (length (cstr s) - length ptr) (cstr s) in
                 rbind (buf_write (cstr s) k al1) (\<lambda>al2.
                 let (key, oom1, strings1) = strdup k (al_oom al2) (al_strings al2);
                     (val, oom2, strings2) = strdup (tl ptr) oom1 strings1 in
                 rbind (str_free k strings2) (\<lambda>strings3.
                   case key of
                     None \<Rightarrow> Inl NullPointer
                   | Some key' \<Rightarrow>
                       rbind (add_alias_value key' val (al2\<lparr>al_strings := strings3, al_oom := oom2\<rparr>))
                         (\<lambda>al3. Inr (Some 0, sh\<lparr>sh_aliases := al3\<rparr>))))))"

definition unalias_usage :: string where
  "unalias_usage = ''unalias: not enough arguments'' @ newline"

definition cmd_unalias :: builtin where
  "cmd_unalias args sh =
     rbind (first_entry args) (\<lambda>a.
       case a of
         None \<Rightarrow> Inr (Some (- 1), put_err unalias_usage sh)
       | Some s \<Rightarrow>
           rbind (removeAlias s (sh_aliases sh)) (\<lambda>al. Inr (Some 0, sh\<lparr>sh_aliases := al\<rparr>)))"

section \<open>The table and its two searches\<close>

definition builtin_table :: "chdir_call \<Rightarrow> (string \<times> builtin) list" where
  "builtin_table chdir =
     [(''alias'', cmd_alias), (''cd'', cmd_cd chdir), (''echo'', cmd_echo), (''exit'', cmd_exit),
      (''export'', cmd_export), (''pwd'', cmd_pwd), (''unalias'', cmd_unalias)]"

fun is_builtin_loop :: "(string \<times> builtin) list \<Rightarrow> string \<Rightarrow> int" where
  "is_builtin_loop [] cmd = 0"
| "is_builtin_loop (p # ps) cmd = (if strcmp (fst p) cmd \<noteq> 0 then is_builtin_loop ps cmd else 1)"

definition isBuiltin :: "chdir_call \<Rightarrow> string option \<Rightarrow> fault + int" where
  "isBuiltin chdir cmd =
     (case cmd of None \<Rightarrow> Inl NullPointer | Some c \<Rightarrow> Inr (is_builtin_loop (builtin_table chdir) c))"

text \<open>\<open>_executeBuiltinCommand\<close>: 0 after running the builtin, whose own status is lost; -1 for
  another command.\<close>

fun run_builtin_loop ::
    "(string \<times> builtin) list \<Rightarrow> string option list \<Rightarrow> shell \<Rightarrow> fault + (int option \<times> shell)" where
  "run_builtin_loop [] cmd sh = Inr (Some (- 1), sh)"
| "run_builtin_loop (p # ps) cmd sh =
     rbind (first_entry cmd) (\<lambda>a.
       case a of
         None \<Rightarrow> Inl NullPointer
       | Some name \<Rightarrow>
           if strcmp (fst p) name \<noteq> 0 then run_builtin_loop ps cmd sh
           else rbind (snd p (tl cmd) sh) (\<lambda>(r, sh1).
                  Inr (map_option (\<lambda>_. 0) r, sh1)))"

definition executeBuiltinCommand ::
    "chdir_call \<Rightarrow> string option list option \<Rightarrow> shell \<Rightarrow> fault + (int option \<times> shell)" where
  "executeBuiltinCommand chdir cmd sh =
     (case cmd of None \<Rightarrow> Inl NullPointer | Some args \<Rightarrow> run_builtin_loop (builtin_table chdir) args sh)"

section \<open>The alias and export commands\<close>

text \<open>Between commands every string belongs to the aliases or to \<open>others\<close>, and memory suffices.\<close>

definition shell_ok :: "strheap \<Rightarrow> shell \<Rightarrow> bool" where
  "shell_ok others sh \<longleftrightarrow>
     alias_ok (sh_aliases sh) others \<and> alias_count (sh_aliases sh) < 536870914 \<and>
     False \<notin> set (al_oom (sh_aliases sh))"

lemma shell_okE:
  assumes "shell_ok others sh"
  obtains "alias_ok (sh_aliases sh) others" "alias_count (sh_aliases sh) < 536870914"
    "False \<notin> set (al_oom (sh_aliases sh))"
  using assms by (simp add: shell_ok_def)

lemma buf_tables:
  "buf_new s st = Inr st' \<Longrightarrow> al_table st' = al_table st"
  "buf_free s st = Inr st' \<Longrightarrow> al_table st' = al_table st"
  "buf_write s t st = Inr st' \<Longrightarrow> al_table st' = al_table st"
  by (auto simp: buf_new_def buf_free_def buf_write_def rbind_eq_Inr_iff Let_def
      split: prod.splits if_splits)

lemma buf_counts:
  "buf_new s st = Inr st' \<Longrightarrow> alias_count st' = alias_count st"
  "buf_free s st = Inr st' \<Longrightarrow> alias_count st' = alias_count st"
  "buf_write s t st = Inr st' \<Longrightarrow> alias_count st' = alias_count st"
  using buf_tables by (simp_all add: alias_count_def)

lemma split_at_char:
  assumes "c \<in> set s"
  shows "\<exists>k v. s = k @ c # v \<and> c \<notin> set k \<and> strstr s [c] = Some (c # v)"
proof -
  have "s = takeWhile (\<lambda>d. d \<noteq> c) s @ dropWhile (\<lambda>d. d \<noteq> c) s" by simp
  moreover obtain v where "dropWhile (\<lambda>d. d \<noteq> c) s = c # v"
    using assms dropWhile_eq_Nil_conv [of "\<lambda>d. d \<noteq> c" s] hd_dropWhile [of "\<lambda>d. d \<noteq> c" s]
    by (cases "dropWhile (\<lambda>d. d \<noteq> c) s") auto
  ultimately show ?thesis
    using assms by (metis (mono_tags, lifting) set_takeWhileD strstr_char)
qed

lemma strstr_split: "c \<notin> set k \<Longrightarrow> strstr (k @ c # v) [c] = Some (c # v)"
  by (induction k) auto

lemma cmd_alias_run:
  assumes ok: "shell_ok others sh" and s: "cstr s = k @ CHR ''='' # v" "CHR ''='' \<notin> set k"
  shows "\<exists>al. cmd_alias (Some s # args) sh = Inr (Some 0, sh\<lparr>sh_aliases := al\<rparr>) \<and> alias_ok al others \<and>
    False \<notin> set (al_oom al) \<and> alias_count al \<le> Suc (alias_count (sh_aliases sh)) \<and>
    alias_lookup al = (\<lambda>j. if k = cstr j then Some \<lparr>alias_value = Some v, in_use = 0\<rparr>
                          else alias_lookup (sh_aliases sh) j)"
proof -
  from ok obtain a: "alias_ok (sh_aliases sh) others" "alias_count (sh_aliases sh) < 536870914"
    "False \<notin> set (al_oom (sh_aliases sh))" by (rule shell_okE)
  have "c_string (cstr s)" by simp
  then have kv: "c_string k" "c_string v" unfolding s(1) by simp_all
  obtain al1 where al1: "buf_new (cstr s) (sh_aliases sh) = Inr al1" "alias_ok al1 (add_mset (cstr s) others)"
    "alias_lookup al1 = alias_lookup (sh_aliases sh)" "False \<notin> set (al_oom al1)"
    using buf_new_run [OF a(1,3)] by blast
  obtain al2 where al2: "buf_write (cstr s) k al1 = Inr al2" "alias_ok al2 (add_mset k others)"
    "alias_lookup al2 = alias_lookup al1" "al_oom al2 = al_oom al1"
    using buf_write_run [OF al1(2)] by blast
  have mem: "False \<notin> set (al_oom al2)" using al1(4) al2(4) by simp
  obtain oom1 where d1: "strdup k (al_oom al2) (al_strings al2) = (Some k, oom1, add_mset k (al_strings al2))"
    "False \<notin> set oom1"
    using strdup_run [OF mem, of k] kv(1) by auto
  obtain oom2 where d2: "strdup v oom1 (add_mset k (al_strings al2)) = (Some v, oom2, add_mset v (add_mset k (al_strings al2)))"
    "False \<notin> set oom2"
    using strdup_run [OF d1(2), of v] kv(2) by auto
  let ?al3 = "al2\<lparr>al_strings := add_mset v (al_strings al2), al_oom := oom2\<rparr>"
  have "alias_ok (al2\<lparr>al_strings := al_strings al2 - {#} + {#v#}, al_oom := oom2\<rparr>) ({#v#} + add_mset k others)"
    using alias_ok_swap(2) [where st = al2 and A = "{#}" and B = "{#v#}" and oom = oom2
        and others = "add_mset k others"] al2(2) by simp
  moreover have "al2\<lparr>al_strings := al_strings al2 - {#} + {#v#}, al_oom := oom2\<rparr> = ?al3" by simp
  ultimately have ok3: "alias_ok ?al3 ({#k, v#} + others)" by (simp add: add_mset_commute)
  have count: "alias_count ?al3 = alias_count (sh_aliases sh)"
    using buf_counts(1) [OF al1(1)] buf_counts(3) [OF al2(1)] by (simp add: alias_count_def)
  then have "alias_roomy ?al3" using alias_roomyI [OF ok3] a(2) by simp
  moreover have "fst (alloc_ok (al_oom ?al3))" using d2(2) alloc_ok_False [of oom2] by auto
  ultimately obtain al where al: "addAlias k v ?al3 = Inr al" "alias_ok al others"
    "alias_count al \<le> Suc (alias_count ?al3)"
    "alias_lookup al = (\<lambda>j. if cstr k = cstr j then Some \<lparr>alias_value = Some v, in_use = 0\<rparr>
                          else alias_lookup ?al3 j)"
    using addAlias_run [OF ok3] d2(2) by auto
  have look: "alias_lookup ?al3 = alias_lookup (sh_aliases sh)"
    using al1(3) al2(3) by (simp add: alias_lookup_def fun_eq_iff)
  have "cmd_alias (Some s # args) sh = Inr (Some 0, sh\<lparr>sh_aliases := al\<rparr>)"
    using al(1) d1(1) d2(1) al2(1) al1(1) s strstr_split [OF s(2)]
    by (simp add: cmd_alias_def first_entry_def addAlias_def str_free_def Let_def add_mset_commute)
  moreover have "False \<notin> set (al_oom al)" using addAlias_oom [OF al(1)] d2(2) by auto
  ultimately show ?thesis
    using al(2-4) kv(1) unfolding look count by (intro exI [of _ al]) simp
qed

text \<open>An argument without \<open>=\<close> is copied and freed again.\<close>

lemma dup_and_free:
  assumes "shell_ok others sh"
  shows "\<exists>al1 al2. buf_new s (sh_aliases sh) = Inr al1 \<and> buf_free s al1 = Inr al2 \<and> alias_ok al2 others \<and>
    False \<notin> set (al_oom al2) \<and> alias_count al2 = alias_count (sh_aliases sh) \<and>
    alias_lookup al2 = alias_lookup (sh_aliases sh)"
proof -
  from assms obtain a: "alias_ok (sh_aliases sh) others" "False \<notin> set (al_oom (sh_aliases sh))"
    by (rule shell_okE)
  obtain al1 where al1: "buf_new s (sh_aliases sh) = Inr al1" "alias_ok al1 (add_mset s others)"
    "alias_lookup al1 = alias_lookup (sh_aliases sh)" "False \<notin> set (al_oom al1)"
    using buf_new_run [OF a] by blast
  obtain al2 where al2: "buf_free s al1 = Inr al2" "alias_ok al2 others"
    "alias_lookup al2 = alias_lookup al1" "al_oom al2 = al_oom al1"
    using buf_free_run [OF al1(2)] by blast
  show ?thesis using al1 al2 buf_counts(1) [OF al1(1)] buf_counts(2) [OF al2(1)] by auto
qed

lemma dup_cut_and_free:
  assumes "shell_ok others sh"
  shows "\<exists>al1 al2 al3. buf_new s (sh_aliases sh) = Inr al1 \<and> buf_write s k al1 = Inr al2 \<and>
    buf_free k al2 = Inr al3 \<and> alias_ok al3 others \<and> False \<notin> set (al_oom al3) \<and>
    alias_count al3 = alias_count (sh_aliases sh) \<and> alias_lookup al3 = alias_lookup (sh_aliases sh)"
proof -
  from assms obtain a: "alias_ok (sh_aliases sh) others" "False \<notin> set (al_oom (sh_aliases sh))"
    by (rule shell_okE)
  obtain al1 where al1: "buf_new s (sh_aliases sh) = Inr al1" "alias_ok al1 (add_mset s others)"
    "alias_lookup al1 = alias_lookup (sh_aliases sh)" "False \<notin> set (al_oom al1)"
    using buf_new_run [OF a] by blast
  obtain al2 where al2: "buf_write s k al1 = Inr al2" "alias_ok al2 (add_mset k others)"
    "alias_lookup al2 = alias_lookup al1" "al_oom al2 = al_oom al1"
    using buf_write_run [OF al1(2)] by blast
  obtain al3 where al3: "buf_free k al2 = Inr al3" "alias_ok al3 others"
    "alias_lookup al3 = alias_lookup al2" "al_oom al3 = al_oom al2"
    using buf_free_run [OF al2(2)] by blast
  show ?thesis
    using al1 al2 al3 buf_counts(1) [OF al1(1)] buf_counts(3) [OF al2(1)] buf_counts(2) [OF al3(1)] by auto
qed

text \<open>No alias is marked as in use, as it is between two lines.\<close>

definition unmarked :: "alias_state \<Rightarrow> bool" where
  "unmarked st \<longleftrightarrow> (\<forall>k a. alias_lookup st k = Some a \<longrightarrow> in_use a = 0)"

lemma unmarked_released: "unmarked st \<longleftrightarrow> released st = alias_lookup st"
proof
  assume u: "unmarked st"
  have "map_option (in_use_update (\<lambda>_. 0)) (alias_lookup st k) = alias_lookup st k" for k
    using u by (cases "alias_lookup st k") (auto simp: unmarked_def)
  then show "released st = alias_lookup st" by (simp add: released_def)
next
  assume r: "released st = alias_lookup st"
  have "in_use a = 0" if "alias_lookup st k = Some a" for k a
  proof -
    have "map_option (in_use_update (\<lambda>_. 0)) (alias_lookup st k) = alias_lookup st k"
      using fun_cong [OF r, of k] by (simp add: released_def)
    then have "a\<lparr>in_use := 0\<rparr> = a" using that by simp
    then show ?thesis by (cases a) simp
  qed
  then show "unmarked st" by (simp add: unmarked_def)
qed

text \<open>\<open>kept\<close>: what a builtin leaves of the heap.\<close>

definition kept :: "strheap \<Rightarrow> shell \<Rightarrow> shell \<Rightarrow> bool" where
  "kept others sh sh' \<longleftrightarrow>
     alias_ok (sh_aliases sh') others \<and> False \<notin> set (al_oom (sh_aliases sh')) \<and>
     alias_count (sh_aliases sh') \<le> Suc (alias_count (sh_aliases sh)) \<and>
     (unmarked (sh_aliases sh) \<longrightarrow> unmarked (sh_aliases sh'))"

lemma cmd_export_run:
  assumes ok: "shell_ok others sh" and s: "cstr s = k @ CHR ''='' # v" "CHR ''='' \<notin> set k" "k \<noteq> []"
  shows "\<exists>al. cmd_export (Some s # args) sh =
      Inr (Some 0, sh\<lparr>sh_aliases := al, sh_env := (sh_env sh)(k \<mapsto> v)\<rparr>) \<and>
    kept others sh (sh\<lparr>sh_aliases := al, sh_env := (sh_env sh)(k \<mapsto> v)\<rparr>) \<and>
    alias_lookup al = alias_lookup (sh_aliases sh)"
proof -
  obtain al1 al2 al3 where al: "buf_new (cstr s) (sh_aliases sh) = Inr al1" "buf_write (cstr s) k al1 = Inr al2"
    "buf_free k al2 = Inr al3" "alias_ok al3 others" "False \<notin> set (al_oom al3)"
    "alias_count al3 = alias_count (sh_aliases sh)" "alias_lookup al3 = alias_lookup (sh_aliases sh)"
    using dup_cut_and_free [OF ok] by blast
  then show ?thesis
    using strstr_split [OF s(2), of v] s
    by (intro exI [of _ al3]) (simp add: cmd_export_def first_entry_def setenv_def kept_def unmarked_def)
qed

lemma cmd_alias_kept:
  assumes "shell_ok others sh"
  shows "\<exists>r sh'. cmd_alias (a # args) sh = Inr (Some r, sh') \<and> kept others sh sh'"
proof (cases a)
  case None
  obtain ht where "al_table (sh_aliases sh) = Some ht"
    using assms by (auto simp: shell_ok_def alias_ok_def split: option.splits)
  with None assms printAliases_run [of "sh_aliases sh" others ht] show ?thesis
    by (auto simp: cmd_alias_def first_entry_def kept_def unmarked_def put_out_def shell_ok_def)
next
  case (Some s)
  show ?thesis
  proof (cases "CHR ''='' \<in> set (cstr s)")
    case True
    then obtain k v where "cstr s = k @ CHR ''='' # v" "CHR ''='' \<notin> set k"
      using split_at_char by blast
    from cmd_alias_run [OF assms this] show ?thesis unfolding Some by (fastforce simp: kept_def unmarked_def)
  next
    case False
    then have "strstr (cstr s) ''='' = None" by (simp add: strstr_char)
    with dup_and_free [OF assms, of "cstr s"] show ?thesis unfolding Some
      by (auto simp: cmd_alias_def first_entry_def kept_def unmarked_def)
  qed
qed

lemma cmd_export_kept:
  assumes "shell_ok others sh"
  shows "\<exists>r sh'. cmd_export (Some s # args) sh = Inr (Some r, sh') \<and> kept others sh sh'"
proof (cases "CHR ''='' \<in> set (cstr s)")
  case True
  then obtain k v where "cstr s = k @ CHR ''='' # v" "strstr (cstr s) ''='' = Some (CHR ''='' # v)"
    using split_at_char by blast
  with dup_cut_and_free [OF assms, of "cstr s" k] show ?thesis
    by (auto simp: cmd_export_def first_entry_def kept_def unmarked_def setenv_def)
next
  case False
  then have "strstr (cstr s) ''='' = None" by (simp add: strstr_char)
  with dup_and_free [OF assms, of "cstr s"] show ?thesis
    by (auto simp: cmd_export_def first_entry_def kept_def unmarked_def)
qed

lemma cmd_unalias_kept:
  assumes "shell_ok others sh"
  shows "\<exists>r sh'. cmd_unalias (a # args) sh = Inr (Some r, sh') \<and> kept others sh sh'"
proof (cases a)
  case (Some s)
  from assms obtain o: "alias_ok (sh_aliases sh) others" "False \<notin> set (al_oom (sh_aliases sh))"
    by (rule shell_okE)
  with Some removeAlias_run [OF o(1), of s] show ?thesis
    by (auto simp: cmd_unalias_def first_entry_def kept_def unmarked_def)
qed (use assms in \<open>simp add: cmd_unalias_def first_entry_def kept_def unmarked_def put_err_def shell_ok_def\<close>)

lemma cmd_cd_kept:
  assumes "shell_ok others sh"
  shows "\<exists>r sh'. cmd_cd chdir (a # args) sh = Inr (Some r, sh') \<and> kept others sh sh'"
  using assms
  by (auto simp: cmd_cd_def first_entry_def Let_def kept_def unmarked_def perror_def put_err_def shell_ok_def split: sum.splits)

fun echo_text :: "string list \<Rightarrow> string" where
  "echo_text [] = []"
| "echo_text [w] = cstr w"
| "echo_text (w # ws) = cstr w @ '' '' @ echo_text ws"

lemma echo_loop_run: "echo_loop (map Some ws @ None # rest) out = Inr (out @ echo_text ws)"
proof (induction ws arbitrary: out rule: echo_text.induct)
  case (3 w v va)
  have "first_entry (map Some (v # va) @ None # rest) = Inr (Some v)" by (simp add: first_entry_def)
  with 3 [of "out @ cstr w @ '' ''"] show ?case by simp
qed (simp_all add: first_entry_def)

lemma terminated_split: "None \<in> set args \<Longrightarrow> \<exists>ws rest. args = map Some ws @ None # rest"
proof (induction args)
  case (Cons a args)
  show ?case
  proof (cases a)
    case None
    then show ?thesis by (intro exI [of _ "[]"] exI [of _ args]) simp
  next
    case (Some w)
    with Cons obtain ws rest where "args = map Some ws @ None # rest" by auto
    with Some show ?thesis by (intro exI [of _ "w # ws"]) auto
  qed
qed simp

lemma cmd_echo_kept:
  assumes "shell_ok others sh" "argv_ok args"
  shows "\<exists>r sh'. cmd_echo args sh = Inr (Some r, sh') \<and> kept others sh sh'"
proof -
  obtain ws rest where "args = map Some ws @ None # rest"
    using assms(2) terminated_split unfolding argv_ok_def by blast
  with assms(1) show ?thesis
    by (auto simp: cmd_echo_def echo_loop_run kept_def unmarked_def put_out_def shell_ok_def)
qed

section \<open>The dispatch\<close>

definition builtin_names :: "string list" where
  "builtin_names = [''alias'', ''cd'', ''echo'', ''exit'', ''export'', ''pwd'', ''unalias'']"

lemma cstr_names [simp]:
  "cstr ''alias'' = ''alias''" "cstr ''cd'' = ''cd''" "cstr ''echo'' = ''echo''" "cstr ''exit'' = ''exit''"
  "cstr ''export'' = ''export''" "cstr ''pwd'' = ''pwd''" "cstr ''unalias'' = ''unalias''"
  by (simp_all add: cstr_Cons NUL_def)

lemma isBuiltin_run: "isBuiltin chdir (Some c) = Inr (if cstr c \<in> set builtin_names then 1 else 0)"
  by (auto simp: isBuiltin_def builtin_table_def builtin_names_def strcmp_eq_0_iff)

lemma executeBuiltin_run:
  "executeBuiltinCommand chdir (Some (Some c # args)) sh =
    (case map_of (builtin_table chdir) (cstr c) of
       None \<Rightarrow> Inr (Some (- 1), sh)
     | Some f \<Rightarrow> rbind (f args sh) (\<lambda>(r, sh1). Inr (map_option (\<lambda>_. 0) r, sh1)))"
  by (auto simp: executeBuiltinCommand_def builtin_table_def first_entry_def strcmp_eq_0_iff)

text \<open>Only \<open>cd\<close> changes the working directory.\<close>

lemma put_cwd [simp]: "sh_cwd (put_out s sh) = sh_cwd sh" "sh_cwd (put_err s sh) = sh_cwd sh"
  "sh_cwd (perror p msg sh) = sh_cwd sh" "sh_cwd (snd (setenv k v sh)) = sh_cwd sh"
  by (simp_all add: put_out_def put_err_def perror_def setenv_def)

lemma rbind_InrE:
  assumes "rbind m f = Inr y"
  obtains x where "m = Inr x" "f x = Inr y"
  using assms by (auto simp: rbind_eq_Inr_iff)

lemma cmd_cwd:
  "cmd_alias args sh = Inr (r, sh') \<Longrightarrow> sh_cwd sh' = sh_cwd sh"
  "cmd_unalias args sh = Inr (r, sh') \<Longrightarrow> sh_cwd sh' = sh_cwd sh"
  "cmd_echo args sh = Inr (r, sh') \<Longrightarrow> sh_cwd sh' = sh_cwd sh"
  "cmd_exit args sh = Inr (r, sh') \<Longrightarrow> sh_cwd sh' = sh_cwd sh"
  "cmd_pwd args sh = Inr (r, sh') \<Longrightarrow> sh_cwd sh' = sh_cwd sh"
  "cmd_export args sh = Inr (r, sh') \<Longrightarrow> sh_cwd sh' = sh_cwd sh"
  "cmd_cd chdir args sh = Inr (r, sh') \<Longrightarrow> sh_cwd sh' = sh_cwd sh \<or> (\<exists>d p. chdir d p = Inr (sh_cwd sh'))"
proof -
  show "cmd_alias args sh = Inr (r, sh') \<Longrightarrow> sh_cwd sh' = sh_cwd sh"
    unfolding cmd_alias_def by (auto elim!: rbind_InrE simp: Let_def split: option.splits prod.splits)
  show "cmd_unalias args sh = Inr (r, sh') \<Longrightarrow> sh_cwd sh' = sh_cwd sh"
    unfolding cmd_unalias_def by (auto elim!: rbind_InrE split: option.splits)
  show "cmd_echo args sh = Inr (r, sh') \<Longrightarrow> sh_cwd sh' = sh_cwd sh"
    unfolding cmd_echo_def by (auto elim!: rbind_InrE)
  show "cmd_exit args sh = Inr (r, sh') \<Longrightarrow> sh_cwd sh' = sh_cwd sh"
    unfolding cmd_exit_def by auto
  show "cmd_pwd args sh = Inr (r, sh') \<Longrightarrow> sh_cwd sh' = sh_cwd sh"
    unfolding cmd_pwd_def by (auto elim!: rbind_InrE split: option.splits)
  show "cmd_export args sh = Inr (r, sh') \<Longrightarrow> sh_cwd sh' = sh_cwd sh"
    unfolding cmd_export_def
    by (auto elim!: rbind_InrE simp: Let_def setenv_def split: option.splits if_splits)
  show "cmd_cd chdir args sh = Inr (r, sh') \<Longrightarrow> sh_cwd sh' = sh_cwd sh \<or> (\<exists>d p. chdir d p = Inr (sh_cwd sh'))"
    unfolding cmd_cd_def by (auto elim!: rbind_InrE simp: Let_def split: sum.splits)
qed

lemma builtin_cwd:
  assumes "map_of (builtin_table chdir) name = Some f" "f args sh = Inr (r, sh')"
  shows "sh_cwd sh' = sh_cwd sh \<or> (\<exists>d p. chdir d p = Inr (sh_cwd sh'))"
  using assms by (auto simp: builtin_table_def dest: cmd_cwd split: if_splits)

lemma builtin_kept:
  assumes "shell_ok others sh" "argv_ok args" "map_of (builtin_table chdir) (cstr c) = Some f"
    and "cstr c = ''export'' \<Longrightarrow> hd args \<noteq> None" "cstr c = ''pwd'' \<Longrightarrow> length (sh_cwd sh) < BUFSIZE"
  shows "\<exists>r sh'. f args sh = Inr (r, sh') \<and> kept others sh sh' \<and> (r = None \<longleftrightarrow> cstr c = ''exit'')"
proof -
  obtain a as where args: "args = a # as" using assms(2) by (cases args) (auto simp: argv_ok_def)
  have "cstr c \<in> set builtin_names"
    using assms(3) by (auto simp: builtin_table_def builtin_names_def split: if_splits)
  then consider "cstr c = ''alias''" | "cstr c = ''cd''" | "cstr c = ''echo''" | "cstr c = ''exit''"
    | "cstr c = ''export''" | "cstr c = ''pwd''" | "cstr c = ''unalias''"
    by (auto simp: builtin_names_def)
  then show ?thesis
  proof cases
    case 1
    with assms(3) cmd_alias_kept [OF assms(1), of a as] show ?thesis by (auto simp: builtin_table_def args)
  next
    case 2
    with assms(3) cmd_cd_kept [OF assms(1), of chdir a as] show ?thesis by (auto simp: builtin_table_def args)
  next
    case 3
    with assms(3) cmd_echo_kept [OF assms(1,2)] show ?thesis by (auto simp: builtin_table_def)
  next
    case 4
    with assms(1,3) show ?thesis
      by (auto simp: builtin_table_def cmd_exit_def kept_def unmarked_def put_out_def shell_ok_def)
  next
    case 5
    then obtain s where "a = Some s" using assms(4) args by auto
    with 5 assms(3) cmd_export_kept [OF assms(1), of s as] show ?thesis by (auto simp: builtin_table_def args)
  next
    case 6
    with assms(1,3,5) show ?thesis
      by (auto simp: builtin_table_def cmd_pwd_def getcwd_def kept_def unmarked_def put_out_def shell_ok_def)
  next
    case 7
    with assms(3) cmd_unalias_kept [OF assms(1), of a as] show ?thesis by (auto simp: builtin_table_def args)
  qed
qed

lemma builtin_known: "map_of (builtin_table chdir) k = None \<longleftrightarrow> k \<notin> set builtin_names"
  by (auto simp: builtin_table_def builtin_names_def)

section \<open>Properties\<close>

text \<open>C18. Dispatch and memory of the builtins: a command name runs the builtin of the table with that
  name and no other, \<open>isBuiltin\<close> agrees with the dispatch, only \<open>exit\<close> ends the process, and no
  builtin faults or leaks a string, apart from \<open>export\<close> without an argument and \<open>pwd\<close> in a
  directory longer than its buffer.\<close>

theorem builtins_safe:
  assumes "shell_ok others sh" "argv_ok args"
    and "cstr c = ''export'' \<Longrightarrow> hd args \<noteq> None" "cstr c = ''pwd'' \<Longrightarrow> length (sh_cwd sh) < BUFSIZE"
  shows "\<exists>r sh'. executeBuiltinCommand chdir (Some (Some c # args)) sh = Inr (r, sh') \<and>
    (case map_of (builtin_table chdir) (cstr c) of
       None \<Rightarrow> r = Some (- 1) \<and> sh' = sh \<and> isBuiltin chdir (Some c) = Inr 0
     | Some f \<Rightarrow> (\<exists>status. f args sh = Inr (status, sh') \<and> r = map_option (\<lambda>_. 0) status) \<and>
         isBuiltin chdir (Some c) = Inr 1) \<and>
    (r = None \<longleftrightarrow> cstr c = ''exit'') \<and> kept others sh sh'"
proof (cases "map_of (builtin_table chdir) (cstr c)")
  case None
  then have "cstr c \<notin> set builtin_names" by (simp add: builtin_known)
  with None assms(1) show ?thesis
    unfolding executeBuiltin_run isBuiltin_run
    by (auto simp: kept_def unmarked_def shell_ok_def builtin_names_def)
next
  case (Some f)
  then have "cstr c \<in> set builtin_names" using builtin_known [of chdir "cstr c"] by simp
  with Some builtin_kept [OF assms(1,2) Some assms(3,4)] show ?thesis
    unfolding executeBuiltin_run isBuiltin_run by auto
qed

text \<open>\<open>alias k=v\<close> defines the alias \<open>k\<close> as \<open>v\<close>, split at the first \<open>=\<close>, changes no other alias and
  frees its temporary copy; environment, directory and output stay as they were.\<close>

theorem cmd_alias_defines:
  assumes "shell_ok others sh" "cstr s = k @ CHR ''='' # v" "CHR ''='' \<notin> set k"
  shows "\<exists>al. cmd_alias (Some s # args) sh = Inr (Some 0, sh\<lparr>sh_aliases := al\<rparr>) \<and> alias_ok al others \<and>
    alias_lookup al k = Some \<lparr>alias_value = Some v, in_use = 0\<rparr> \<and>
    (\<forall>j. cstr j \<noteq> k \<longrightarrow> alias_lookup al j = alias_lookup (sh_aliases sh) j)"
proof -
  obtain al where al: "cmd_alias (Some s # args) sh = Inr (Some 0, sh\<lparr>sh_aliases := al\<rparr>)" "alias_ok al others"
    "alias_lookup al = (\<lambda>j. if k = cstr j then Some \<lparr>alias_value = Some v, in_use = 0\<rparr>
                          else alias_lookup (sh_aliases sh) j)"
    using cmd_alias_run [OF assms] by blast
  have "c_string (cstr s)" by simp
  then have "cstr k = k" unfolding assms(2) by simp
  with al show ?thesis by auto
qed

text \<open>\<open>export k=v\<close> sets exactly the variable \<open>k\<close>, split at the first \<open>=\<close>, to \<open>v\<close>; the aliases stay
  as they were and the temporary copy is freed.\<close>

theorem cmd_export_sets:
  assumes "shell_ok others sh" "cstr s = k @ CHR ''='' # v" "CHR ''='' \<notin> set k" "k \<noteq> []"
  shows "\<exists>sh'. cmd_export (Some s # args) sh = Inr (Some 0, sh') \<and> sh_env sh' = (sh_env sh)(k \<mapsto> v) \<and>
    sh_cwd sh' = sh_cwd sh \<and> sh_out sh' = sh_out sh \<and> sh_err sh' = sh_err sh \<and>
    alias_lookup (sh_aliases sh') = alias_lookup (sh_aliases sh) \<and> alias_ok (sh_aliases sh') others"
  using cmd_export_run [OF assms, of args] by (auto simp: kept_def unmarked_def)

text \<open>The builtins that read a NULL pointer: \<open>export\<close> without an argument copies it, and a
  command without any word (a line whose expansion is empty) is compared with the names.\<close>

theorem builtin_null_arguments:
  "executeBuiltinCommand chdir (Some [Some ''export'', None]) sh = Inl NullPointer \<and>
   executeBuiltinCommand chdir (Some [None]) sh = Inl NullPointer \<and>
   isBuiltin chdir None = Inl NullPointer"
  by (simp add: executeBuiltin_run)
    (simp add: builtin_table_def cmd_export_def first_entry_def executeBuiltinCommand_def isBuiltin_def)

section \<open>Witnesses\<close>

definition home_shell :: shell where
  "home_shell = \<lparr>sh_aliases = aliases_after [], sh_env = (\<lambda>_. None)(''HOME'' \<mapsto> ''/root''), sh_cwd = ''/'',
     sh_out = [], sh_err = []\<rparr>"

definition any_chdir :: chdir_call where
  "any_chdir dir p =
     (case p of
        None \<Rightarrow> Inl ''Bad address''
      | Some d \<Rightarrow> if length d < BUFSIZE then Inr d else Inl ''File name too long'')"

lemma home_shell_ok: "shell_ok {#} home_shell"
proof -
  have "False \<notin> set (al_oom no_aliases)" by (simp add: no_aliases_def)
  then obtain st1 where st1: "initializeAliases no_aliases = Inr st1" "alias_ok st1 (al_strings no_aliases)"
    "alias_lookup st1 = (\<lambda>_. None)" "alias_count st1 = 0" "False \<notin> set (al_oom st1)"
    by (rule session_start)
  then have "aliases_after [] = st1" by (simp add: aliases_after_def)
  with st1 show ?thesis by (simp add: shell_ok_def home_shell_def no_aliases_def)
qed

theorem builtins_safe_witness:
  "\<exists>r sh'. executeBuiltinCommand any_chdir (Some [Some ''cd'', None]) home_shell = Inr (r, sh') \<and>
    kept {#} home_shell sh' \<and> r \<noteq> None"
  using builtins_safe [OF home_shell_ok, of "[None]" "''cd''" any_chdir] by (auto simp: argv_ok_def)

theorem cmd_alias_defines_witness:
  "\<exists>al. cmd_alias [Some ''e=a=b'', None] home_shell = Inr (Some 0, home_shell\<lparr>sh_aliases := al\<rparr>) \<and>
    alias_lookup al ''e'' = Some \<lparr>alias_value = Some ''a=b'', in_use = 0\<rparr>"
  using cmd_alias_defines [OF home_shell_ok, of "''e=a=b''" "''e''" "''a=b''" "[None]"]
  by (auto simp: cstr_Cons NUL_def)

theorem cmd_export_sets_witness:
  "\<exists>sh'. cmd_export [Some ''A=b=c'', None] home_shell = Inr (Some 0, sh') \<and>
    sh_env sh' ''A'' = Some ''b=c'' \<and> sh_env sh' ''HOME'' = Some ''/root''"
  using cmd_export_sets [OF home_shell_ok, of "''A=b=c''" "''A''" "''b=c''" "[None]"]
  by (auto simp: cstr_Cons NUL_def home_shell_def)

end
