(* ===== verification/Fifo_Interface.thy ===== *)
theory Fifo_Interface
  imports Shell_Prelude
begin

text \<open>
  The contract of queue.h: what the callers of \<open>queueInsert\<close> and \<open>queuePop\<close> rely on.
  \<open>holds q xs\<close> says that \<open>q\<close> is a well-formed queue holding \<open>xs\<close>, oldest first.
\<close>

locale fifo =
  fixes holds :: "'q \<Rightarrow> 'a list \<Rightarrow> bool"
    and insert :: "'a \<Rightarrow> 'q \<Rightarrow> fault + 'q"
    and pop :: "'q \<Rightarrow> fault + ('a option \<times> 'q)"
    and limit :: nat
  assumes insert_holds:
      "holds q xs \<Longrightarrow> Suc (length xs) < limit \<Longrightarrow> \<exists>q'. insert x q = Inr q' \<and> holds q' (xs @ [x])"
    and pop_empty: "holds q [] \<Longrightarrow> pop q = Inr (None, q)"
    and pop_oldest: "holds q (x # xs) \<Longrightarrow> \<exists>q'. pop q = Inr (Some x, q') \<and> holds q' xs"
begin

fun insert_all :: "'a list \<Rightarrow> 'q \<Rightarrow> fault + 'q" where
  "insert_all [] q = Inr q"
| "insert_all (x # xs) q = rbind (insert x q) (insert_all xs)"

text \<open>\<open>drain\<close> is the client's loop \<open>while ((x = queuePop(q)) != NULL)\<close>, with a bound on its rounds.\<close>

fun drain :: "nat \<Rightarrow> 'q \<Rightarrow> fault + ('a list \<times> 'q) option" where
  "drain 0 q = Inr None"
| "drain (Suc n) q =
     rbind (pop q) (\<lambda>(x, q').
       case x of
         None \<Rightarrow> Inr (Some ([], q'))
       | Some x \<Rightarrow> rbind (drain n q') (\<lambda>r. Inr (map_option (\<lambda>(xs, q). (x # xs, q)) r)))"

lemma insert_all_holds:
  "holds q xs \<Longrightarrow> length xs + length ys < limit \<Longrightarrow>
   \<exists>q'. insert_all ys q = Inr q' \<and> holds q' (xs @ ys)"
proof (induction ys arbitrary: q xs)
  case (Cons y ys)
  then obtain q1 where q1: "insert y q = Inr q1" "holds q1 (xs @ [y])"
    using insert_holds [of q xs y] by auto
  with Cons.IH [of q1 "xs @ [y]"] Cons.prems(2) show ?case by auto
qed simp

lemma drain_holds:
  "holds q xs \<Longrightarrow> length xs < n \<Longrightarrow> \<exists>q'. drain n q = Inr (Some (xs, q')) \<and> holds q' []"
proof (induction xs arbitrary: q n)
  case Nil
  then show ?case using pop_empty [of q] by (cases n) auto
next
  case (Cons x xs)
  from Cons.prems(2) obtain m where m: "n = Suc m" "length xs < m" by (cases n) auto
  from pop_oldest [OF Cons.prems(1)] obtain q1 where q1: "pop q = Inr (Some x, q1)" "holds q1 xs"
    by blast
  from Cons.IH [OF q1(2) m(2)] q1(1) m(1) show ?case by auto
qed

text \<open>First in, first out.\<close>

lemma insert_all_drain:
  assumes "holds q []" "length xs < limit" "length xs < n"
  shows "\<exists>q'. rbind (insert_all xs q) (drain n) = Inr (Some (xs, q')) \<and> holds q' []"
  using insert_all_holds [of q "[]" xs] drain_holds [of _ xs n] assms by fastforce

end

end
