(* ===== verification/Queue.thy ===== *)
theory Queue
  imports Fifo_Interface
begin

text \<open>
  queue.c: the linked list of commands that the parser fills and the executor empties. The
  nodes are objects on a heap and \<open>head\<close> and \<open>tail\<close> are pointers into it; the \<open>size_t\<close> counter
  is a 64-bit word. A free function acts on a state \<open>'w\<close> of the caller. \<open>holds_nodes\<close> is the
  representation invariant; the operations refine those of a list, and \<open>queueFree\<close> frees each
  element exactly once, oldest first, and every node.
\<close>

section \<open>Data and operations\<close>

record ('a, 'w) queue_node_t =
  data :: 'a
  node_next :: ptr
  freeFunction :: "'a \<Rightarrow> 'w \<Rightarrow> fault + 'w"

record queue_t =
  queue_count :: "64 word"
  head :: ptr
  tail :: ptr

type_synonym ('a, 'w) nodes = "('a, 'w) queue_node_t cells"

definition queueNew :: "bool list \<Rightarrow> queue_t option \<times> bool list" where
  "queueNew oom =
     (let (ok, oom') = alloc_ok oom in
      (if ok then Some \<lparr>queue_count = 0, head = None, tail = None\<rparr> else None, oom'))"

definition queueInsert ::
    "queue_t option \<Rightarrow> 'a \<Rightarrow> ('a \<Rightarrow> 'w \<Rightarrow> fault + 'w) \<Rightarrow> bool list \<Rightarrow> ('a, 'w) nodes \<Rightarrow>
     fault + (queue_t \<times> bool list \<times> ('a, 'w) nodes)" where
  "queueInsert queue x freeNode oom h =
     (case queue of
        None \<Rightarrow> Inl AssertFailed
      | Some q \<Rightarrow>
          (let (ok, oom') = alloc_ok oom in
           if \<not> ok then Inl NullPointer
           else
             let (node, h1) = new_cell \<lparr>data = x, node_next = None, freeFunction = freeNode\<rparr> h in
             if tail q = None
             then Inr (q\<lparr>tail := Some node, head := Some node, queue_count := queue_count q + 1\<rparr>, oom', h1)
             else
               rbind (load h1 (tail q)) (\<lambda>last.
               rbind (store h1 (tail q) (last\<lparr>node_next := Some node\<rparr>)) (\<lambda>h2.
                 Inr (q\<lparr>tail := Some node, queue_count := queue_count q + 1\<rparr>, oom', h2)))))"

definition queuePop ::
    "queue_t option \<Rightarrow> ('a, 'w) nodes \<Rightarrow> fault + ('a option \<times> queue_t \<times> ('a, 'w) nodes)" where
  "queuePop queue h =
     (case queue of
        None \<Rightarrow> Inl NullPointer
      | Some q \<Rightarrow>
          if queue_count q = 0 then Inr (None, q, h)
          else
            rbind (load h (head q)) (\<lambda>node.
            rbind (release h (head q)) (\<lambda>h1.
            let q1 = q\<lparr>head := node_next node, queue_count := queue_count q - 1\<rparr> in
            Inr (Some (data node), if head q1 = None then q1\<lparr>tail := None\<rparr> else q1, h1))))"

function queue_free_loop ::
    "queue_t \<Rightarrow> ('a, 'w) nodes \<Rightarrow> 'w \<Rightarrow> fault + (('a, 'w) nodes \<times> 'w)" where
  "queue_free_loop q h w =
     (if queue_count q > 0
      then
        rbind (load h (head q)) (\<lambda>node.
        rbind (freeFunction node (data node) w) (\<lambda>w1.
        rbind (release h (head q)) (\<lambda>h1.
          queue_free_loop (q\<lparr>head := node_next node, queue_count := queue_count q - 1\<rparr>) h1 w1)))
      else Inr (h, w))"
  by pat_completeness auto
termination
  by (relation "measure (\<lambda>(q, h, w). unat (queue_count q))") (auto simp: unat_minus_one word_gt_0 unat_gt_0)

declare queue_free_loop.simps [simp del]

definition queueFree :: "queue_t option \<Rightarrow> ('a, 'w) nodes \<Rightarrow> 'w \<Rightarrow> fault + (('a, 'w) nodes \<times> 'w)" where
  "queueFree queue h w =
     (case queue of None \<Rightarrow> Inl NullPointer | Some q \<Rightarrow> queue_free_loop q h w)"

section \<open>Representation invariant\<close>

text \<open>\<open>node_path h p as\<close>: following \<open>next\<close> from \<open>p\<close> visits the live nodes \<open>as\<close> and ends in NULL.\<close>

fun node_path :: "('a, 'w) nodes \<Rightarrow> ptr \<Rightarrow> nat list \<Rightarrow> bool" where
  "node_path h p [] \<longleftrightarrow> p = None"
| "node_path h p (a # as) \<longleftrightarrow> p = Some a \<and> live_at h a \<and> node_path h (node_next (object_at h a)) as"

definition holds_nodes :: "queue_t \<Rightarrow> ('a, 'w) nodes \<Rightarrow> nat list \<Rightarrow> bool" where
  "holds_nodes q h as \<longleftrightarrow>
     node_path h (head q) as \<and> distinct as \<and>
     tail q = (if as = [] then None else Some (last as)) \<and>
     queue_count q = of_nat (length as) \<and> length as < 2 ^ 64"

definition items :: "('a, 'w) nodes \<Rightarrow> nat list \<Rightarrow> 'a list" where
  "items h as = map (\<lambda>a. data (object_at h a)) as"

lemma node_path_live: "node_path h p as \<Longrightarrow> a \<in> set as \<Longrightarrow> live_at h a"
  by (induction as arbitrary: p) auto

lemma node_path_unique: "node_path h p as \<Longrightarrow> node_path h p bs \<Longrightarrow> as = bs"
proof (induction as arbitrary: p bs)
  case Nil
  then show ?case by (cases bs) auto
next
  case (Cons a as)
  then show ?case by (cases bs) auto
qed

lemma node_path_append: "node_path h p as \<Longrightarrow> node_path (h @ [Some x]) p as"
  by (induction as arbitrary: p) auto

lemma node_path_update_other: "node_path h p as \<Longrightarrow> a \<notin> set as \<Longrightarrow> node_path (h[a := y]) p as"
proof (induction as arbitrary: p)
  case (Cons b as)
  then show ?case by (cases y) (auto simp: live_at_less)
qed simp

text \<open>Linking a fresh node behind the last one.\<close>

lemma node_path_snoc:
  assumes "node_path h p (as @ [a])" "distinct (as @ [a])" "live_at h b" "b \<notin> set (as @ [a])"
    "node_next (object_at h b) = None"
  shows "node_path (h[a := Some ((object_at h a)\<lparr>node_next := Some b\<rparr>)]) p (as @ [a, b])"
  using assms
proof (induction as arbitrary: p)
  case Nil
  then show ?case by (auto simp: live_at_less)
next
  case (Cons c as)
  then show ?case by (auto simp: live_at_less)
qed

lemma release_other: "a \<notin> set as \<Longrightarrow> b \<in> set as \<Longrightarrow> object_at (h[a := None]) b = object_at h b"
  by (rule object_at_release) blast

lemma unat_of_nat_64: "n < 2 ^ 64 \<Longrightarrow> unat (of_nat n :: 64 word) = n"
  by (simp add: unat_of_nat)

section \<open>The operations refine a list\<close>

lemma queueNew_run: "fst (alloc_ok oom) \<Longrightarrow>
    \<exists>q. queueNew oom = (Some q, snd (alloc_ok oom)) \<and> holds_nodes q h []"
  by (cases "alloc_ok oom") (simp add: queueNew_def holds_nodes_def)

lemma queueInsert_run:
  assumes q: "holds_nodes q h as" and al: "fst (alloc_ok oom)" and small: "Suc (length as) < 2 ^ 64"
  shows "\<exists>q' h'. queueInsert (Some q) x f oom h = Inr (q', snd (alloc_ok oom), h') \<and>
    holds_nodes q' h' (as @ [length h]) \<and> items h' (as @ [length h]) = items h as @ [x] \<and>
    length h' = Suc (length h) \<and> freeFunction (object_at h' (length h)) = f \<and>
    (\<forall>a \<in> set as. freeFunction (object_at h' a) = freeFunction (object_at h a)) \<and>
    (\<forall>a. live_at h' a \<longleftrightarrow> a = length h \<or> live_at h a) \<and>
    (\<forall>a. a \<notin> set as \<longrightarrow> live_at h a \<longrightarrow> object_at h' a = object_at h a)"
proof (cases "as = []")
  case True
  with q al show ?thesis
    by (cases "alloc_ok oom") (simp add: queueInsert_def new_cell_def holds_nodes_def items_def)
next
  case False
  then obtain bs b where as: "as = bs @ [b]" by (cases as rule: rev_cases) auto
  let ?new = "\<lparr>data = x, node_next = None, freeFunction = f\<rparr>"
  let ?h1 = "h @ [Some ?new]"
  let ?h2 = "?h1[b := Some ((object_at ?h1 b)\<lparr>node_next := Some (length h)\<rparr>)]"
  have p: "node_path h (head q) (bs @ [b])" "distinct (bs @ [b])" "tail q = Some b"
    using q as by (auto simp: holds_nodes_def)
  have live: "live_at h a" if "a \<in> set as" for a using node_path_live [OF p(1)] that as by simp
  then have fresh: "length h \<notin> set (bs @ [b])" using as by (auto simp: live_at_def)
  have b: "live_at h b" using live as by simp
  have b1: "live_at ?h1 b" using b by simp
  let ?q = "q\<lparr>tail := Some (length h), queue_count := queue_count q + 1\<rparr>"
  have "queueInsert (Some q) x f oom h = Inr (?q, snd (alloc_ok oom), ?h2)"
    using al p(3) b by (cases "alloc_ok oom") (simp add: queueInsert_def new_cell_def load_live store_live)
  moreover have "node_path ?h2 (head q) (bs @ [b, length h])"
    using node_path_append [OF p(1)] p(2) fresh by (intro node_path_snoc) auto
  then have "holds_nodes ?q ?h2 (as @ [length h])"
    using q small fresh p(2) as by (simp add: holds_nodes_def)
  moreover have "object_at ?h2 a = (if a = b then (object_at h b)\<lparr>node_next := Some (length h)\<rparr> else object_at h a)"
    if "a \<in> set as" for a
    using live [OF that] live_at_less [OF live [OF that]] b by simp
  moreover have "object_at ?h2 (length h) = ?new" using live_at_less [OF b] by simp
  moreover have "live_at ?h2 a \<longleftrightarrow> a = length h \<or> live_at h a" for a
    using b live_at_less [OF b] by (auto simp: live_at_less less_Suc_eq)
  moreover have "object_at ?h2 a = object_at h a" if "a \<notin> set as" "live_at h a" for a
    using that as live_at_less [OF that(2)] by (simp add: object_at_def nth_append)
  ultimately show ?thesis by (auto simp: items_def)
qed

lemma queuePop_empty: "holds_nodes q h [] \<Longrightarrow> queuePop (Some q) h = Inr (None, q, h)"
  by (simp add: queuePop_def holds_nodes_def)

lemma holds_nodes_tail:
  assumes "holds_nodes q h (a # as)"
  shows "queue_count q \<noteq> 0" "head q = Some a" "live_at h a"
    "node_path h (node_next (object_at h a)) as" "queue_count q - 1 = of_nat (length as)"
    "unat (queue_count q) = Suc (length as)"
proof -
  have c: "queue_count q = of_nat (Suc (length as))" "Suc (length as) < 2 ^ 64"
    using assms by (auto simp: holds_nodes_def)
  then show "unat (queue_count q) = Suc (length as)" by (simp only: unat_of_nat_64)
  then show "queue_count q \<noteq> 0" by auto
  show "queue_count q - 1 = of_nat (length as)" using c(1) by simp
  show "head q = Some a" "live_at h a" "node_path h (node_next (object_at h a)) as"
    using assms by (auto simp: holds_nodes_def)
qed

lemma queuePop_run:
  assumes "holds_nodes q h (a # as)"
  shows "\<exists>q'. queuePop (Some q) h = Inr (Some (data (object_at h a)), q', h[a := None]) \<and>
    holds_nodes q' (h[a := None]) as \<and> items (h[a := None]) as = items h as"
proof -
  note t = holds_nodes_tail [OF assms]
  have na: "a \<notin> set as" "distinct as" "length as < 2 ^ 64" "tail q = Some (last (a # as))"
    using assms by (auto simp: holds_nodes_def)
  let ?n = "node_next (object_at h a)"
  let ?q = "if ?n = None then q\<lparr>head := ?n, queue_count := queue_count q - 1, tail := None\<rparr>
            else q\<lparr>head := ?n, queue_count := queue_count q - 1\<rparr>"
  have run: "queuePop (Some q) h = Inr (Some (data (object_at h a)), ?q, h[a := None])"
    using t(1,2,3) by (simp add: queuePop_def load_live release_live Let_def)
  have p: "node_path (h[a := None]) ?n as" using t(4) na(1) by (rule node_path_update_other)
  have "?n = None \<longleftrightarrow> as = []" using t(4) by (cases as) auto
  then have "holds_nodes ?q (h[a := None]) as"
    using p na t(5) by (auto simp: holds_nodes_def)
  moreover have "items (h[a := None]) as = items h as"
    by (simp add: items_def release_other [OF na(1)])
  ultimately show ?thesis using run by blast
qed


section \<open>Freeing the queue\<close>

fun run_frees :: "(('a \<Rightarrow> 'w \<Rightarrow> fault + 'w) \<times> 'a) list \<Rightarrow> 'w \<Rightarrow> fault + 'w" where
  "run_frees [] w = Inr w"
| "run_frees ((f, x) # fs) w = rbind (f x w) (run_frees fs)"

definition pending :: "('a, 'w) nodes \<Rightarrow> nat list \<Rightarrow> (('a \<Rightarrow> 'w \<Rightarrow> fault + 'w) \<times> 'a) list" where
  "pending h as = map (\<lambda>a. (freeFunction (object_at h a), data (object_at h a))) as"

definition release_nodes :: "nat list \<Rightarrow> 'o cells \<Rightarrow> 'o cells" where
  "release_nodes as h = fold (\<lambda>a h. h[a := None]) as h"

lemma release_nodes_live:
  "live_at (release_nodes as h) b \<longleftrightarrow> live_at h b \<and> b \<notin> set as"
  by (induction as arbitrary: h) (auto simp: release_nodes_def)

lemma release_nodes_object: "b \<notin> set as \<Longrightarrow> object_at (release_nodes as h) b = object_at h b"
  by (induction as arbitrary: h) (auto simp: release_nodes_def)

lemma release_nodes_length [simp]: "length (release_nodes as h) = length h"
  by (induction as arbitrary: h) (auto simp: release_nodes_def)

lemma release_nodes_append: "release_nodes (as @ bs) h = release_nodes bs (release_nodes as h)"
  by (simp add: release_nodes_def)

lemma release_nodes_simps [simp]:
  "release_nodes [] h = h" "release_nodes (a # as) h = release_nodes as (h[a := None])"
  by (simp_all add: release_nodes_def)

text \<open>The loop only needs the links and the count, not \<open>tail\<close>.\<close>

lemma queue_free_loop_run:
  assumes "node_path h (head q) as" "distinct as" "queue_count q = of_nat (length as)" "length as < 2 ^ 64"
  shows "queue_free_loop q h w =
    rbind (run_frees (pending h as) w) (\<lambda>w'. Inr (release_nodes as h, w'))"
  using assms
proof (induction as arbitrary: q h w)
  case Nil
  then show ?case by (subst queue_free_loop.simps) (simp add: pending_def release_nodes_def)
next
  case (Cons a as)
  have "unat (queue_count q) = Suc (length as)"
    using Cons.prems(3,4) unat_of_nat_64 [of "length (a # as)"] by simp
  then have pos: "queue_count q > 0" by (auto simp: word_gt_0)
  let ?q = "q\<lparr>head := node_next (object_at h a), queue_count := queue_count q - 1\<rparr>"
  have "node_path (h[a := None]) (head ?q) as"
    using Cons.prems(1,2) by (auto intro: node_path_update_other)
  note IH = Cons.IH [OF this]
  have pend: "pending (h[a := None]) as = pending h as"
    using Cons.prems(2) by (simp add: pending_def release_other [of a as])
  have "queue_free_loop q h w = rbind (freeFunction (object_at h a) (data (object_at h a)) w)
      (queue_free_loop ?q (h[a := None]))"
    using pos Cons.prems(1) by (subst queue_free_loop.simps) (simp add: load_live release_live)
  also have "queue_free_loop ?q (h[a := None]) =
      (\<lambda>w. rbind (run_frees (pending h as) w) (\<lambda>w'. Inr (release_nodes (a # as) h, w')))"
    using IH Cons.prems(2-4) by (auto simp: pend release_nodes_def)
  finally show ?case by (simp add: pending_def rbind_assoc)
qed

lemma queueFree_run:
  "holds_nodes q h as \<Longrightarrow> queueFree (Some q) h w =
    rbind (run_frees (pending h as) w) (\<lambda>w'. Inr (release_nodes as h, w'))"
  by (simp add: queueFree_def holds_nodes_def queue_free_loop_run)

section \<open>The queue is a FIFO\<close>

text \<open>The contract is stated for a queue together with its node heap, when memory suffices.\<close>

definition queue_holds :: "queue_t \<times> ('a, 'w) nodes \<Rightarrow> 'a list \<Rightarrow> bool" where
  "queue_holds qh xs \<longleftrightarrow> (\<exists>as. holds_nodes (fst qh) (snd qh) as \<and> items (snd qh) as = xs)"

definition put :: "('a \<Rightarrow> 'w \<Rightarrow> fault + 'w) \<Rightarrow> 'a \<Rightarrow> queue_t \<times> ('a, 'w) nodes \<Rightarrow>
    fault + (queue_t \<times> ('a, 'w) nodes)" where
  "put f x qh = rbind (queueInsert (Some (fst qh)) x f [] (snd qh)) (\<lambda>(q, oom, h). Inr (q, h))"

definition take_one :: "queue_t \<times> ('a, 'w) nodes \<Rightarrow> fault + ('a option \<times> queue_t \<times> ('a, 'w) nodes)" where
  "take_one qh = queuePop (Some (fst qh)) (snd qh)"

lemma items_length: "items h as = xs \<Longrightarrow> length xs = length as"
  by (auto simp: items_def)

interpretation queue_fifo: fifo queue_holds "put f" take_one "2 ^ 64"
proof
  fix q :: "queue_t \<times> ('a, 'b) nodes" and x :: 'a and xs
  assume q: "queue_holds q xs" and len: "Suc (length xs) < 2 ^ 64"
  then obtain as where as: "holds_nodes (fst q) (snd q) as" "items (snd q) as = xs"
    by (auto simp: queue_holds_def)
  have "fst (alloc_ok [])" by simp
  moreover have "Suc (length as) < 2 ^ 64" using len items_length [OF as(2)] by simp
  ultimately obtain q' h' where "queueInsert (Some (fst q)) x f [] (snd q) = Inr (q', snd (alloc_ok []), h')"
    "holds_nodes q' h' (as @ [length (snd q)])" "items h' (as @ [length (snd q)]) = items (snd q) as @ [x]"
    using queueInsert_run [OF as(1)] by blast
  then show "\<exists>q'. put f x q = Inr q' \<and> queue_holds q' (xs @ [x])"
    using as(2) by (auto simp: put_def queue_holds_def)
next
  fix q :: "queue_t \<times> ('a, 'b) nodes"
  assume "queue_holds q []"
  then show "take_one q = Inr (None, q)"
    by (auto simp: queue_holds_def take_one_def items_def queuePop_empty)
next
  fix q :: "queue_t \<times> ('a, 'b) nodes" and x :: 'a and xs
  assume "queue_holds q (x # xs)"
  then obtain a as where as: "holds_nodes (fst q) (snd q) (a # as)" "data (object_at (snd q) a) = x"
    "items (snd q) as = xs"
    by (auto simp: queue_holds_def items_def)
  from queuePop_run [OF as(1)] as(2,3) show "\<exists>q'. take_one q = Inr (Some x, q') \<and> queue_holds q' xs"
    by (auto simp: take_one_def queue_holds_def)
qed

section \<open>Properties\<close>

definition empty_queue :: queue_t where
  "empty_queue = \<lparr>queue_count = 0, head = None, tail = None\<rparr>"

lemma empty_queue_holds: "queue_holds (empty_queue, h) []" "holds_nodes empty_queue h []"
  by (auto simp: queue_holds_def holds_nodes_def empty_queue_def items_def)

text \<open>C25. First in, first out: what is inserted into an empty queue comes out again in the same
  order when the queue is popped until it gives NULL, without a fault, and leaves it empty.\<close>

theorem queue_fifo_order:
  assumes "queue_holds q []" "length xs < 2 ^ 64" "length xs < n"
  shows "\<exists>q'. rbind (queue_fifo.insert_all f xs q) (queue_fifo.drain n) = Inr (Some (xs, q')) \<and>
    queue_holds q' []"
  using assms by (rule queue_fifo.insert_all_drain)

theorem queue_fifo_order_witness:
  "\<exists>q'. rbind (queue_fifo.insert_all (\<lambda>x w. Inr (w :: unit)) [1, 2, 3 :: int] (empty_queue, []))
      (queue_fifo.drain 4) = Inr (Some ([1, 2, 3], q'))"
  using queue_fifo_order [OF empty_queue_holds(1), of "[1, 2, 3]" 4 "\<lambda>x w. Inr w" "[]"] by auto

text \<open>C26. \<open>queueFree\<close> calls each element's own free function exactly once, oldest first, stops at
  the first one that faults, and otherwise releases every node of the queue and no other.\<close>

theorem queueFree_frees_all:
  assumes "holds_nodes q h as"
  shows "queueFree (Some q) h w =
      rbind (run_frees (pending h as) w) (\<lambda>w'. Inr (release_nodes as h, w')) \<and>
    (\<forall>a. live_at (release_nodes as h) a \<longleftrightarrow> live_at h a \<and> a \<notin> set as) \<and>
    map snd (pending h as) = items h as"
  using queueFree_run [OF assms] by (simp add: release_nodes_live pending_def items_def)

definition noting_nodes :: "(nat, nat list) nodes" where
  "noting_nodes =
     [Some \<lparr>data = 7, node_next = Some 1, freeFunction = (\<lambda>x w. Inr (w @ [x]))\<rparr>,
      Some \<lparr>data = 8, node_next = None, freeFunction = (\<lambda>x w. Inr (w @ [x]))\<rparr>]"

theorem queueFree_frees_all_witness:
  "queueFree (Some \<lparr>queue_count = 2, head = Some 0, tail = Some 1\<rparr>) noting_nodes [] =
    Inr ([None, None], [7, 8])"
proof -
  have "holds_nodes \<lparr>queue_count = 2, head = Some 0, tail = Some 1\<rparr> noting_nodes [0, 1]"
    by (simp add: holds_nodes_def noting_nodes_def live_at_def object_at_def)
  from queueFree_frees_all [OF this, of "[]"] show ?thesis
    by (simp add: pending_def release_nodes_def noting_nodes_def object_at_def)
qed

end
