(* ===== verification/Jobs.thy ===== *)
theory Jobs
  imports Builtins Queue
begin

text \<open>
  jobs.c: running a queue of commands. The part of the kernel the code talks to is modelled here:
  a table of file descriptors per process, pipes, fork (the child gets a copy of everything),
  wait. What other programs and the file system answer is a parameter, \<open>kernel\<close>. A fork puts a
  record of the child next to the parent's state: its descriptors when it starts its command, and
  how it ends. \<open>events\<close> is the order of forks,
  waits and signals of the shell. The array \<open>pipes\<close> is not
  initialised and the code indexes it also outside its bounds; both read an arbitrary int, which
  the parameters \<open>junk\<close> and \<open>stack\<close> of the model supply.
\<close>

section \<open>The kernel\<close>

datatype channel =
    Terminal nat
  | Read_File string
  | Write_File string
  | Pipe_End nat bool

abbreviation pipe_in :: "nat \<Rightarrow> channel" where
  "pipe_in p \<equiv> Pipe_End p False"

abbreviation pipe_out :: "nat \<Rightarrow> channel" where
  "pipe_out p \<equiv> Pipe_End p True"

type_synonym fd_table = "channel option list"

definition fd_channel :: "fd_table \<Rightarrow> int \<Rightarrow> channel option" where
  "fd_channel t fd = (if 0 \<le> fd \<and> nat fd < length t then t ! nat fd else None)"

text \<open>The lowest free descriptor, below the limit of the process.\<close>

fun lowest_free :: "fd_table \<Rightarrow> nat" where
  "lowest_free [] = 0"
| "lowest_free (None # t) = 0"
| "lowest_free (Some c # t) = Suc (lowest_free t)"

definition fd_put :: "fd_table \<Rightarrow> nat \<Rightarrow> channel \<Rightarrow> fd_table" where
  "fd_put t n c = (t @ replicate (Suc n - length t) None)[n := Some c]"

definition fd_alloc :: "nat \<Rightarrow> channel \<Rightarrow> fd_table \<Rightarrow> int \<times> fd_table" where
  "fd_alloc limit c t =
     (if lowest_free t < limit then (int (lowest_free t), fd_put t (lowest_free t) c) else (- 1, t))"

definition fd_close :: "int \<Rightarrow> fd_table \<Rightarrow> fd_table" where
  "fd_close fd t = (if fd_channel t fd \<noteq> None then t[nat fd := None] else t)"

definition fd_dup :: "nat \<Rightarrow> int \<Rightarrow> fd_table \<Rightarrow> int \<times> fd_table" where
  "fd_dup limit fd t = (case fd_channel t fd of None \<Rightarrow> (- 1, t) | Some c \<Rightarrow> fd_alloc limit c t)"

definition fd_dup2 :: "int \<Rightarrow> nat \<Rightarrow> fd_table \<Rightarrow> fd_table" where
  "fd_dup2 fd n t = (case fd_channel t fd of None \<Rightarrow> t | Some c \<Rightarrow> fd_put t n c)"

text \<open>\<open>execvp\<close> replaces the program or gives whether the file is missing and the error text.\<close>

datatype exec_result = Replaced | Exec_Error bool string

record kernel =
  fd_limit :: nat
  open_read :: "string \<Rightarrow> string option"
  open_write :: "string \<Rightarrow> string option"
  execvp :: "string option \<Rightarrow> string list \<Rightarrow> exec_result"
  chdir :: chdir_call

section \<open>State\<close>

text \<open>A child becomes another program, or exits; then with its status and what it wrote to the
  descriptors 1 and 2 itself.\<close>

datatype child_end = Runs "string option" "string list" | Exits int string string

record child =
  child_pid :: int
  child_fds :: fd_table
  child_end :: "fault + child_end"

datatype event = Forked int | Waited int fd_table | Killed int int | Polled

record world =
  w_nodes :: "(ptr, command_heap) nodes"
  w_commands :: "command_t cells"
  w_shell :: shell
  w_fds :: fd_table
  w_pipes :: nat
  w_forks :: "bool list"
  w_next_pid :: int
  w_children :: "child list"
  w_events :: "event list"
  w_fg_pid :: int

definition add_event :: "event \<Rightarrow> world \<Rightarrow> world" where
  "add_event e w = w\<lparr>w_events := w_events w @ [e]\<rparr>"

definition waitpid :: "int \<Rightarrow> world \<Rightarrow> world" where
  "waitpid pid w = add_event (Waited pid (w_fds w)) w"

text \<open>\<open>pipe\<close> fills two ints, or fails and leaves them.\<close>

definition make_pipe :: "kernel \<Rightarrow> world \<Rightarrow> (int \<times> int) option \<times> world" where
  "make_pipe k w =
     (let (r, t1) = fd_alloc (fd_limit k) (pipe_in (w_pipes w)) (w_fds w);
          (s, t2) = fd_alloc (fd_limit k) (pipe_out (w_pipes w)) t1
      in if r = - 1 \<or> s = - 1 then (None, w)
         else (Some (r, s), w\<lparr>w_fds := t2, w_pipes := Suc (w_pipes w)\<rparr>))"

section \<open>Executing one command\<close>

text \<open>How \<open>executeCommand\<close> comes back: with a status, or not at all.\<close>

datatype outcome = Status int | Process_Exit | Program "string option" "string list"

definition command_not_found :: "string option \<Rightarrow> string" where
  "command_not_found p = (case p of None \<Rightarrow> ''(null)'' | Some s \<Rightarrow> s) @ '': command not found'' @ newline"

definition executeCommand :: "kernel \<Rightarrow> command_t \<Rightarrow> shell \<Rightarrow> fault + (outcome \<times> shell)" where
  "executeCommand k cmd sh =
     rbind (executeBuiltinCommand (chdir k) (argv cmd) sh) (\<lambda>(r, sh1).
       case r of
         None \<Rightarrow> Inr (Process_Exit, sh1)
       | Some status \<Rightarrow>
           if status = 0 then Inr (Status 0, sh1)
           else
             case execvp k (path cmd) (words_of cmd) of
               Replaced \<Rightarrow> Inr (Program (path cmd) (words_of cmd), sh1)
             | Exec_Error missing msg \<Rightarrow>
                 Inr (Status (- 1),
                      if missing then put_err (command_not_found (path cmd)) sh1
                      else perror (path cmd) msg sh1))"

text \<open>The exit handler that \<open>main\<close> registers; \<open>exit\<close> runs it in the shell and in every child.\<close>

definition exit_handler :: "shell \<Rightarrow> fault + shell" where
  "exit_handler sh = rbind (destroyAliases (sh_aliases sh)) (\<lambda>al. Inr (sh\<lparr>sh_aliases := al\<rparr>))"

definition exit_child :: "shell \<Rightarrow> int \<Rightarrow> shell \<Rightarrow> fault + child_end" where
  "exit_child parent s sh =
     rbind (exit_handler sh) (\<lambda>sh1.
       Inr (Exits s (drop (length (sh_out parent)) (sh_out sh1)) (drop (length (sh_err parent)) (sh_err sh1))))"

text \<open>What a child does with the outcome. A piped child frees its copies before it exits.\<close>

definition end_child :: "shell \<Rightarrow> outcome \<Rightarrow> (shell \<Rightarrow> fault + shell) \<Rightarrow> shell \<Rightarrow> fault + child_end" where
  "end_child parent r copies sh =
     (case r of
        Status s \<Rightarrow> rbind (copies sh) (exit_child parent s)
      | Process_Exit \<Rightarrow> exit_child parent 0 sh
      | Program p args \<Rightarrow> Inr (Runs p args))"

definition free_copies :: "ptr \<Rightarrow> queue_t \<Rightarrow> world \<Rightarrow> shell \<Rightarrow> fault + shell" where
  "free_copies cmd q w sh =
     rbind (commandFree cmd (w_commands w, al_strings (sh_aliases sh))) (\<lambda>hs.
     rbind (queueFree (Some q) (w_nodes w) hs) (\<lambda>(ns, cmds, strings).
       Inr (sh\<lparr>sh_aliases := (sh_aliases sh)\<lparr>al_strings := strings\<rparr>\<rparr>)))"

text \<open>\<open>fork\<close>: the result for the parent, and the child's record added to the world.\<close>

definition fork_child :: "(world \<Rightarrow> fd_table \<times> (fault + child_end)) \<Rightarrow> world \<Rightarrow> int \<times> world" where
  "fork_child body w =
     (let (ok, fs) = alloc_ok (w_forks w) in
      if \<not> ok then (- 1, w\<lparr>w_forks := fs\<rparr>)
      else
        let (t, e) = body w; p = w_next_pid w in
        (p, add_event (Forked p)
              (w\<lparr>w_forks := fs, w_next_pid := p + 1,
                 w_children := w_children w @ [\<lparr>child_pid = p, child_fds = t, child_end = e\<rparr>]\<rparr>)))"

definition run_in_child :: "kernel \<Rightarrow> command_t \<Rightarrow> (shell \<Rightarrow> fault + shell) \<Rightarrow> world \<Rightarrow> fault + child_end" where
  "run_in_child k cmd copies w =
     rbind (executeCommand k cmd (w_shell w)) (\<lambda>(r, sh). end_child (w_shell w) r copies sh)"

section \<open>The array of pipes\<close>

text \<open>\<open>stack k\<close> is the int found \<open>k\<close> ints after the start of the array, before it is written.\<close>

definition pipe_at :: "(int \<Rightarrow> int) \<Rightarrow> int list \<Rightarrow> int \<Rightarrow> int" where
  "pipe_at stack pipes j = (if 0 \<le> j \<and> nat j < length pipes then pipes ! nat j else stack j)"

text \<open>\<open>for (j = 0; j < tot_pipes; j += 2) pipe(pipes+j)\<close>, with \<open>m\<close> rounds left.\<close>

fun make_pipes :: "kernel \<Rightarrow> nat \<Rightarrow> nat \<Rightarrow> int list \<Rightarrow> world \<Rightarrow> int list \<times> world" where
  "make_pipes k 0 j pipes w = (pipes, w)"
| "make_pipes k (Suc m) j pipes w =
     (case make_pipe k w of
        (None, w1) \<Rightarrow> make_pipes k m (j + 2) pipes w1
      | (Some (r, s), w1) \<Rightarrow> make_pipes k m (j + 2) (pipes[j := r, Suc j := s]) w1)"

definition closepipes :: "int list \<Rightarrow> fd_table \<Rightarrow> fd_table" where
  "closepipes pipes t = fold fd_close pipes t"

text \<open>The descriptors of a piped child: \<open>first\<close> when it starts its pipeline, \<open>onward\<close> when its output
  goes to the next command.\<close>

definition wire_child ::
    "(int \<Rightarrow> int) \<Rightarrow> int list \<Rightarrow> nat \<Rightarrow> int \<Rightarrow> bool \<Rightarrow> bool \<Rightarrow> fd_table \<Rightarrow> fd_table" where
  "wire_child stack pipes n i first onward t =
     (let t1 = (if first \<and> n > 1 then fd_dup2 (pipe_at stack pipes 1) 1 t else t);
          t2 = (if \<not> onward then (if n > 1 then fd_dup2 (pipe_at stack pipes (2 * (i - 1))) 0 t1 else t1)
                else fd_dup2 (pipe_at stack pipes (2 * i + 1)) 1
                       (fd_dup2 (pipe_at stack pipes (2 * (i - 1))) 0 t1))
      in closepipes pipes t2)"

section \<open>One round of the loop\<close>

record locals =
  l_queue :: queue_t
  l_fd_in :: int
  l_fd_out :: int
  l_pid :: int
  l_pipes :: "int list"
  l_launched :: "int list"
  l_last :: ptr

text \<open>How a round ends: with the next one, by returning to the caller, who holds the queue, or never
  (the process is gone).\<close>

datatype flow = Continue locals world | Return int queue_t world | Gone world

definition close_fd :: "int \<Rightarrow> world \<Rightarrow> world" where
  "close_fd fd w = (if fd \<noteq> - 1 then w\<lparr>w_fds := fd_close fd (w_fds w)\<rparr> else w)"

definition dup_onto :: "int \<Rightarrow> nat \<Rightarrow> world \<Rightarrow> world" where
  "dup_onto fd n w = w\<lparr>w_fds := fd_dup2 fd n (w_fds w)\<rparr>"

definition mask_of :: "ptr \<Rightarrow> world \<Rightarrow> fault + connection option" where
  "mask_of p w =
     (if p = None then Inr None
      else rbind (load (w_commands w) p) (\<lambda>c. Inr (Some (connectionMask c))))"

definition to_be_waited :: "connection option \<Rightarrow> int \<Rightarrow> bool" where
  "to_be_waited m pid \<longleftrightarrow>
     m \<noteq> None \<and> pid \<noteq> - 1 \<and> m \<noteq> Some commandConnectionPipe \<and> m \<noteq> Some commandConnectionBackground"

definition wait_last :: "ptr \<Rightarrow> int \<Rightarrow> world \<Rightarrow> fault + world" where
  "wait_last p pid w =
     rbind (mask_of p w) (\<lambda>m. Inr (if to_be_waited m pid then waitpid pid w else w))"

definition sys_open ::
    "kernel \<Rightarrow> (string \<Rightarrow> string option) \<Rightarrow> (string \<Rightarrow> channel) \<Rightarrow> string \<Rightarrow> world \<Rightarrow> int \<times> string \<times> world" where
  "sys_open k answer ch p w =
     (case answer p of
        Some msg \<Rightarrow> (- 1, msg, w)
      | None \<Rightarrow>
          let (fd, t) = fd_alloc (fd_limit k) (ch p) (w_fds w)
          in (fd, ''Too many open files'', w\<lparr>w_fds := t\<rparr>))"

definition complain :: "string \<Rightarrow> string \<Rightarrow> world \<Rightarrow> world" where
  "complain p msg w = w\<lparr>w_shell := perror (Some p) msg (w_shell w)\<rparr>"

text \<open>The redirections: \<open>Inl\<close> is the early return with -1. The test before the \<open>close\<close> is the
  wrong way round: it closes the descriptor -1 and leaves an open one.\<close>

definition redirect_in :: "kernel \<Rightarrow> command_t \<Rightarrow> world \<Rightarrow> world + int \<times> world" where
  "redirect_in k c w =
     (case redirectFromPath c of
        None \<Rightarrow> Inr (- 1, w)
      | Some p \<Rightarrow>
          case sys_open k (open_read k) Read_File p w of (fd, msg, w1) \<Rightarrow>
            if fd = - 1 then Inl (complain p msg w1) else Inr (fd, w1))"

definition redirect_out :: "kernel \<Rightarrow> command_t \<Rightarrow> int \<Rightarrow> world \<Rightarrow> world + int \<times> world" where
  "redirect_out k c fd_in w =
     (case redirectToPath c of
        None \<Rightarrow> Inr (- 1, w)
      | Some p \<Rightarrow>
          case sys_open k (open_write k) Write_File p w of (fd, msg, w1) \<Rightarrow>
            if fd = - 1
            then Inl (let w2 = complain p msg w1
                      in if fd_in = - 1 then w2\<lparr>w_fds := fd_close fd_in (w_fds w2)\<rparr> else w2)
            else Inr (fd, w1))"

definition free_command :: "ptr \<Rightarrow> world \<Rightarrow> fault + world" where
  "free_command p w =
     rbind (commandFree p (w_commands w, al_strings (sh_aliases (w_shell w)))) (\<lambda>(cmds, strings).
       Inr (w\<lparr>w_commands := cmds,
              w_shell := (w_shell w)\<lparr>sh_aliases := (sh_aliases (w_shell w))\<lparr>al_strings := strings\<rparr>\<rparr>\<rparr>))"

text \<open>A command that is part of a pipeline; the first one makes all the pipes.\<close>

definition run_piped ::
    "kernel \<Rightarrow> (int \<Rightarrow> int) \<Rightarrow> nat \<Rightarrow> nat \<Rightarrow> connection option \<Rightarrow> ptr \<Rightarrow> command_t \<Rightarrow> locals \<Rightarrow> world \<Rightarrow> flow" where
  "run_piped k stack n i last_mask cmd c l w =
     (let first = (last_mask \<noteq> Some commandConnectionPipe);
          (pipes, w1) = (if first then make_pipes k (n - 1) 0 (l_pipes l) w else (l_pipes l, w));
          (pid, w2) =
            fork_child (\<lambda>w0.
              (wire_child stack pipes n (int i) first (connectionMask c = commandConnectionPipe) (w_fds w0),
               run_in_child k c (free_copies cmd (l_queue l) w0) w0)) w1
      in Continue (l\<lparr>l_pid := pid, l_pipes := pipes, l_launched := (l_launched l)[i := pid]\<rparr>)
           (w2\<lparr>w_fg_pid := pid\<rparr>))"

definition restore_std :: "int \<Rightarrow> int \<Rightarrow> world \<Rightarrow> world" where
  "restore_std stdin_copy stdout_copy w = dup_onto stdout_copy 1 (dup_onto stdin_copy 0 w)"

definition run_plain ::
    "kernel \<Rightarrow> int \<Rightarrow> int \<Rightarrow> connection option \<Rightarrow> ptr \<Rightarrow> command_t \<Rightarrow> locals \<Rightarrow> world \<Rightarrow> fault + flow" where
  "run_plain k stdin_copy stdout_copy last_mask cmd c l w =
     rbind (if connectionMask c \<noteq> commandConnectionBackground \<and> queue_count (l_queue l) = 0
            then isBuiltin (chdir k) (path c) else Inr 0) (\<lambda>b.
       if b \<noteq> 0
       then
         rbind (executeCommand k c (w_shell w)) (\<lambda>(r, sh).
           case r of
             Status s \<Rightarrow> rbind (free_command cmd (w\<lparr>w_shell := sh\<rparr>)) (\<lambda>w1. Inr (Return 0 (l_queue l) w1))
           | _ \<Rightarrow> Inr (Gone (w\<lparr>w_shell := sh\<rparr>)))
       else
         let (pid, w1) =
               (if connectionMask c \<noteq> commandConnectionPipe \<and> last_mask \<noteq> Some commandConnectionPipe
                then fork_child (\<lambda>w0. (w_fds w0, run_in_child k c Inr w0)) w
                else (l_pid l, w))
         in Inr (Continue (l\<lparr>l_pid := pid\<rparr>) (restore_std stdin_copy stdout_copy w1)))"

definition job_step ::
    "kernel \<Rightarrow> (int \<Rightarrow> int) \<Rightarrow> int \<Rightarrow> int \<Rightarrow> nat \<Rightarrow> nat \<Rightarrow> locals \<Rightarrow> world \<Rightarrow> fault + flow" where
  "job_step k stack stdin_copy stdout_copy n i l w =
     rbind (queuePop (Some (l_queue l)) (w_nodes w)) (\<lambda>(d, q, ns).
     let cmd = (case d of None \<Rightarrow> None | Some p \<Rightarrow> p) in
     rbind (wait_last (l_last l) (l_pid l) (w\<lparr>w_nodes := ns\<rparr>)) (\<lambda>w1.
     let w2 = close_fd (l_fd_out l) (close_fd (l_fd_in l) w1) in
     rbind (load (w_commands w2) cmd) (\<lambda>c.
       case redirect_in k c w2 of
         Inl w3 \<Rightarrow> Inr (Return (- 1) q w3)
       | Inr (fd_in, w3) \<Rightarrow>
       case redirect_out k c fd_in w3 of
         Inl w4 \<Rightarrow> Inr (Return (- 1) q w4)
       | Inr (fd_out, w4) \<Rightarrow>
           let w5 = (if fd_in \<noteq> - 1 then dup_onto fd_in 0 w4 else w4);
               w6 = (if fd_out \<noteq> - 1 then dup_onto fd_out 1 w5 else w5);
               l1 = l\<lparr>l_queue := q, l_fd_in := fd_in, l_fd_out := fd_out\<rparr> in
           rbind (mask_of (l_last l) w6) (\<lambda>m.
           rbind (if m = Some commandConnectionPipe \<or> connectionMask c = commandConnectionPipe
                  then Inr (run_piped k stack n i m cmd c l1 w6)
                  else run_plain k stdin_copy stdout_copy m cmd c l1 w6) (\<lambda>f.
             case f of
               Continue l2 w7 \<Rightarrow>
                 rbind (if l_last l2 \<noteq> None then free_command (l_last l2) w7 else Inr w7) (\<lambda>w8.
                   Inr (Continue (l2\<lparr>l_last := cmd\<rparr>) w8))
             | _ \<Rightarrow> Inr f)))))"

section \<open>The whole queue\<close>

fun job_loop ::
    "kernel \<Rightarrow> (int \<Rightarrow> int) \<Rightarrow> int \<Rightarrow> int \<Rightarrow> nat \<Rightarrow> nat \<Rightarrow> nat \<Rightarrow> locals \<Rightarrow> world \<Rightarrow> fault + flow" where
  "job_loop k stack ic oc n 0 i l w = Inr (Continue l w)"
| "job_loop k stack ic oc n (Suc m) i l w =
     rbind (job_step k stack ic oc n i l w) (\<lambda>f.
       case f of
         Continue l1 w1 \<Rightarrow> job_loop k stack ic oc n m (Suc i) l1 w1
       | _ \<Rightarrow> Inr f)"

text \<open>What only the parent reaches after the loop.\<close>

definition finish_jobs :: "int \<Rightarrow> int \<Rightarrow> locals \<Rightarrow> world \<Rightarrow> fault + flow" where
  "finish_jobs stdin_copy stdout_copy l w =
     rbind (wait_last (l_last l) (l_pid l)
              (restore_std stdin_copy stdout_copy (w\<lparr>w_fds := closepipes (l_pipes l) (w_fds w)\<rparr>))) (\<lambda>w1.
     rbind (free_command (l_last l) w1) (\<lambda>w2.
       Inr (Return 0 (l_queue l) ((fold waitpid (l_launched l) w2)\<lparr>w_fg_pid := 0\<rparr>))))"

definition command_count :: "queue_t \<Rightarrow> int" where
  "command_count q = sint (ucast (queue_count q) :: 32 word)"

text \<open>\<open>junk\<close> is what the array \<open>launched\<close> holds before it is written.\<close>

definition executeCommandsInQueue ::
    "kernel \<Rightarrow> (int \<Rightarrow> int) \<Rightarrow> (nat \<Rightarrow> int) \<Rightarrow> queue_t option \<Rightarrow> world \<Rightarrow> fault + flow" where
  "executeCommandsInQueue k stack junk queue w =
     (case queue of
        None \<Rightarrow> Inl AssertFailed
      | Some q \<Rightarrow>
          if queue_count q = 0 then Inr (Return 0 q w)
          else
            let n = nat (command_count q);
                (stdin_copy, t1) = fd_dup (fd_limit k) 0 (w_fds w);
                (stdout_copy, t2) = fd_dup (fd_limit k) 1 t1;
                l = \<lparr>l_queue = q, l_fd_in = - 1, l_fd_out = - 1, l_pid = - 1,
                     l_pipes = map (\<lambda>j. stack (int j)) [0..<2 * (n - 1)],
                     l_launched = map junk [0..<n], l_last = None\<rparr>
            in rbind (job_loop k stack stdin_copy stdout_copy n n 0 l (w\<lparr>w_fds := t2\<rparr>)) (\<lambda>f.
                 case f of
                   Continue l1 w1 \<Rightarrow> finish_jobs stdin_copy stdout_copy l1 w1
                 | _ \<Rightarrow> Inr f))"

end
