(* ===== verification/Jobs_Correct.thy ===== *)
theory Jobs_Correct
  imports Jobs
begin

text \<open>
  What \<open>executeCommandsInQueue\<close> does with lists of external commands and with pipelines: which
  processes it starts, with which descriptors, when it waits, what it frees and what it leaves
  open. The rounds of the loop are computed once (\<open>job_step_run\<close>) and lifted to the loop by
  induction over the commands that remain in the queue.
\<close>

section \<open>Single steps\<close>

text \<open>A command that is not a builtin and that \<open>execvp\<close> finds.\<close>

definition external :: "kernel \<Rightarrow> command_t \<Rightarrow> bool" where
  "external k c \<longleftrightarrow>
     (case argv c of
        Some (Some name # _) \<Rightarrow> cstr name \<notin> set builtin_names \<and> path c = Some name
      | _ \<Rightarrow> False) \<and>
     execvp k (path c) (words_of c) = Replaced"

definition no_redirect :: "command_t \<Rightarrow> bool" where
  "no_redirect c \<longleftrightarrow> redirectFromPath c = None \<and> redirectToPath c = None"

lemma executeCommand_external:
  assumes "external k c"
  shows "executeCommand k c sh = Inr (Program (path c) (words_of c), sh)"
proof -
  obtain name rest where a: "argv c = Some (Some name # rest)" "cstr name \<notin> set builtin_names"
    "path c = Some name" "execvp k (path c) (words_of c) = Replaced"
    using assms by (auto simp: external_def split: option.splits list.splits)
  have "map_of (builtin_table (chdir k)) (cstr name) = None" using a(2) builtin_known by simp
  with a show ?thesis by (simp add: executeCommand_def executeBuiltin_run)
qed

lemma run_in_child_external:
  "external k c \<Longrightarrow> run_in_child k c f w = Inr (Runs (path c) (words_of c))"
  by (simp add: run_in_child_def executeCommand_external end_child_def)

lemma isBuiltin_external: "external k c \<Longrightarrow> isBuiltin (chdir k) (path c) = Inr 0"
  by (auto simp: external_def isBuiltin_run split: option.splits list.splits)

definition set_heap :: "command_t cells \<Rightarrow> strheap \<Rightarrow> world \<Rightarrow> world" where
  "set_heap cmds S w =
     w\<lparr>w_commands := cmds,
       w_shell := (w_shell w)\<lparr>sh_aliases := (sh_aliases (w_shell w))\<lparr>al_strings := S\<rparr>\<rparr>\<rparr>"

abbreviation w_strings :: "world \<Rightarrow> strheap" where
  "w_strings w \<equiv> al_strings (sh_aliases (w_shell w))"

lemma set_heap_sel [simp]:
  "w_nodes (set_heap h S w) = w_nodes w" "w_commands (set_heap h S w) = h"
  "w_strings (set_heap h S w) = S" "w_fds (set_heap h S w) = w_fds w"
  "w_forks (set_heap h S w) = w_forks w" "w_next_pid (set_heap h S w) = w_next_pid w"
  "w_children (set_heap h S w) = w_children w" "w_events (set_heap h S w) = w_events w"
  "w_pipes (set_heap h S w) = w_pipes w" "w_fg_pid (set_heap h S w) = w_fg_pid w"
  by (simp_all add: set_heap_def)

text \<open>What every world reached from \<open>w\<close> by external commands shares with it: of the state of the
  builtins only the heap strings change, process ids grow, no fork is answered but as foreseen, and
  no signal is sent.\<close>

definition kills :: "event list \<Rightarrow> event list" where
  "kills = filter (\<lambda>e. case e of Killed p s \<Rightarrow> True | _ \<Rightarrow> False)"

lemma kills_simps [simp]:
  "kills [] = []" "kills (es @ fs) = kills es @ kills fs" "kills (Forked p # es) = kills es"
  "kills (Waited p t # es) = kills es" "kills (Killed p s # es) = Killed p s # kills es"
  "kills (Polled # es) = kills es" "kills (map Forked ps) = []" "kills (map (\<lambda>x. Waited (f x) t) xs) = []"
  by (simp_all add: kills_def filter_empty_conv)

definition carries_on :: "world \<Rightarrow> world \<Rightarrow> bool" where
  "carries_on w w' \<longleftrightarrow>
     w_shell w' = (w_shell w)\<lparr>sh_aliases := (sh_aliases (w_shell w))\<lparr>al_strings := w_strings w'\<rparr>\<rparr> \<and>
     set (w_forks w') \<subseteq> set (w_forks w) \<and> w_next_pid w \<le> w_next_pid w' \<and>
     kills (w_events w') = kills (w_events w)"

lemma carries_on_refl [simp]:
  "w_shell w' = w_shell w \<Longrightarrow> set (w_forks w') \<subseteq> set (w_forks w) \<Longrightarrow> w_next_pid w \<le> w_next_pid w' \<Longrightarrow>
   kills (w_events w') = kills (w_events w) \<Longrightarrow> carries_on w w'"
  by (cases "w_shell w") (simp add: carries_on_def)

lemma carries_on_set_heap [simp]:
  "w_shell w' = w_shell w \<Longrightarrow> set (w_forks w') \<subseteq> set (w_forks w) \<Longrightarrow> w_next_pid w \<le> w_next_pid w' \<Longrightarrow>
   kills (w_events w') = kills (w_events w) \<Longrightarrow> carries_on w (set_heap h S w')"
  by (simp add: carries_on_def set_heap_def)

lemma carries_on_trans:
  assumes "carries_on w w1" "carries_on w1 w2"
  shows "carries_on w w2"
proof -
  have "w_shell w2 = (w_shell w1)\<lparr>sh_aliases := (sh_aliases (w_shell w1))\<lparr>al_strings := w_strings w2\<rparr>\<rparr>"
    "w_shell w1 = (w_shell w)\<lparr>sh_aliases := (sh_aliases (w_shell w))\<lparr>al_strings := w_strings w1\<rparr>\<rparr>"
    using assms by (simp_all add: carries_on_def)
  moreover have "set (w_forks w2) \<subseteq> set (w_forks w)" "w_next_pid w \<le> w_next_pid w2"
    "kills (w_events w2) = kills (w_events w)"
    using assms by (auto simp: carries_on_def)
  ultimately show ?thesis unfolding carries_on_def
    by (cases "w_shell w") (metis (no_types, lifting) alias_state.update_convs(3) alias_state.cases
        shell.select_convs(1) shell.update_convs(1))
qed

lemma free_command_run:
  assumes "live_at (w_commands w) p" "command_ok (object_at (w_commands w) p)"
    and "w_strings w = command_strings (object_at (w_commands w) p) + S"
  shows "free_command (Some p) w = Inr (set_heap ((w_commands w)[p := None]) S w)"
  using commandFree_run [OF assms(1,2), of S] assms(3)
  by (simp add: free_command_def set_heap_def)

text \<open>The world after a successful fork.\<close>

definition spawn :: "fd_table \<Rightarrow> fault + child_end \<Rightarrow> world \<Rightarrow> world" where
  "spawn t e w =
     w\<lparr>w_forks := snd (alloc_ok (w_forks w)), w_next_pid := w_next_pid w + 1,
       w_children := w_children w @ [\<lparr>child_pid = w_next_pid w, child_fds = t, child_end = e\<rparr>],
       w_events := w_events w @ [Forked (w_next_pid w)]\<rparr>"

lemma fork_child_run:
  "fst (alloc_ok (w_forks w)) \<Longrightarrow>
   fork_child body w = (w_next_pid w, spawn (fst (body w)) (snd (body w)) w)"
  by (simp add: fork_child_def spawn_def add_event_def case_prod_beta Let_def)

lemma spawn_sel [simp]:
  "w_nodes (spawn t e w) = w_nodes w" "w_commands (spawn t e w) = w_commands w"
  "w_shell (spawn t e w) = w_shell w" "w_fds (spawn t e w) = w_fds w"
  "w_forks (spawn t e w) = snd (alloc_ok (w_forks w))" "w_next_pid (spawn t e w) = w_next_pid w + 1"
  "w_children (spawn t e w) = w_children w @ [\<lparr>child_pid = w_next_pid w, child_fds = t, child_end = e\<rparr>]"
  "w_events (spawn t e w) = w_events w @ [Forked (w_next_pid w)]"
  "w_pipes (spawn t e w) = w_pipes w"
  by (simp_all add: spawn_def)

definition wait_if :: "bool \<Rightarrow> int \<Rightarrow> world \<Rightarrow> world" where
  "wait_if b pid w = (if b then waitpid pid w else w)"

lemma wait_if_sel [simp]:
  "w_nodes (wait_if b pid w) = w_nodes w" "w_commands (wait_if b pid w) = w_commands w"
  "w_shell (wait_if b pid w) = w_shell w" "w_fds (wait_if b pid w) = w_fds w"
  "w_forks (wait_if b pid w) = w_forks w" "w_next_pid (wait_if b pid w) = w_next_pid w"
  "w_children (wait_if b pid w) = w_children w"
  "w_events (wait_if b pid w) = w_events w @ (if b then [Waited pid (w_fds w)] else [])"
  "w_pipes (wait_if b pid w) = w_pipes w" "w_fg_pid (wait_if b pid w) = w_fg_pid w"
  by (simp_all add: wait_if_def waitpid_def add_event_def)

lemma wait_last_run:
  "mask_of p w = Inr m \<Longrightarrow> wait_last p pid w = Inr (wait_if (to_be_waited m pid) pid w)"
  by (simp add: wait_last_def wait_if_def)

lemma mask_of_cong: "w_commands w = w_commands w' \<Longrightarrow> mask_of p w = mask_of p w'"
  by (simp add: mask_of_def)

lemma job_step_run:
  assumes "queuePop (Some (l_queue l)) (w_nodes w) = Inr (Some (Some p), q, ns)"
    and "l_fd_in l = - 1" "l_fd_out l = - 1"
    and "live_at (w_commands w) p" "object_at (w_commands w) p = c" "no_redirect c"
    and "mask_of (l_last l) w = Inr m"
  shows "job_step k stack ic oc n i l w =
    rbind (if m = Some commandConnectionPipe \<or> connectionMask c = commandConnectionPipe
           then Inr (run_piped k stack n i m (Some p) c (l\<lparr>l_queue := q\<rparr>)
                  (wait_if (to_be_waited m (l_pid l)) (l_pid l) (w\<lparr>w_nodes := ns\<rparr>)))
           else run_plain k ic oc m (Some p) c (l\<lparr>l_queue := q\<rparr>)
                  (wait_if (to_be_waited m (l_pid l)) (l_pid l) (w\<lparr>w_nodes := ns\<rparr>))) (\<lambda>f.
      case f of
        Continue l2 w7 \<Rightarrow>
          rbind (if l_last l2 \<noteq> None then free_command (l_last l2) w7 else Inr w7) (\<lambda>w8.
            Inr (Continue (l2\<lparr>l_last := Some p\<rparr>) w8))
      | _ \<Rightarrow> Inr f)"
proof -
  let ?w1 = "wait_if (to_be_waited m (l_pid l)) (l_pid l) (w\<lparr>w_nodes := ns\<rparr>)"
  have m1: "mask_of (l_last l) (w\<lparr>w_nodes := ns\<rparr>) = Inr m" "mask_of (l_last l) ?w1 = Inr m"
    using assms(7) mask_of_cong [of "w\<lparr>w_nodes := ns\<rparr>" w] mask_of_cong [of ?w1 w] by simp_all
  show ?thesis
    using assms(1-6) m1
    by (cases l) (simp add: job_step_def wait_last_run close_fd_def load_live no_redirect_def
        redirect_in_def redirect_out_def Let_def cong: flow.case_cong)
qed

section \<open>Ownership of the commands\<close>

text \<open>The commands \<open>ptrs\<close> are alive and own their strings; \<open>S\<close> are the other strings.\<close>

definition held :: "world \<Rightarrow> nat list \<Rightarrow> strheap \<Rightarrow> bool" where
  "held w ptrs S \<longleftrightarrow>
     distinct ptrs \<and> (\<forall>a \<in> set ptrs. live_at (w_commands w) a \<and> command_ok (object_at (w_commands w) a)) \<and>
     w_strings w = strings_of (w_commands w) ptrs + S"

lemma held_cong:
  "w_commands w = w_commands w' \<Longrightarrow> w_shell w = w_shell w' \<Longrightarrow> held w ptrs S = held w' ptrs S"
  by (simp add: held_def)

lemma free_held:
  assumes "held w (b # ps) S"
  shows "\<exists>w'. free_command (Some b) w = Inr w' \<and> held w' ps S \<and>
    w' = set_heap ((w_commands w)[b := None]) (strings_of (w_commands w) ps + S) w"
proof -
  let ?w = "set_heap ((w_commands w)[b := None]) (strings_of (w_commands w) ps + S) w"
  have h: "b \<notin> set ps" "distinct ps" "live_at (w_commands w) b" "command_ok (object_at (w_commands w) b)"
    "\<forall>a \<in> set ps. live_at (w_commands w) a \<and> command_ok (object_at (w_commands w) a)"
    "w_strings w = command_strings (object_at (w_commands w) b) + (strings_of (w_commands w) ps + S)"
    using assms by (auto simp: held_def strings_of_Cons add.assoc)
  have "a \<noteq> b" if "a \<in> set ps" for a using that h(1) by metis
  then have "held ?w ps S" using h(1,2,5) by (simp add: held_def strings_of_release)
  with free_command_run [OF h(3,4,6)] show ?thesis by blast
qed

definition last_ptr :: "nat list \<Rightarrow> ptr" where
  "last_ptr lasts = (case lasts of [] \<Rightarrow> None | b # _ \<Rightarrow> Some b)"

lemma last_ptr_simps [simp]: "last_ptr [] = None" "last_ptr (b # bs) = Some b"
  by (simp_all add: last_ptr_def)

lemma free_lasts:
  assumes "held w (lasts @ ps) S" "length lasts \<le> 1"
  shows "\<exists>w'. (if last_ptr lasts \<noteq> None then free_command (last_ptr lasts) w else Inr w) = Inr w' \<and>
    held w' ps S \<and> w_commands w' = release_nodes lasts (w_commands w) \<and>
    w_nodes w' = w_nodes w \<and> w_fds w' = w_fds w \<and> w_forks w' = w_forks w \<and> w_next_pid w' = w_next_pid w \<and>
    w_children w' = w_children w \<and> w_events w' = w_events w \<and> w_pipes w' = w_pipes w \<and> carries_on w w'"
proof (cases lasts)
  case Nil
  then show ?thesis using assms(1) by simp
next
  case (Cons b bs)
  then have "bs = []" using assms(2) by simp
  with Cons free_held [of w b ps S] assms(1) show ?thesis by fastforce
qed

definition last_mask :: "nat list \<Rightarrow> world \<Rightarrow> connection option" where
  "last_mask lasts w = (case lasts of [] \<Rightarrow> None | b # _ \<Rightarrow> Some (connectionMask (object_at (w_commands w) b)))"

lemma mask_of_lasts:
  "held w (lasts @ ps) S \<Longrightarrow> mask_of (last_ptr lasts) w = Inr (last_mask lasts w)"
  by (cases lasts) (auto simp: mask_of_def last_mask_def held_def load_live)

definition wait_events :: "connection option \<Rightarrow> int \<Rightarrow> fd_table \<Rightarrow> event list" where
  "wait_events m pid t = (if to_be_waited m pid then [Waited pid t] else [])"

lemma pop_item:
  assumes "holds_nodes q h (a # as)" "items h (a # as) = map Some (p # ps)"
  shows "\<exists>q'. queuePop (Some q) h = Inr (Some (Some p), q', h[a := None]) \<and>
    holds_nodes q' (h[a := None]) as \<and> items (h[a := None]) as = map Some ps"
proof -
  have "data (object_at h a) = Some p" "items h as = map Some ps" using assms(2) by (simp_all add: items_def)
  with queuePop_run [OF assms(1)] show ?thesis by metis
qed

section \<open>Lists without pipes\<close>

lemma plain_step:
  assumes q: "holds_nodes (l_queue l) (w_nodes w) (a # as)" "items (w_nodes w) (a # as) = map Some (p # ps)"
    and l: "l_fd_in l = - 1" "l_fd_out l = - 1" "l_last l = last_ptr lasts" "length lasts \<le> 1"
    and h: "held w (lasts @ p # ps) S" and m: "last_mask lasts w \<noteq> Some commandConnectionPipe"
    and c: "object_at (w_commands w) p = c" "external k c" "no_redirect c"
      "connectionMask c \<noteq> commandConnectionPipe"
    and fds: "fd_dup2 ic 0 (w_fds w) = w_fds w" "fd_dup2 oc 1 (w_fds w) = w_fds w"
    and forks: "fst (alloc_ok (w_forks w))"
  shows "\<exists>q' w'. job_step k stack ic oc n i l w =
      Inr (Continue (l\<lparr>l_queue := q', l_pid := w_next_pid w, l_last := Some p\<rparr>) w') \<and>
    holds_nodes q' (w_nodes w') as \<and> items (w_nodes w') as = map Some ps \<and>
    w_nodes w' = (w_nodes w)[a := None] \<and> held w' (p # ps) S \<and>
    w_commands w' = release_nodes lasts (w_commands w) \<and> w_fds w' = w_fds w \<and>
    w_forks w' = snd (alloc_ok (w_forks w)) \<and> w_next_pid w' = w_next_pid w + 1 \<and>
    w_children w' = w_children w @
      [\<lparr>child_pid = w_next_pid w, child_fds = w_fds w, child_end = Inr (Runs (path c) (words_of c))\<rparr>] \<and>
    w_events w' = w_events w @ wait_events (last_mask lasts w) (l_pid l) (w_fds w) @ [Forked (w_next_pid w)] \<and>
    carries_on w w'"
proof -
  obtain q' where pop: "queuePop (Some (l_queue l)) (w_nodes w) = Inr (Some (Some p), q', (w_nodes w)[a := None])"
    "holds_nodes q' ((w_nodes w)[a := None]) as" "items ((w_nodes w)[a := None]) as = map Some ps"
    using pop_item [OF q] by blast
  have live: "live_at (w_commands w) p" using h by (simp add: held_def)
  let ?m = "last_mask lasts w"
  let ?w1 = "wait_if (to_be_waited ?m (l_pid l)) (l_pid l) (w\<lparr>w_nodes := (w_nodes w)[a := None]\<rparr>)"
  let ?w2 = "spawn (w_fds w) (Inr (Runs (path c) (words_of c))) ?w1"
  have mask: "mask_of (l_last l) w = Inr ?m" using mask_of_lasts [OF h] l(3) by simp
  have restore: "restore_std ic oc ?w2 = ?w2"
    using fds by (simp add: restore_std_def dup_onto_def)
  have plain: "run_plain k ic oc ?m (Some p) c (l\<lparr>l_queue := q'\<rparr>) ?w1 =
      Inr (Continue (l\<lparr>l_queue := q', l_pid := w_next_pid w\<rparr>) ?w2)"
    using c(2,4) m forks restore
    by (simp add: run_plain_def isBuiltin_external fork_child_run run_in_child_external)
  obtain w' where w': "(if last_ptr lasts \<noteq> None then free_command (last_ptr lasts) ?w2 else Inr ?w2) = Inr w'"
    "held w' (p # ps) S" "w_commands w' = release_nodes lasts (w_commands w)"
    "w_nodes w' = w_nodes ?w2" "w_fds w' = w_fds ?w2" "w_forks w' = w_forks ?w2" "w_next_pid w' = w_next_pid ?w2"
    "w_children w' = w_children ?w2" "w_events w' = w_events ?w2" "carries_on ?w2 w'"
    using free_lasts [of ?w2 lasts "p # ps" S] h l(4) held_cong [of ?w2 w] by auto
  have "job_step k stack ic oc n i l w =
      Inr (Continue (l\<lparr>l_queue := q', l_pid := w_next_pid w, l_last := Some p\<rparr>) w')"
    unfolding job_step_run [OF pop(1) l(1,2) live c(1,3) mask] using plain m c(4) w'(1) l(3)
    by (cases lasts) simp_all
  moreover have "carries_on w w'" by (rule carries_on_trans [OF _ w'(10)]) (simp add: alloc_ok_subset)
  ultimately show ?thesis using pop(2,3) w'(2-9) by (auto simp: wait_events_def)
qed

text \<open>Forks and waits for commands with these connections, the first one being process \<open>p\<close>.\<close>

fun job_events :: "int \<Rightarrow> connection list \<Rightarrow> fd_table \<Rightarrow> event list" where
  "job_events p [] t = []"
| "job_events p (m # ms) t =
     Forked p # (if m = commandConnectionBackground then [] else [Waited p t]) @ job_events (p + 1) ms t"

fun job_children :: "int \<Rightarrow> command_t list \<Rightarrow> fd_table \<Rightarrow> child list" where
  "job_children p [] t = []"
| "job_children p (c # cs) t =
     \<lparr>child_pid = p, child_fds = t, child_end = Inr (Runs (path c) (words_of c))\<rparr> # job_children (p + 1) cs t"

lemma wait_events_plain:
  "m \<noteq> commandConnectionPipe \<Longrightarrow> pid \<noteq> - 1 \<Longrightarrow>
   wait_events (Some m) pid t = (if m = commandConnectionBackground then [] else [Waited pid t])"
  by (simp add: wait_events_def to_be_waited_def)

text \<open>The commands from the current one on; \<open>lasts\<close> is the previous one, if any.\<close>

lemma plain_loop:
  assumes "holds_nodes (l_queue l) (w_nodes w) as" "items (w_nodes w) as = map Some ps"
    and "l_fd_in l = - 1" "l_fd_out l = - 1" "l_last l = last_ptr lasts" "length lasts \<le> 1"
    and "held w (lasts @ ps) S" "last_mask lasts w \<noteq> Some commandConnectionPipe"
    and "cs = map (object_at (w_commands w)) ps"
    and "\<forall>c \<in> set cs. external k c \<and> no_redirect c \<and> connectionMask c \<noteq> commandConnectionPipe"
    and "fd_dup2 ic 0 (w_fds w) = w_fds w" "fd_dup2 oc 1 (w_fds w) = w_fds w"
    and "False \<notin> set (w_forks w)" "0 < w_next_pid w" "ps \<noteq> []"
  shows "\<exists>l' w' q'. job_loop k stack ic oc n (length ps) i l w = Inr (Continue l' w') \<and>
    l' = l\<lparr>l_queue := q', l_pid := w_next_pid w + int (length ps) - 1, l_last := Some (last ps)\<rparr> \<and>
    holds_nodes q' (w_nodes w') [] \<and> w_nodes w' = release_nodes as (w_nodes w) \<and>
    held w' [last ps] S \<and> w_commands w' = release_nodes (lasts @ butlast ps) (w_commands w) \<and>
    w_fds w' = w_fds w \<and> False \<notin> set (w_forks w') \<and> w_next_pid w' = w_next_pid w + int (length ps) \<and>
    w_children w' = w_children w @ job_children (w_next_pid w) cs (w_fds w) \<and>
    w_events w' @ wait_events (last_mask [last ps] w') (l_pid l') (w_fds w) =
      w_events w @ wait_events (last_mask lasts w) (l_pid l) (w_fds w) @
      job_events (w_next_pid w) (map connectionMask cs) (w_fds w) \<and>
    carries_on w w'"
  using assms
proof (induction ps arbitrary: as lasts cs i l w)
  case Nil
  then show ?case by simp
next
  case (Cons p ps)
  obtain a as' where as: "as = a # as'" using Cons.prems(2) by (cases as) (auto simp: items_def)
  obtain c where c: "object_at (w_commands w) p = c" "external k c" "no_redirect c"
    "connectionMask c \<noteq> commandConnectionPipe"
    using Cons.prems(9,10) by simp
  have fork: "fst (alloc_ok (w_forks w))" "False \<notin> set (snd (alloc_ok (w_forks w)))"
    using Cons.prems(13) alloc_ok_False alloc_ok_subset by blast+
  have "p \<notin> set lasts" "\<forall>b \<in> set ps. b \<notin> set lasts" using Cons.prems(7) by (auto simp: held_def)
  note fresh = this
  obtain q1 w1 where s: "job_step k stack ic oc n i l w =
      Inr (Continue (l\<lparr>l_queue := q1, l_pid := w_next_pid w, l_last := Some p\<rparr>) w1)"
    "holds_nodes q1 (w_nodes w1) as'" "items (w_nodes w1) as' = map Some ps"
    "w_nodes w1 = (w_nodes w)[a := None]" "held w1 (p # ps) S"
    "w_commands w1 = release_nodes lasts (w_commands w)" "w_fds w1 = w_fds w"
    "w_forks w1 = snd (alloc_ok (w_forks w))" "w_next_pid w1 = w_next_pid w + 1"
    "w_children w1 = w_children w @
      [\<lparr>child_pid = w_next_pid w, child_fds = w_fds w, child_end = Inr (Runs (path c) (words_of c))\<rparr>]"
    "w_events w1 = w_events w @ wait_events (last_mask lasts w) (l_pid l) (w_fds w) @ [Forked (w_next_pid w)]"
    "carries_on w w1"
    using plain_step [OF Cons.prems(1,2) [unfolded as] Cons.prems(3-8) c Cons.prems(11,12) fork(1)] by blast
  let ?l1 = "l\<lparr>l_queue := q1, l_pid := w_next_pid w, l_last := Some p\<rparr>"
  have obj: "object_at (w_commands w1) b = object_at (w_commands w) b" if "b \<notin> set lasts" for b
    unfolding s(6) using that by (rule release_nodes_object)
  have mask1: "last_mask [p] w1 = Some (connectionMask c)" using obj [OF fresh(1)] c(1) by (simp add: last_mask_def)
  have pidpos: "w_next_pid w \<noteq> - 1" using Cons.prems(14) by simp
  show ?case
  proof (cases "ps = []")
    case True
    have "as' = []" using s(3) True by (simp add: items_def)
    with True s fork(2) mask1 c(4) pidpos Cons.prems(9) show ?thesis
      unfolding as
      by (intro exI [of _ ?l1] exI [of _ w1] exI [of _ q1]) (simp add: wait_events_plain c(1))
  next
    case False
    have cs: "map (object_at (w_commands w)) ps = map (object_at (w_commands w1)) ps"
      using obj fresh(2) by simp
    have rest: "cs = c # map (object_at (w_commands w1)) ps" using Cons.prems(9) c(1) cs by simp
    have pre: "holds_nodes (l_queue ?l1) (w_nodes w1) as'" "items (w_nodes w1) as' = map Some ps"
      "l_fd_in ?l1 = - 1" "l_fd_out ?l1 = - 1" "l_last ?l1 = last_ptr [p]" "length [p] \<le> 1"
      "held w1 ([p] @ ps) S" "last_mask [p] w1 \<noteq> Some commandConnectionPipe"
      "map (object_at (w_commands w1)) ps = map (object_at (w_commands w1)) ps"
      "\<forall>c \<in> set (map (object_at (w_commands w1)) ps).
        external k c \<and> no_redirect c \<and> connectionMask c \<noteq> commandConnectionPipe"
      "fd_dup2 ic 0 (w_fds w1) = w_fds w1" "fd_dup2 oc 1 (w_fds w1) = w_fds w1"
      "False \<notin> set (w_forks w1)" "0 < w_next_pid w1" "ps \<noteq> []"
      using s(2,3,5,7-9) Cons.prems(3,4,10-14) False fork(2) mask1 c(4) unfolding rest by simp_all
    obtain l' w' q' where r: "job_loop k stack ic oc n (length ps) (Suc i) ?l1 w1 = Inr (Continue l' w')"
      "l' = ?l1\<lparr>l_queue := q', l_pid := w_next_pid w1 + int (length ps) - 1, l_last := Some (last ps)\<rparr>"
      "holds_nodes q' (w_nodes w') []" "w_nodes w' = release_nodes as' (w_nodes w1)"
      "held w' [last ps] S" "w_commands w' = release_nodes ([p] @ butlast ps) (w_commands w1)"
      "w_fds w' = w_fds w1" "False \<notin> set (w_forks w')" "w_next_pid w' = w_next_pid w1 + int (length ps)"
      "w_children w' = w_children w1 @ job_children (w_next_pid w1) (map (object_at (w_commands w1)) ps) (w_fds w1)"
      "w_events w' @ wait_events (last_mask [last ps] w') (l_pid l') (w_fds w1) =
        w_events w1 @ wait_events (last_mask [p] w1) (l_pid ?l1) (w_fds w1) @
        job_events (w_next_pid w1) (map connectionMask (map (object_at (w_commands w1)) ps)) (w_fds w1)"
      "carries_on w1 w'"
      using Cons.IH [OF pre] by blast
    have run: "job_loop k stack ic oc n (length (p # ps)) i l w = Inr (Continue l' w')"
      using s(1) r(1) by simp
    have heap: "w_commands w' = release_nodes (lasts @ butlast (p # ps)) (w_commands w)"
      using r(6) s(6) False by (simp add: release_nodes_append)
    have events: "w_events w' @ wait_events (last_mask [last (p # ps)] w') (l_pid l') (w_fds w) =
        w_events w @ wait_events (last_mask lasts w) (l_pid l) (w_fds w) @
        job_events (w_next_pid w) (map connectionMask cs) (w_fds w)"
      using r(11) s(7,9,11) mask1 c(4) pidpos False unfolding rest by (simp add: wait_events_plain)
    have children: "w_children w' = w_children w @ job_children (w_next_pid w) cs (w_fds w)"
      using r(10) s(7,9,10) unfolding rest by simp
    have nodes: "w_nodes w' = release_nodes as (w_nodes w)" using r(4) s(4) as by simp
    have l': "l' = l\<lparr>l_queue := q', l_pid := w_next_pid w + int (length (p # ps)) - 1, l_last := Some (last (p # ps))\<rparr>"
      using r(2) s(9) False by simp
    have "carries_on w w'" using s(12) r(12) by (rule carries_on_trans)
    then show ?thesis
      using run heap events children nodes l' r(3,5,7-9) s(7,9) False
      by (intro exI [of _ l'] exI [of _ w'] exI [of _ q'] conjI) simp_all
  qed
qed

section \<open>Descriptors\<close>

definition open_count :: "fd_table \<Rightarrow> nat" where
  "open_count t = length (filter (\<lambda>c. c \<noteq> None) t)"

lemma lowest_free_le: "lowest_free t \<le> length t"
  by (induction t rule: lowest_free.induct) auto

lemma lowest_free_None: "lowest_free t < length t \<Longrightarrow> t ! lowest_free t = None"
  by (induction t rule: lowest_free.induct) auto

lemma fd_put_free:
  "fd_put t (lowest_free t) c =
    (if lowest_free t < length t then t[lowest_free t := Some c] else t @ [Some c])"
  using lowest_free_le [of t] by (auto simp: fd_put_def list_update_append)

lemma fd_put_same: "fd_channel t (int n) = Some c \<Longrightarrow> fd_put t n c = t"
  by (auto simp: fd_channel_def fd_put_def split: if_splits) (metis list_update_id)

lemma fd_channel_put:
  "fd_channel (fd_put t n c) fd =
    (if fd = int n then Some c else if 0 \<le> fd \<and> nat fd < length t then t ! nat fd else None)"
  by (auto simp: fd_channel_def fd_put_def nth_append nth_list_update simp del: replicate_Suc)

lemma fd_channel_put_other:
  "fd \<noteq> int n \<Longrightarrow> fd_channel (fd_put t n c) fd = fd_channel t fd"
  by (simp add: fd_channel_put) (simp add: fd_channel_def)

lemma fd_channel_lowest: "fd_channel t (int (lowest_free t)) = None"
  using lowest_free_None [of t] by (auto simp: fd_channel_def)

lemma open_count_put: "open_count (fd_put t (lowest_free t) c) = Suc (open_count t)"
proof (cases "lowest_free t < length t")
  case True
  then have "t = take (lowest_free t) t @ None # drop (Suc (lowest_free t)) t"
    using lowest_free_None [OF True] by (metis id_take_nth_drop)
  then have "open_count t = open_count (take (lowest_free t) t @ None # drop (Suc (lowest_free t)) t)"
    by metis
  with True show ?thesis by (simp add: fd_put_free open_count_def upd_conv_take_nth_drop)
qed (simp add: fd_put_free open_count_def)

text \<open>Everything below the lowest free descriptor is open.\<close>

lemma lowest_free_le_open: "lowest_free t \<le> open_count t"
  by (induction t rule: lowest_free.induct) (auto simp: open_count_def)

lemma fd_put_length: "length (fd_put t n c) = max (length t) (Suc n)"
  by (simp add: fd_put_def)

text \<open>The copies of stdin and stdout that every call makes.\<close>

definition standard_fds :: "kernel \<Rightarrow> fd_table \<Rightarrow> bool" where
  "standard_fds k t \<longleftrightarrow>
     fd_channel t 0 \<noteq> None \<and> fd_channel t 1 \<noteq> None \<and> open_count t + 2 \<le> fd_limit k"

definition with_copies :: "kernel \<Rightarrow> fd_table \<Rightarrow> fd_table" where
  "with_copies k t = snd (fd_dup (fd_limit k) 1 (snd (fd_dup (fd_limit k) 0 t)))"

lemma copies_run:
  assumes "standard_fds k t"
  obtains ic oc t1 where "fd_dup (fd_limit k) 0 t = (ic, t1)" "fd_dup (fd_limit k) 1 t1 = (oc, with_copies k t)"
    "fd_dup2 ic 0 (with_copies k t) = with_copies k t" "fd_dup2 oc 1 (with_copies k t) = with_copies k t"
    "fd_channel (with_copies k t) ic = fd_channel t 0" "fd_channel (with_copies k t) oc = fd_channel t 1"
    "open_count (with_copies k t) = open_count t + 2"
    "\<And>fd. fd_channel t fd \<noteq> None \<Longrightarrow> fd_channel (with_copies k t) fd = fd_channel t fd"
proof -
  obtain a b where ab: "fd_channel t 0 = Some a" "fd_channel t 1 = Some b" "open_count t + 2 \<le> fd_limit k"
    using assms by (auto simp: standard_fds_def)
  let ?n = "lowest_free t"
  let ?t1 = "fd_put t ?n a"
  let ?m = "lowest_free ?t1"
  let ?t2 = "fd_put ?t1 ?m b"
  have n: "?n < fd_limit k" using lowest_free_le_open [of t] ab(3) by simp
  have m: "?m < fd_limit k" using lowest_free_le_open [of ?t1] open_count_put [of t a] ab(3) by simp
  have d1: "fd_dup (fd_limit k) 0 t = (int ?n, ?t1)" using ab(1) n by (simp add: fd_dup_def fd_alloc_def)
  have old1: "fd_channel ?t1 fd = fd_channel t fd" if "fd_channel t fd \<noteq> None" for fd
    using that fd_channel_lowest [of t] by (metis fd_channel_put_other)
  have d2: "fd_dup (fd_limit k) 1 ?t1 = (int ?m, ?t2)"
    using ab(2) old1 [of 1] m by (simp add: fd_dup_def fd_alloc_def)
  then have wc: "with_copies k t = ?t2" by (simp add: with_copies_def d1)
  have old2: "fd_channel ?t2 fd = fd_channel ?t1 fd" if "fd_channel ?t1 fd \<noteq> None" for fd
    using that fd_channel_lowest [of ?t1] by (metis fd_channel_put_other)
  have old: "fd_channel ?t2 fd = fd_channel t fd" if "fd_channel t fd \<noteq> None" for fd
    using that old1 old2 by metis
  have ic: "fd_channel ?t2 (int ?n) = Some a" using old2 [of "int ?n"] by (simp add: fd_channel_put)
  have oc: "fd_channel ?t2 (int ?m) = Some b" by (simp add: fd_channel_put)
  have r1: "fd_dup2 (int ?n) 0 ?t2 = ?t2" using ic old [of 0] ab(1) by (simp add: fd_dup2_def fd_put_same)
  have r2: "fd_dup2 (int ?m) 1 ?t2 = ?t2" using oc old [of 1] ab(2) by (simp add: fd_dup2_def fd_put_same)
  from d1 d2 r1 r2 ic oc old ab(1,2) open_count_put that show thesis unfolding wc by auto
qed

lemma closepipes_junk: "\<forall>fd \<in> set pipes. fd_channel t fd = None \<Longrightarrow> closepipes pipes t = t"
  unfolding closepipes_def by (induction pipes) (auto simp: fd_close_def)

lemma command_count_small: "queue_count q = of_nat n \<Longrightarrow> n < 2 ^ 31 \<Longrightarrow> command_count q = int n"
proof -
  assume q: "queue_count q = of_nat n" and n: "n < 2 ^ 31"
  have "n < 2 ^ 64" using n by simp
  then have "(ucast (queue_count q) :: 32 word) = of_nat n"
    unfolding q by (simp add: unsigned_of_nat take_bit_nat_eq_self)
  then have "command_count q = signed_take_bit 31 (int n)"
    by (simp add: command_count_def sint_uint unsigned_of_nat signed_take_bit_take_bit of_nat_take_bit)
  also have "\<dots> = int n" using n by (intro signed_take_bit_int_eq_self) simp_all
  finally show ?thesis .
qed

section \<open>The end of the call\<close>

lemma fold_waitpid:
  "w_events (fold waitpid ps w) = w_events w @ map (\<lambda>p. Waited p (w_fds w)) ps \<and>
   w_fds (fold waitpid ps w) = w_fds w \<and> w_nodes (fold waitpid ps w) = w_nodes w \<and>
   w_commands (fold waitpid ps w) = w_commands w \<and> w_shell (fold waitpid ps w) = w_shell w \<and>
   w_children (fold waitpid ps w) = w_children w \<and> w_next_pid (fold waitpid ps w) = w_next_pid w \<and>
   w_forks (fold waitpid ps w) = w_forks w"
  by (induction ps arbitrary: w) (simp_all add: waitpid_def add_event_def)

lemma finish_jobs_run:
  assumes "held w [p] S" "l_last l = Some p"
    and "w\<lparr>w_fds := closepipes (l_pipes l) (w_fds w)\<rparr> = w1"
    and "fd_dup2 ic 0 (w_fds w1) = w_fds w1" "fd_dup2 oc 1 (w_fds w1) = w_fds w1"
  shows "\<exists>w'. finish_jobs ic oc l w = Inr (Return 0 (l_queue l) w') \<and>
    w_nodes w' = w_nodes w \<and> w_commands w' = (w_commands w)[p := None] \<and> w_strings w' = S \<and>
    w_fds w' = w_fds w1 \<and> w_children w' = w_children w \<and> w_fg_pid w' = 0 \<and>
    w_events w' = w_events w @ wait_events (last_mask [p] w) (l_pid l) (w_fds w1) @
      map (\<lambda>q. Waited q (w_fds w1)) (l_launched l) \<and> carries_on w w'"
proof -
  have restore: "restore_std ic oc w1 = w1" using assms(4,5) by (simp add: restore_std_def dup_onto_def)
  have h1: "held w1 [p] S" using assms(1) held_cong [of w1 w] by (simp add: assms(3) [symmetric])
  let ?m = "last_mask [p] w1"
  let ?w2 = "wait_if (to_be_waited ?m (l_pid l)) (l_pid l) w1"
  have m: "mask_of (Some p) w1 = Inr ?m" using mask_of_lasts [of w1 "[p]" "[]" S] h1 by simp
  have "held ?w2 [p] S" using h1 held_cong [of ?w2 w1] by simp
  then obtain w3 where w3: "free_command (Some p) ?w2 = Inr w3"
    "w3 = set_heap ((w_commands ?w2)[p := None]) (strings_of (w_commands ?w2) [] + S) ?w2"
    using free_held by blast
  let ?w' = "(fold waitpid (l_launched l) w3)\<lparr>w_fg_pid := 0\<rparr>"
  have same: "last_mask [p] w1 = last_mask [p] w" "w_commands w1 = w_commands w" "w_nodes w1 = w_nodes w"
    "w_children w1 = w_children w" "w_events w1 = w_events w"
    by (simp_all add: assms(3) [symmetric] last_mask_def)
  have "finish_jobs ic oc l w = Inr (Return 0 (l_queue l) ?w')"
    unfolding finish_jobs_def assms(2,3) restore using wait_last_run [OF m] w3(1) by simp
  moreover note fold = fold_waitpid [of "l_launched l" w3]
  have "w_events ?w' = w_events w @ wait_events ?m (l_pid l) (w_fds w1) @ map (\<lambda>q. Waited q (w_fds w1)) (l_launched l)"
    using fold unfolding w3(2) by (simp add: wait_events_def same(5))
  moreover have "w_nodes ?w' = w_nodes w" "w_commands ?w' = (w_commands w)[p := None]" "w_strings ?w' = S"
    "w_fds ?w' = w_fds w1" "w_children ?w' = w_children w" "w_fg_pid ?w' = 0"
    using fold unfolding w3(2) by (simp_all add: same strings_of_Cons)
  moreover have "carries_on w ?w'"
  proof -
    have "w_shell ?w2 = w_shell w" "w_forks ?w2 = w_forks w" "w_next_pid ?w2 = w_next_pid w"
      "kills (w_events ?w2) = kills (w_events w)"
      by (simp_all add: assms(3) [symmetric])
    then have "carries_on w w3" unfolding w3(2) by simp
    moreover have "carries_on w3 ?w'" using fold by simp
    ultimately show ?thesis by (rule carries_on_trans)
  qed
  ultimately show ?thesis unfolding same(1) by blast
qed

text \<open>A queue of commands as the parser returns it.\<close>

definition queue_holds_commands :: "world \<Rightarrow> queue_t \<Rightarrow> nat list \<Rightarrow> nat list \<Rightarrow> strheap \<Rightarrow> bool" where
  "queue_holds_commands w q as ps S \<longleftrightarrow>
     holds_nodes q (w_nodes w) as \<and> items (w_nodes w) as = map Some ps \<and> ps \<noteq> [] \<and>
     length ps < 2 ^ 31 \<and> held w ps S"

lemma queue_holds_commands_length: "queue_holds_commands w q as ps S \<Longrightarrow> length as = length ps"
  by (auto simp: queue_holds_commands_def items_def dest: map_eq_imp_length_eq)

lemma execute_start:
  assumes "queue_holds_commands w q as ps S" "standard_fds k (w_fds w)"
  obtains ic oc where
    "executeCommandsInQueue k stack junk (Some q) w =
      rbind (job_loop k stack ic oc (length ps) (length ps) 0
          \<lparr>l_queue = q, l_fd_in = - 1, l_fd_out = - 1, l_pid = - 1,
           l_pipes = map (\<lambda>j. stack (int j)) [0..<2 * (length ps - 1)],
           l_launched = map junk [0..<length ps], l_last = None\<rparr>
          (w\<lparr>w_fds := with_copies k (w_fds w)\<rparr>)) (\<lambda>f.
        case f of
          Continue l1 w1 \<Rightarrow> finish_jobs ic oc l1 w1
        | _ \<Rightarrow> Inr f)"
    "fd_dup2 ic 0 (with_copies k (w_fds w)) = with_copies k (w_fds w)"
    "fd_dup2 oc 1 (with_copies k (w_fds w)) = with_copies k (w_fds w)"
    "fd_channel (with_copies k (w_fds w)) ic = fd_channel (w_fds w) 0"
    "fd_channel (with_copies k (w_fds w)) oc = fd_channel (w_fds w) 1"
proof -
  have h: "holds_nodes q (w_nodes w) as" "ps \<noteq> []" "length ps < 2 ^ 31"
    using assms(1) by (auto simp: queue_holds_commands_def)
  have len: "length as = length ps" using assms(1) by (rule queue_holds_commands_length)
  have n: "command_count q = int (length ps)"
    using h(1,3) len by (intro command_count_small) (simp_all add: holds_nodes_def)
  then have "queue_count q \<noteq> 0" using h(2) by (auto simp: command_count_def)
  obtain ic oc t1 where d: "fd_dup (fd_limit k) 0 (w_fds w) = (ic, t1)"
    "fd_dup (fd_limit k) 1 t1 = (oc, with_copies k (w_fds w))"
    "fd_dup2 ic 0 (with_copies k (w_fds w)) = with_copies k (w_fds w)"
    "fd_dup2 oc 1 (with_copies k (w_fds w)) = with_copies k (w_fds w)"
    "fd_channel (with_copies k (w_fds w)) ic = fd_channel (w_fds w) 0"
    "fd_channel (with_copies k (w_fds w)) oc = fd_channel (w_fds w) 1"
    using assms(2) by (rule copies_run)
  have run: "executeCommandsInQueue k stack junk (Some q) w =
      rbind (job_loop k stack ic oc (length ps) (length ps) 0
          \<lparr>l_queue = q, l_fd_in = - 1, l_fd_out = - 1, l_pid = - 1,
           l_pipes = map (\<lambda>j. stack (int j)) [0..<2 * (length ps - 1)],
           l_launched = map junk [0..<length ps], l_last = None\<rparr>
          (w\<lparr>w_fds := with_copies k (w_fds w)\<rparr>)) (\<lambda>f.
        case f of Continue l1 w1 \<Rightarrow> finish_jobs ic oc l1 w1 | _ \<Rightarrow> Inr f)"
    using d(1,2) n \<open>queue_count q \<noteq> 0\<close> by (simp add: executeCommandsInQueue_def Let_def)
  show thesis by (rule that [OF run d(3-6)])
qed

lemma executeCommands_plain_run:
  assumes q: "queue_holds_commands w q as ps S" and fds: "standard_fds k (w_fds w)"
    and cs: "cs = map (object_at (w_commands w)) ps"
    and plain: "\<forall>c \<in> set cs. external k c \<and> no_redirect c \<and> connectionMask c \<noteq> commandConnectionPipe"
    and junk: "\<forall>j < 2 * (length ps - 1). fd_channel (with_copies k (w_fds w)) (stack (int j)) = None"
    and forks: "False \<notin> set (w_forks w)" "0 < w_next_pid w"
  shows "\<exists>q' w'. executeCommandsInQueue k stack junk (Some q) w = Inr (Return 0 q' w') \<and>
    holds_nodes q' (w_nodes w') [] \<and> w_nodes w' = release_nodes as (w_nodes w) \<and>
    w_commands w' = release_nodes ps (w_commands w) \<and> w_strings w' = S \<and>
    w_fds w' = with_copies k (w_fds w) \<and> w_fg_pid w' = 0 \<and>
    w_children w' = w_children w @ job_children (w_next_pid w) cs (w_fds w') \<and>
    w_events w' = w_events w @ job_events (w_next_pid w) (map connectionMask cs) (w_fds w') @
      map (\<lambda>j. Waited (junk j) (w_fds w')) [0..<length ps] \<and> carries_on w w'"
proof -
  let ?t = "with_copies k (w_fds w)"
  let ?pipes = "map (\<lambda>j. stack (int j)) [0..<2 * (length ps - 1)]"
  let ?l = "\<lparr>l_queue = q, l_fd_in = - 1, l_fd_out = - 1, l_pid = - 1, l_pipes = ?pipes,
    l_launched = map junk [0..<length ps], l_last = None\<rparr>"
  let ?w = "w\<lparr>w_fds := ?t\<rparr>"
  obtain ic oc where run: "executeCommandsInQueue k stack junk (Some q) w =
      rbind (job_loop k stack ic oc (length ps) (length ps) 0 ?l ?w) (\<lambda>f.
        case f of Continue l1 w1 \<Rightarrow> finish_jobs ic oc l1 w1 | _ \<Rightarrow> Inr f)"
    "fd_dup2 ic 0 ?t = ?t" "fd_dup2 oc 1 ?t = ?t"
    using q fds by (rule execute_start)
  have h: "holds_nodes q (w_nodes w) as" "items (w_nodes w) as = map Some ps" "ps \<noteq> []" "held w ps S"
    using q by (auto simp: queue_holds_commands_def)
  have pre: "holds_nodes (l_queue ?l) (w_nodes ?w) as" "items (w_nodes ?w) as = map Some ps"
    "l_fd_in ?l = - 1" "l_fd_out ?l = - 1" "l_last ?l = last_ptr []" "length ([] :: nat list) \<le> 1"
    "held ?w ([] @ ps) S" "last_mask [] ?w \<noteq> Some commandConnectionPipe"
    "cs = map (object_at (w_commands ?w)) ps"
    "\<forall>c \<in> set cs. external k c \<and> no_redirect c \<and> connectionMask c \<noteq> commandConnectionPipe"
    "fd_dup2 ic 0 (w_fds ?w) = w_fds ?w" "fd_dup2 oc 1 (w_fds ?w) = w_fds ?w"
    "False \<notin> set (w_forks ?w)" "0 < w_next_pid ?w" "ps \<noteq> []"
    using h held_cong [of ?w w] cs plain run(2,3) forks by (simp_all add: last_mask_def)
  obtain l1 w1 q1 where r: "job_loop k stack ic oc (length ps) (length ps) 0 ?l ?w = Inr (Continue l1 w1)"
    "l1 = ?l\<lparr>l_queue := q1, l_pid := w_next_pid ?w + int (length ps) - 1, l_last := Some (last ps)\<rparr>"
    "holds_nodes q1 (w_nodes w1) []" "w_nodes w1 = release_nodes as (w_nodes ?w)" "held w1 [last ps] S"
    "w_commands w1 = release_nodes ([] @ butlast ps) (w_commands ?w)" "w_fds w1 = w_fds ?w"
    "w_children w1 = w_children ?w @ job_children (w_next_pid ?w) cs (w_fds ?w)"
    "w_events w1 @ wait_events (last_mask [last ps] w1) (l_pid l1) (w_fds ?w) =
      w_events ?w @ wait_events (last_mask [] ?w) (l_pid ?l) (w_fds ?w) @
      job_events (w_next_pid ?w) (map connectionMask cs) (w_fds ?w)" "carries_on ?w w1"
    using plain_loop [OF pre] by blast
  have last: "l_last l1 = Some (last ps)" "l_pipes l1 = ?pipes" "l_launched l1 = map junk [0..<length ps]"
    "l_queue l1 = q1"
    using r(2) by simp_all
  have close: "closepipes (l_pipes l1) (w_fds w1) = w_fds w1"
    unfolding last(2) r(7) using junk by (intro closepipes_junk) auto
  then have w1: "w1\<lparr>w_fds := closepipes (l_pipes l1) (w_fds w1)\<rparr> = w1" by simp
  have dups: "fd_dup2 ic 0 (w_fds w1) = w_fds w1" "fd_dup2 oc 1 (w_fds w1) = w_fds w1"
    using run(2,3) r(7) by simp_all
  obtain w' where f: "finish_jobs ic oc l1 w1 = Inr (Return 0 (l_queue l1) w')"
    "w_nodes w' = w_nodes w1" "w_commands w' = (w_commands w1)[last ps := None]" "w_strings w' = S"
    "w_fds w' = w_fds w1" "w_children w' = w_children w1" "w_fg_pid w' = 0"
    "w_events w' = w_events w1 @ wait_events (last_mask [last ps] w1) (l_pid l1) (w_fds w1) @
      map (\<lambda>q. Waited q (w_fds w1)) (l_launched l1)" "carries_on w1 w'"
    using finish_jobs_run [OF r(5) last(1) w1 dups] by blast
  have events: "w_events w' = w_events w @ job_events (w_next_pid w) (map connectionMask cs) ?t @
      map (\<lambda>j. Waited (junk j) ?t) [0..<length ps]"
    using f(8) r(9) r(7) by (simp add: last(3) last_mask_def wait_events_def to_be_waited_def comp_def flip: append_assoc)
  have "w_commands w' = release_nodes (butlast ps @ [last ps]) (w_commands w)"
    using f(3) r(6) by (simp add: release_nodes_append)
  then have heap: "w_commands w' = release_nodes ps (w_commands w)" using h(3) by simp
  have "carries_on w ?w" by simp
  then have "carries_on w w'" using r(10) f(9) by (blast intro: carries_on_trans)
  then show ?thesis
    using f events heap r(1,3,4,7,8) run(1) last(4) by (intro exI [of _ q1] exI [of _ w']) simp
qed

section \<open>A builtin as the only command\<close>

lemma job_step_pop:
  assumes "holds_nodes (l_queue l) (w_nodes w) (a # as)" "items (w_nodes w) (a # as) = map Some (p # ps)"
    and "l_fd_in l = - 1" "l_fd_out l = - 1" "l_last l = None" "live_at (w_commands w) p"
  obtains q' where "holds_nodes q' ((w_nodes w)[a := None]) as" "items ((w_nodes w)[a := None]) as = map Some ps"
    "job_step k stack ic oc n i l w =
      (let w2 = w\<lparr>w_nodes := (w_nodes w)[a := None]\<rparr>; c = object_at (w_commands w) p in
       case redirect_in k c w2 of
         Inl w3 \<Rightarrow> Inr (Return (- 1) q' w3)
       | Inr (fd_in, w3) \<Rightarrow>
       case redirect_out k c fd_in w3 of
         Inl w4 \<Rightarrow> Inr (Return (- 1) q' w4)
       | Inr (fd_out, w4) \<Rightarrow>
           let w5 = (if fd_in \<noteq> - 1 then dup_onto fd_in 0 w4 else w4);
               w6 = (if fd_out \<noteq> - 1 then dup_onto fd_out 1 w5 else w5);
               l1 = l\<lparr>l_queue := q', l_fd_in := fd_in, l_fd_out := fd_out\<rparr> in
           rbind (if connectionMask c = commandConnectionPipe
                  then Inr (run_piped k stack n i None (Some p) c l1 w6)
                  else run_plain k ic oc None (Some p) c l1 w6) (\<lambda>f.
             case f of
               Continue l2 w7 \<Rightarrow>
                 rbind (if l_last l2 \<noteq> None then free_command (l_last l2) w7 else Inr w7) (\<lambda>w8.
                   Inr (Continue (l2\<lparr>l_last := Some p\<rparr>) w8))
             | _ \<Rightarrow> Inr f))"
proof -
  obtain q' where pop: "queuePop (Some (l_queue l)) (w_nodes w) = Inr (Some (Some p), q', (w_nodes w)[a := None])"
    "holds_nodes q' ((w_nodes w)[a := None]) as" "items ((w_nodes w)[a := None]) as = map Some ps"
    using pop_item [OF assms(1,2)] by blast
  have m: "mask_of None w' = Inr None" for w' by (simp add: mask_of_def)
  have wait: "wait_last None pid w' = Inr w'" for pid w'
    using wait_last_run [OF m, of pid w'] by (simp add: to_be_waited_def wait_if_def)
  show thesis
    by (rule that [OF pop(2,3)])
      (use pop(1) assms(3-6) in \<open>simp add: job_step_def wait m close_fd_def load_live Let_def
          cong: sum.case_cong prod.case_cong if_cong flow.case_cong\<close>)
qed

text \<open>A redirected builtin opens the file at \<open>fd\<close> and keeps it at descriptor 1.\<close>

definition after_open :: "kernel \<Rightarrow> string option \<Rightarrow> fd_table \<Rightarrow> fd_table" where
  "after_open k target t =
     (case target of
        None \<Rightarrow> t
      | Some f \<Rightarrow> let (fd, t1) = fd_alloc (fd_limit k) (Write_File f) t in fd_dup2 fd 1 t1)"

definition single_builtin :: "command_t \<Rightarrow> bool" where
  "single_builtin c \<longleftrightarrow>
     (case argv c of
        Some (Some name # args) \<Rightarrow>
          path c = Some name \<and> cstr name \<in> set builtin_names \<and> cstr name \<noteq> ''exit'' \<and> argv_ok args \<and>
          (cstr name = ''export'' \<longrightarrow> hd args \<noteq> None)
      | _ \<Rightarrow> False) \<and>
     connectionMask c = commandConnectionNone \<and> redirectFromPath c = None"

lemma executeCommand_builtin:
  assumes "single_builtin c" "shell_ok others sh" "length (sh_cwd sh) < BUFSIZE"
  obtains sh' name args where "argv c = Some (Some name # args)" "path c = Some name"
    "executeBuiltinCommand (chdir k) (argv c) sh = Inr (Some 0, sh')"
    "executeCommand k c sh = Inr (Status 0, sh')" "kept others sh sh'" "isBuiltin (chdir k) (path c) = Inr 1"
proof -
  obtain name args where c: "argv c = Some (Some name # args)" "path c = Some name"
    "cstr name \<in> set builtin_names" "cstr name \<noteq> ''exit''" "argv_ok args"
    "cstr name = ''export'' \<Longrightarrow> hd args \<noteq> None"
    using assms(1) by (auto simp: single_builtin_def split: option.splits list.splits)
  obtain f where f: "map_of (builtin_table (chdir k)) (cstr name) = Some f"
    using builtin_known [of "chdir k" "cstr name"] c(3) by auto
  obtain r sh' where r: "f args sh = Inr (r, sh')" "kept others sh sh'" "r = None \<longleftrightarrow> cstr name = ''exit''"
    using builtin_kept [OF assms(2) c(5) f c(6) assms(3)] by blast
  then have run: "executeBuiltinCommand (chdir k) (argv c) sh = Inr (Some 0, sh')"
    using c(1,4) f by (auto simp: executeBuiltin_run)
  then have "executeCommand k c sh = Inr (Status 0, sh')" by (simp add: executeCommand_def)
  moreover have "isBuiltin (chdir k) (path c) = Inr 1" using c(2,3) by (simp add: isBuiltin_run)
  ultimately show thesis using that c(1,2) run r(2) by blast
qed

lemma redirect_out_run:
  assumes "\<And>f. redirectToPath c = Some f \<Longrightarrow> open_write k f = None" "open_count (w_fds w) < fd_limit k"
  shows "\<exists>fd w1. redirect_out k c (- 1) w = Inr (fd, w1) \<and>
    (if fd \<noteq> - 1 then dup_onto fd 1 w1 else w1) = w\<lparr>w_fds := after_open k (redirectToPath c) (w_fds w)\<rparr>"
proof (cases "redirectToPath c")
  case None
  then show ?thesis by (simp add: redirect_out_def after_open_def)
next
  case (Some f)
  have "lowest_free (w_fds w) < fd_limit k" using lowest_free_le_open [of "w_fds w"] assms(2) by simp
  with Some assms(1) [OF Some] show ?thesis
    by (simp add: redirect_out_def after_open_def sys_open_def fd_alloc_def dup_onto_def)
qed

lemma fd_channel_after_open:
  assumes "open_count t < fd_limit k"
  shows "fd_channel (after_open k target t) 1 =
    (case target of None \<Rightarrow> fd_channel t 1 | Some f \<Rightarrow> Some (Write_File f))"
  using assms lowest_free_le_open [of t]
  by (cases target) (auto simp: after_open_def fd_alloc_def fd_dup2_def fd_channel_put)

lemma free_after_builtin:
  assumes "live_at (w_commands w) p" "command_ok (object_at (w_commands w) p)"
    and "alias_ok (sh_aliases (w_shell w)) (command_strings (object_at (w_commands w) p) + S)"
  shows "\<exists>w'. free_command (Some p) w = Inr w' \<and> w' = set_heap ((w_commands w)[p := None])
      (w_strings w - command_strings (object_at (w_commands w) p)) w \<and>
    alias_ok (sh_aliases (w_shell w')) S \<and> alias_lookup (sh_aliases (w_shell w')) = alias_lookup (sh_aliases (w_shell w))"
proof -
  let ?A = "command_strings (object_at (w_commands w) p)"
  let ?al = "sh_aliases (w_shell w)"
  have sub: "?A \<subseteq># w_strings w" using alias_ok_swap(1) [OF assms(3)] .
  then have "w_strings w = ?A + (w_strings w - ?A)" by simp
  note free = free_command_run [OF assms(1,2) this]
  have "alias_ok (?al\<lparr>al_strings := w_strings w - ?A\<rparr>) S"
    using alias_ok_swap(2) [OF assms(3), where B = "{#}" and oom = "al_oom ?al"] by simp
  moreover have "alias_lookup (?al\<lparr>al_strings := X\<rparr>) = alias_lookup ?al" for X
    by (simp add: alias_lookup_def fun_eq_iff)
  ultimately show ?thesis using free by (simp add: set_heap_def)
qed

lemma executeCommands_builtin_run:
  assumes q: "queue_holds_commands w q as [p] S'" and fds: "standard_fds k (w_fds w)" "open_count (w_fds w) + 3 \<le> fd_limit k"
    and c: "object_at (w_commands w) p = c" "single_builtin c"
      "\<forall>f. redirectToPath c = Some f \<longrightarrow> open_write k f = None"
    and sh: "shell_ok (command_strings c + S) (w_shell w)" "length (sh_cwd (w_shell w)) < BUFSIZE"
  shows "\<exists>q' w' sh'. executeCommandsInQueue k stack junk (Some q) w = Inr (Return 0 q' w') \<and>
    holds_nodes q' (w_nodes w') [] \<and> w_commands w' = (w_commands w)[p := None] \<and>
    executeBuiltinCommand (chdir k) (argv c) (w_shell w) = Inr (Some 0, sh') \<and>
    w_shell w' = sh'\<lparr>sh_aliases := sh_aliases (w_shell w')\<rparr> \<and>
    alias_lookup (sh_aliases (w_shell w')) = alias_lookup (sh_aliases sh') \<and>
    alias_ok (sh_aliases (w_shell w')) S \<and>
    w_children w' = w_children w \<and> w_events w' = w_events w \<and>
    w_fds w' = after_open k (redirectToPath c) (with_copies k (w_fds w)) \<and>
    al_oom (sh_aliases (w_shell w')) = al_oom (sh_aliases sh') \<and> w_nodes w' = release_nodes as (w_nodes w) \<and>
    w_forks w' = w_forks w \<and> w_next_pid w' = w_next_pid w \<and> w_fg_pid w' = w_fg_pid w \<and> w_pipes w' = w_pipes w"
proof -
  let ?base = "with_copies k (w_fds w)"
  let ?w = "w\<lparr>w_fds := ?base\<rparr>"
  let ?l = "\<lparr>l_queue = q, l_fd_in = - 1, l_fd_out = - 1, l_pid = - 1, 
    l_pipes = map (\<lambda>j. stack (int j)) [0..<2 * (length [p] - 1)], l_launched = map junk [0..<length [p]], l_last = None\<rparr>"
  obtain ic oc where run: "executeCommandsInQueue k stack junk (Some q) w =
      rbind (job_loop k stack ic oc (length [p]) (length [p]) 0 ?l ?w) (\<lambda>f.
        case f of Continue l1 w1 \<Rightarrow> finish_jobs ic oc l1 w1 | _ \<Rightarrow> Inr f)"
    using q fds(1) by (rule execute_start)
  have len: "open_count ?base < fd_limit k"
    using fds(1) by (rule copies_run) (use fds(2) in simp)
  obtain a where as: "as = [a]" using queue_holds_commands_length [OF q] by (auto simp: length_Suc_conv)
  have h: "holds_nodes q (w_nodes w) [a]" "items (w_nodes w) [a] = map Some [p]"
    "live_at (w_commands w) p" "command_ok (object_at (w_commands w) p)"
    using q as by (auto simp: queue_holds_commands_def held_def)
  obtain sh' name args where b: "argv c = Some (Some name # args)" "path c = Some name"
    "executeBuiltinCommand (chdir k) (argv c) (w_shell w) = Inr (Some 0, sh')"
    "executeCommand k c (w_shell w) = Inr (Status 0, sh')" "kept (command_strings c + S) (w_shell w) sh'"
    "isBuiltin (chdir k) (path c) = Inr 1"
    using c(2) sh by (rule executeCommand_builtin)
  have mask: "connectionMask c = commandConnectionNone" "redirectFromPath c = None"
    using c(2) by (auto simp: single_builtin_def)
  let ?w2 = "?w\<lparr>w_nodes := (w_nodes w)[a := None]\<rparr>"
  obtain fd w1 where out: "redirect_out k c (- 1) ?w2 = Inr (fd, w1)"
    "(if fd \<noteq> - 1 then dup_onto fd 1 w1 else w1) = ?w2\<lparr>w_fds := after_open k (redirectToPath c) ?base\<rparr>"
    using redirect_out_run [where c = c and k = k and w = ?w2] c(3) len by auto
  let ?w3 = "?w2\<lparr>w_fds := after_open k (redirectToPath c) ?base\<rparr>"
  have inp: "redirect_in k c ?w2 = Inr (- 1, ?w2)" using mask(2) by (simp add: redirect_in_def)
  obtain q' where q': "holds_nodes q' ((w_nodes w)[a := None]) []"
    "job_step k stack ic oc (length [p]) 0 ?l ?w =
      rbind (run_plain k ic oc None (Some p) c (?l\<lparr>l_queue := q', l_fd_in := - 1, l_fd_out := fd\<rparr>) ?w3) (\<lambda>f.
         case f of
           Continue l2 w7 \<Rightarrow>
             rbind (if l_last l2 \<noteq> None then free_command (l_last l2) w7 else Inr w7) (\<lambda>w8.
               Inr (Continue (l2\<lparr>l_last := Some p\<rparr>) w8))
         | _ \<Rightarrow> Inr f)"
    using job_step_pop [of ?l ?w a "[]" p "[]" k stack ic oc "length [p]" 0] h c(1) inp out mask by auto
  let ?w4 = "?w3\<lparr>w_shell := sh'\<rparr>"
  have "alias_ok (sh_aliases (w_shell ?w4)) (command_strings (object_at (w_commands ?w4) p) + S)"
    using b(5) c(1) by (simp add: kept_def)
  then obtain w' where w': "free_command (Some p) ?w4 = Inr w'"
    "w' = set_heap ((w_commands ?w4)[p := None]) (w_strings ?w4 - command_strings (object_at (w_commands ?w4) p)) ?w4"
    "alias_ok (sh_aliases (w_shell w')) S" "alias_lookup (sh_aliases (w_shell w')) = alias_lookup (sh_aliases sh')"
    using free_after_builtin [of ?w4 p S] h(3,4) by auto
  have zero: "queue_count q' = 0" using q'(1) by (simp add: holds_nodes_def)
  have "run_plain k ic oc None (Some p) c (?l\<lparr>l_queue := q', l_fd_in := - 1, l_fd_out := fd\<rparr>) ?w3 = Inr (Return 0 q' w')"
    using zero mask(1) b(4,6) w'(1) by (simp add: run_plain_def)
  then have "job_loop k stack ic oc (length [p]) (length [p]) 0 ?l ?w = Inr (Return 0 q' w')" using q'(2) by simp
  then have "executeCommandsInQueue k stack junk (Some q) w = Inr (Return 0 q' w')" using run by simp
  moreover have "w_shell w' = sh'\<lparr>sh_aliases := sh_aliases (w_shell w')\<rparr>" unfolding w'(2) by (simp add: set_heap_def)
  moreover have "holds_nodes q' (w_nodes w') []" "w_commands w' = (w_commands w)[p := None]"
    "w_children w' = w_children w" "w_events w' = w_events w"
    "w_fds w' = after_open k (redirectToPath c) ?base" "al_oom (sh_aliases (w_shell w')) = al_oom (sh_aliases sh')"
    "w_nodes w' = release_nodes as (w_nodes w)" "w_forks w' = w_forks w" "w_next_pid w' = w_next_pid w"
    "w_fg_pid w' = w_fg_pid w" "w_pipes w' = w_pipes w"
    using q'(1) by (simp_all add: w'(2) as) (simp_all add: set_heap_def)
  ultimately show ?thesis using b(3) w'(3,4) by blast
qed

section \<open>A redirection that fails\<close>


section \<open>Properties\<close>

lemma open_count_copies: "standard_fds k t \<Longrightarrow> open_count (with_copies k t) = open_count t + 2"
  by (rule copies_run) auto

text \<open>C7. Lists without pipes: for \<open>a ; b & c ...\<close> of external commands the shell starts one process
  per command, in order, each with the descriptors of the shell; it waits for a command right
  after it was started, before the next one, unless it runs in the background; and it frees every
  command, string and queue node. Two descriptors stay open: the copies of stdin and stdout.\<close>

theorem jobs_sequential:
  assumes "queue_holds_commands w q as ps S" "standard_fds k (w_fds w)"
    and "cs = map (object_at (w_commands w)) ps"
    and "\<forall>c \<in> set cs. external k c \<and> no_redirect c \<and> connectionMask c \<noteq> commandConnectionPipe"
    and "\<forall>j < 2 * (length ps - 1). fd_channel (with_copies k (w_fds w)) (stack (int j)) = None"
    and "False \<notin> set (w_forks w)" "0 < w_next_pid w"
  shows "\<exists>q' w'. executeCommandsInQueue k stack junk (Some q) w = Inr (Return 0 q' w') \<and>
    holds_nodes q' (w_nodes w') [] \<and> w_nodes w' = release_nodes as (w_nodes w) \<and>
    w_commands w' = release_nodes ps (w_commands w) \<and> w_strings w' = S \<and> w_fg_pid w' = 0 \<and>
    w_children w' = w_children w @ job_children (w_next_pid w) cs (w_fds w') \<and>
    w_events w' = w_events w @ job_events (w_next_pid w) (map connectionMask cs) (w_fds w') @
      map (\<lambda>j. Waited (junk j) (w_fds w')) [0..<length ps] \<and>
    w_fds w' = with_copies k (w_fds w) \<and> open_count (w_fds w') = open_count (w_fds w) + 2 \<and>
    carries_on w w'"
  using executeCommands_plain_run [OF assms] open_count_copies [OF assms(2)] by fastforce

text \<open>C21. A builtin alone on its line runs in the shell itself: no process is started, its effect on
  aliases, environment and directory stays, and its command is freed. If its output is redirected,
  descriptor 1 of the shell stays the file: it is not restored on this path.\<close>

theorem builtin_runs_in_shell:
  assumes "queue_holds_commands w q as [p] S'" "standard_fds k (w_fds w)" "open_count (w_fds w) + 3 \<le> fd_limit k"
    and "object_at (w_commands w) p = c" "single_builtin c"
      "\<forall>f. redirectToPath c = Some f \<longrightarrow> open_write k f = None"
    and "shell_ok (command_strings c + S) (w_shell w)" "length (sh_cwd (w_shell w)) < BUFSIZE"
  shows "\<exists>q' w' sh'. executeCommandsInQueue k stack junk (Some q) w = Inr (Return 0 q' w') \<and>
    holds_nodes q' (w_nodes w') [] \<and> w_commands w' = (w_commands w)[p := None] \<and>
    executeBuiltinCommand (chdir k) (argv c) (w_shell w) = Inr (Some 0, sh') \<and>
    w_shell w' = sh'\<lparr>sh_aliases := sh_aliases (w_shell w')\<rparr> \<and>
    alias_lookup (sh_aliases (w_shell w')) = alias_lookup (sh_aliases sh') \<and>
    alias_ok (sh_aliases (w_shell w')) S \<and>
    w_children w' = w_children w \<and> w_events w' = w_events w \<and>
    fd_channel (w_fds w') 1 =
      (case redirectToPath c of None \<Rightarrow> fd_channel (w_fds w) 1 | Some f \<Rightarrow> Some (Write_File f))"
proof -
  have "open_count (with_copies k (w_fds w)) < fd_limit k"
    "fd_channel (with_copies k (w_fds w)) 1 = fd_channel (w_fds w) 1"
    using assms(2) by (rule copies_run, use assms(2,3) in \<open>auto simp: standard_fds_def\<close>)+
  note out = fd_channel_after_open [OF this(1), of "redirectToPath c", unfolded this(2)]
  from executeCommands_builtin_run [OF assms, of stack junk] show ?thesis
    using out by (elim exE conjE) (intro exI conjI; assumption?; simp)
qed


section \<open>Witnesses\<close>

definition small_kernel :: kernel where
  "small_kernel = \<lparr>fd_limit = 64,
     open_read = (\<lambda>f. if f = ''missing'' then Some ''No such file or directory'' else None),
     open_write = (\<lambda>_. None), execvp = (\<lambda>_ _. Replaced), chdir = any_chdir\<rparr>"

text \<open>A world whose queue holds the commands \<open>cs\<close>.\<close>

definition listed_nodes :: "nat \<Rightarrow> (ptr, command_heap) nodes" where
  "listed_nodes n = map (\<lambda>i. Some \<lparr>data = Some i, node_next = (if Suc i < n then Some (Suc i) else None),
     freeFunction = commandFree\<rparr>) [0..<n]"

definition listed_queue :: "nat \<Rightarrow> queue_t" where
  "listed_queue n = \<lparr>queue_count = of_nat n, head = Some 0, tail = Some (n - 1)\<rparr>"

definition world_with :: "shell \<Rightarrow> command_t list \<Rightarrow> world" where
  "world_with sh cs =
     \<lparr>w_nodes = listed_nodes (length cs), w_commands = map Some cs,
      w_shell = sh\<lparr>sh_aliases := (sh_aliases sh)\<lparr>al_strings :=
        al_strings (sh_aliases sh) + sum_list (map command_strings cs)\<rparr>\<rparr>,
      w_fds = [Some (Terminal 0), Some (Terminal 1), Some (Terminal 2)], w_pipes = 0, w_forks = [],
      w_next_pid = 100, w_children = [], w_events = [], w_fg_pid = 0\<rparr>"

definition simple_command :: "string list \<Rightarrow> connection \<Rightarrow> command_t" where
  "simple_command ws m = \<lparr>path = Some (hd ws), argc = 0, argv = Some (map Some ws @ [None]),
     redirectToPath = None, redirectFromPath = None, connectionMask = m\<rparr>"

lemma simple_command_sel [simp]:
  "redirectToPath (simple_command ws m) = None" "redirectFromPath (simple_command ws m) = None"
  "connectionMask (simple_command ws m) = m" "argv (simple_command ws m) = Some (map Some ws @ [None])"
  "command_ok (simple_command ws m)"
  by (simp_all add: simple_command_def command_ok_def)

lemma listed_nodes_path:
  "i \<le> n \<Longrightarrow> node_path (listed_nodes n) (if i < n then Some i else None) [i..<n]"
proof (induction i rule: inc_induct)
  case (step i)
  have "object_at (listed_nodes n) i = \<lparr>data = Some i, node_next = (if Suc i < n then Some (Suc i) else None),
      freeFunction = commandFree\<rparr>" "live_at (listed_nodes n) i"
    using step.hyps by (simp_all add: listed_nodes_def object_at_def live_at_def)
  with step show ?case by (simp add: upt_conv_Cons)
qed simp

lemma strings_of_list:
  "strings_of (map Some cs) [0..<length cs] = sum_list (map command_strings cs)"
proof -
  have "map (\<lambda>a. command_strings (object_at (map Some cs) a)) [0..<length cs] = map command_strings cs"
    by (intro nth_equalityI) (auto simp: object_at_def)
  then show ?thesis by (simp add: strings_of_def)
qed

lemma world_with_queue:
  assumes "cs \<noteq> []" "length cs < 2 ^ 31" "\<forall>c \<in> set cs. command_ok c"
  shows "queue_holds_commands (world_with sh cs) (listed_queue (length cs)) [0..<length cs] [0..<length cs]
    (al_strings (sh_aliases sh))"
proof -
  have n: "0 < length cs" using assms(1) by simp
  have "holds_nodes (listed_queue (length cs)) (w_nodes (world_with sh cs)) [0..<length cs]"
    using listed_nodes_path [of 0 "length cs"] n assms(2)
    by (simp add: holds_nodes_def listed_queue_def world_with_def)
  moreover have "items (w_nodes (world_with sh cs)) [0..<length cs] = map Some [0..<length cs]"
    by (simp add: items_def world_with_def listed_nodes_def object_at_def)
  moreover have "held (world_with sh cs) [0..<length cs] (al_strings (sh_aliases sh))"
    using assms(3) by (simp add: held_def world_with_def live_at_def object_at_def strings_of_list ac_simps)
  ultimately show ?thesis using assms(1,2) by (simp add: queue_holds_commands_def)
qed

lemma world_with_objects: "map (object_at (w_commands (world_with sh cs))) [0..<length cs] = cs"
  by (intro nth_equalityI) (auto simp: world_with_def object_at_def)

lemma world_with_sel [simp]:
  "w_forks (world_with sh cs) = []" "w_next_pid (world_with sh cs) = 100" "w_pipes (world_with sh cs) = 0"
  "w_children (world_with sh cs) = []" "w_events (world_with sh cs) = []"
  "w_fds (world_with sh cs) = [Some (Terminal 0), Some (Terminal 1), Some (Terminal 2)]"
  by (simp_all add: world_with_def)

lemma small_kernel_fds:
  "standard_fds small_kernel [Some (Terminal 0), Some (Terminal 1), Some (Terminal 2)]"
  by (simp add: standard_fds_def fd_channel_def small_kernel_def open_count_def)

lemma external_simple:
  "cstr w \<notin> set builtin_names \<Longrightarrow> external small_kernel (simple_command (w # ws) m)"
  by (simp add: external_def simple_command_def small_kernel_def)

theorem jobs_sequential_witness:
  "\<exists>q' w'. executeCommandsInQueue small_kernel (\<lambda>_. - 1) (\<lambda>_. - 1)
      (Some (listed_queue 2)) (world_with home_shell
        [simple_command [''sleep'', ''1''] commandConnectionBackground, simple_command [''ls''] commandConnectionNone]) =
      Inr (Return 0 q' w') \<and>
    map child_pid (w_children w') = [100, 101] \<and>
    w_events w' = [Forked 100, Forked 101, Waited 101 (w_fds w'), Waited (- 1) (w_fds w'), Waited (- 1) (w_fds w')]"
proof -
  let ?cs = "[simple_command [''sleep'', ''1''] commandConnectionBackground, simple_command [''ls''] commandConnectionNone]"
  let ?w = "world_with home_shell ?cs"
  have two: "length ?cs = 2" by simp
  have q: "queue_holds_commands ?w (listed_queue 2) [0..<2] [0..<2] (al_strings (sh_aliases home_shell))"
    by (rule world_with_queue [of ?cs home_shell, unfolded two]) simp_all
  have cs: "?cs = map (object_at (w_commands ?w)) [0..<2]"
    using world_with_objects [of home_shell ?cs] unfolding two by simp
  have ext: "\<forall>c \<in> set ?cs. external small_kernel c \<and> no_redirect c \<and> connectionMask c \<noteq> commandConnectionPipe"
    by (simp add: external_simple no_redirect_def builtin_names_def cstr_Cons NUL_def)
  have "\<forall>j < 2 * (length [0..<2] - 1). fd_channel (with_copies small_kernel (w_fds ?w)) ((\<lambda>_. - 1) (int j)) = None"
    by (simp add: fd_channel_def)
  from jobs_sequential [OF q _ cs ext this, of "\<lambda>_. - 1"] show ?thesis
    using small_kernel_fds by (auto simp: numeral_2_eq_2)
qed

theorem builtin_runs_in_shell_witness:
  "\<exists>q' w'. executeCommandsInQueue small_kernel (\<lambda>_. - 1) (\<lambda>_. - 1) (Some (listed_queue 1))
      (world_with home_shell [(simple_command [''cd'', ''/tmp''] commandConnectionNone)\<lparr>redirectToPath := Some ''log''\<rparr>]) =
      Inr (Return 0 q' w') \<and>
    w_children w' = [] \<and> fd_channel (w_fds w') 1 = Some (Write_File ''log'')"
proof -
  let ?c = "(simple_command [''cd'', ''/tmp''] commandConnectionNone)\<lparr>redirectToPath := Some ''log''\<rparr>"
  let ?w = "world_with home_shell [?c]"
  have cok: "command_ok ?c" by (simp add: simple_command_def command_ok_def argv_ok_def)
  have q: "queue_holds_commands ?w (listed_queue 1) [0] [0] (al_strings (sh_aliases home_shell))"
    using world_with_queue [of "[?c]" home_shell] cok by simp
  have c: "object_at (w_commands ?w) 0 = ?c" by (simp add: world_with_def object_at_def)
  have b: "single_builtin ?c"
    by (simp add: single_builtin_def simple_command_def builtin_names_def cstr_Cons NUL_def argv_ok_def)
  have lim: "open_count (w_fds ?w) + 3 \<le> fd_limit small_kernel" by (simp add: small_kernel_def open_count_def)
  have op: "\<forall>f. redirectToPath ?c = Some f \<longrightarrow> open_write small_kernel f = None" by (simp add: small_kernel_def)
  let ?al = "sh_aliases home_shell"
  have "alias_ok (?al\<lparr>al_strings := al_strings ?al - {#} + command_strings ?c, al_oom := al_oom ?al\<rparr>) (command_strings ?c + {#})"
    using alias_ok_swap(2) [where st = ?al and A = "{#}" and B = "command_strings ?c" and oom = "al_oom ?al" and others = "{#}"]
      home_shell_ok by (simp add: shell_ok_def)
  then have sh: "shell_ok (command_strings ?c + {#}) (w_shell ?w)"
    using home_shell_ok by (simp add: shell_ok_def world_with_def alias_count_def)
  have cwd: "length (sh_cwd (w_shell ?w)) < BUFSIZE" by (simp add: world_with_def home_shell_def BUFSIZE_def)
  from builtin_runs_in_shell [OF q _ lim c b op sh cwd, of "\<lambda>_. - 1" "\<lambda>_. - 1"] show ?thesis
    using small_kernel_fds by fastforce
qed


end
