(* ===== verification/Pipelines.thy ===== *)
theory Pipelines
  imports Jobs_Correct
begin

text \<open>
  Pipelines: the descriptors that each process of \<open>a | b | ... | z\<close> starts with, the order of forks
  and waits, and what the shell has open when it waits.
\<close>

section \<open>Making the pipes\<close>

text \<open>\<open>pipes_made t0 b m j P t\<close>: the entries from \<open>j\<close> on of \<open>P\<close> are the ends of \<open>m\<close> new pipes, numbered
  from \<open>b\<close>, in the table \<open>t\<close>, which otherwise is \<open>t0\<close>.\<close>

definition pipes_made :: "fd_table \<Rightarrow> nat \<Rightarrow> nat \<Rightarrow> nat \<Rightarrow> int list \<Rightarrow> fd_table \<Rightarrow> bool" where
  "pipes_made t0 b m j P t \<longleftrightarrow>
     (\<forall>x < m. fd_channel t (P ! (j + 2 * x)) = Some (pipe_in (b + x)) \<and>
       fd_channel t (P ! (j + 2 * x + 1)) = Some (pipe_out (b + x)) \<and>
       fd_channel t0 (P ! (j + 2 * x)) = None \<and> fd_channel t0 (P ! (j + 2 * x + 1)) = None) \<and>
     (\<forall>fd. fd_channel t fd = fd_channel t0 fd \<or> (\<exists>x < 2 * m. fd = P ! (j + x)))"

lemma fd_alloc_run:
  assumes "open_count t < limit"
  shows "fd_alloc limit c t = (int (lowest_free t), fd_put t (lowest_free t) c)"
  using assms lowest_free_le_open [of t] by (simp add: fd_alloc_def)

lemma make_pipes_run:
  assumes "open_count t0 + 2 * m \<le> fd_limit k" "j + 2 * m \<le> length pipes"
  shows "\<exists>P t. (\<forall>w. w_fds w = t0 \<longrightarrow> w_pipes w = b \<longrightarrow>
      make_pipes k m j pipes w = (P, w\<lparr>w_fds := t, w_pipes := b + m\<rparr>)) \<and>
    length P = length pipes \<and> (\<forall>x < j. P ! x = pipes ! x) \<and> pipes_made t0 b m j P t"
  using assms
proof (induction m arbitrary: t0 b j pipes)
  case 0
  then show ?case by (intro exI [of _ pipes] exI [of _ t0]) (auto simp: pipes_made_def)
next
  case (Suc m)
  let ?r = "lowest_free t0"
  let ?t1 = "fd_put t0 ?r (pipe_in b)"
  let ?s = "lowest_free ?t1"
  let ?t2 = "fd_put ?t1 ?s (pipe_out b)"
  let ?P = "pipes[j := int ?r, Suc j := int ?s]"
  have len1: "open_count ?t1 = Suc (open_count t0)" by (rule open_count_put)
  have len2: "open_count ?t2 = Suc (open_count ?t1)" by (rule open_count_put)
  have lim: "open_count t0 < fd_limit k" "open_count ?t1 < fd_limit k" using Suc.prems(1) len1 by auto
  have one: "make_pipe k w = (Some (int ?r, int ?s), w\<lparr>w_fds := ?t2, w_pipes := Suc b\<rparr>)"
    if "w_fds w = t0" "w_pipes w = b" for w
    using that fd_alloc_run [OF lim(1)] fd_alloc_run [OF lim(2)] by (simp add: make_pipe_def)
  have "open_count ?t2 + 2 * m \<le> fd_limit k" "j + 2 + 2 * m \<le> length ?P" using Suc.prems len1 len2 by simp_all
  from Suc.IH [OF this, of "Suc b"] obtain P t where
    r: "\<And>w. w_fds w = ?t2 \<Longrightarrow> w_pipes w = Suc b \<Longrightarrow>
      make_pipes k m (j + 2) ?P w = (P, w\<lparr>w_fds := t, w_pipes := Suc b + m\<rparr>)"
    "length P = length ?P" "\<forall>x < j + 2. P ! x = ?P ! x" "pipes_made ?t2 (Suc b) m (j + 2) P t"
    by blast
  have run: "make_pipes k (Suc m) j pipes w = (P, w\<lparr>w_fds := t, w_pipes := b + Suc m\<rparr>)"
    if "w_fds w = t0" "w_pipes w = b" for w
    using one [OF that] r(1) [of "w\<lparr>w_fds := ?t2, w_pipes := Suc b\<rparr>"] by simp
  have ends: "P ! j = int ?r" "P ! (j + 1) = int ?s" "\<forall>x < j. P ! x = pipes ! x"
    using r(3) Suc.prems(2) by (simp_all add: nth_list_update)
  have free: "fd_channel t0 (int ?r) = None" "fd_channel ?t1 (int ?s) = None"
    by (rule fd_channel_lowest)+
  have rs: "?s \<noteq> ?r" using free(2) by (auto simp: fd_channel_put)
  have old: "fd_channel ?t2 fd = fd_channel t0 fd" if "fd \<noteq> int ?r" "fd \<noteq> int ?s" for fd
    using that by (simp add: fd_channel_put_other)
  have t2: "fd_channel ?t2 (int ?r) = Some (pipe_in b)" "fd_channel ?t2 (int ?s) = Some (pipe_out b)"
    using rs fd_channel_put_other [of "int ?r" ?s ?t1] by (simp_all add: fd_channel_put)
  have s0: "fd_channel t0 (int ?s) = None"
    using free(2) rs fd_channel_put_other [of "int ?s" ?r t0] by simp
  have later: "\<forall>x < m. fd_channel t (P ! (j + 2 + 2 * x)) = Some (pipe_in (Suc b + x)) \<and>
       fd_channel t (P ! (j + 2 + 2 * x + 1)) = Some (pipe_out (Suc b + x)) \<and>
       fd_channel ?t2 (P ! (j + 2 + 2 * x)) = None \<and> fd_channel ?t2 (P ! (j + 2 + 2 * x + 1)) = None"
    and same: "\<forall>fd. fd_channel t fd = fd_channel ?t2 fd \<or> (\<exists>x < 2 * m. fd = P ! (j + 2 + x))"
    using r(4) by (auto simp: pipes_made_def)
  have fresh: "P ! (j + 2 + x) \<noteq> int ?r \<and> P ! (j + 2 + x) \<noteq> int ?s" if "x < 2 * m" for x
  proof -
    obtain y where "x = 2 * y \<or> x = 2 * y + 1" by (metis oddE evenE)
    moreover have "j + 2 + (2 * y + 1) = j + 2 + 2 * y + 1" by simp
    moreover have "y < m" using that calculation(1) by auto
    ultimately have "fd_channel ?t2 (P ! (j + 2 + x)) = None" using later by metis
    then show ?thesis using t2 by auto
  qed
  have keep: "fd_channel t (int ?r) = Some (pipe_in b)" "fd_channel t (int ?s) = Some (pipe_out b)"
    using same t2 fresh by metis+
  have each: "fd_channel t (P ! (j + 2 * x)) = Some (pipe_in (b + x)) \<and>
      fd_channel t (P ! (j + 2 * x + 1)) = Some (pipe_out (b + x)) \<and>
      fd_channel t0 (P ! (j + 2 * x)) = None \<and> fd_channel t0 (P ! (j + 2 * x + 1)) = None"
    if "x < Suc m" for x
  proof (cases x)
    case 0
    then show ?thesis using ends(1,2) keep free(1) s0 by simp
  next
    case (Suc y)
    then have y: "y < m" "2 * y < 2 * m" "2 * y + 1 < 2 * m" using that by simp_all
    have idx: "j + 2 * x = j + 2 + 2 * y" "j + 2 * x + 1 = j + 2 + 2 * y + 1"
      "j + 2 + 2 * y + 1 = j + 2 + (2 * y + 1)" "b + x = Suc b + y"
      using Suc by simp_all
    have l: "fd_channel ?t2 (P ! (j + 2 + 2 * y)) = None" "fd_channel ?t2 (P ! (j + 2 + 2 * y + 1)) = None"
      "fd_channel t (P ! (j + 2 + 2 * y)) = Some (pipe_in (Suc b + y))"
      "fd_channel t (P ! (j + 2 + 2 * y + 1)) = Some (pipe_out (Suc b + y))"
      using later y(1) by blast+
    have "fd_channel t0 (P ! (j + 2 + 2 * y)) = None" using l(1) fresh [OF y(2)] old by metis
    moreover have "fd_channel t0 (P ! (j + 2 + 2 * y + 1)) = None"
      using l(2) fresh [OF y(3)] old unfolding idx(3) by metis
    ultimately show ?thesis using l(3,4) unfolding idx(1,2,4) by blast
  qed
  have only: "fd_channel t fd = fd_channel t0 fd \<or> (\<exists>x < 2 * Suc m. fd = P ! (j + x))" for fd
  proof (cases "fd = int ?r \<or> fd = int ?s")
    case True
    then have "fd = P ! (j + 0) \<or> fd = P ! (j + 1)" using ends(1,2) by simp
    moreover have "0 < 2 * Suc m" "1 < 2 * Suc m" by simp_all
    ultimately show ?thesis by blast
  next
    case False
    then have "fd_channel ?t2 fd = fd_channel t0 fd" using old by simp
    moreover have "\<exists>y < 2 * Suc m. fd = P ! (j + y)" if "x < 2 * m" "fd = P ! (j + 2 + x)" for x
      using that by (intro exI [of _ "x + 2"]) (simp add: ac_simps)
    ultimately show ?thesis using same by metis
  qed
  have "pipes_made t0 b (Suc m) j P t" unfolding pipes_made_def using each only by blast
  then show ?case using run r(2) ends(3) by (intro exI [of _ P] exI [of _ t]) simp
qed

section \<open>The descriptors of a child\<close>

lemma fd_channel_dup2:
  "fd_channel (fd_dup2 a n t) fd =
    (case fd_channel t a of None \<Rightarrow> fd_channel t fd
     | Some c \<Rightarrow> if fd = int n then Some c else fd_channel t fd)"
  using fd_channel_put_other [of fd n t]
  by (auto simp: fd_dup2_def fd_channel_put split: option.split)

lemma fd_channel_close: "fd_channel (fd_close a t) fd = (if fd = a then None else fd_channel t fd)"
  by (auto simp: fd_close_def fd_channel_def nth_list_update split: if_splits)

lemma fd_channel_closepipes:
  "fd_channel (closepipes P t) fd = (if fd \<in> set P then None else fd_channel t fd)"
  unfolding closepipes_def by (induction P arbitrary: t) (auto simp: fd_channel_close)

lemma pipes_made_ends:
  assumes "pipes_made t0 b m 0 P t" "length P = 2 * m"
  shows "fd \<in> set P \<Longrightarrow> fd_channel t0 fd = None" "fd \<notin> set P \<Longrightarrow> fd_channel t fd = fd_channel t0 fd"
proof -
  have m: "\<forall>x < m. fd_channel t0 (P ! (2 * x)) = None \<and> fd_channel t0 (P ! (2 * x + 1)) = None"
    "\<forall>fd. fd_channel t fd = fd_channel t0 fd \<or> (\<exists>x < 2 * m. fd = P ! x)"
    using assms(1) by (auto simp: pipes_made_def)
  show "fd_channel t0 fd = None" if f: "fd \<in> set P"
  proof -
    obtain x where x: "x < 2 * m" "fd = P ! x" using f assms(2) by (auto simp: in_set_conv_nth)
    obtain y where "x = 2 * y \<or> x = 2 * y + 1" by (metis oddE evenE)
    moreover from this x(1) have "y < m" by auto
    ultimately show ?thesis using m(1) x(2) by metis
  qed
  show "fd_channel t fd = fd_channel t0 fd" if f: "fd \<notin> set P"
    using m(2) f assms(2) by (metis nth_mem)
qed

text \<open>What a descriptor of the \<open>i\<close>-th of \<open>n\<close> piped commands refers to, in terms of the table \<open>t0\<close> before
  the pipes were made: its neighbours' pipes at 0 and 1, nothing else of the pipes.\<close>

definition piped_channel :: "nat \<Rightarrow> nat \<Rightarrow> nat \<Rightarrow> fd_table \<Rightarrow> int \<Rightarrow> channel option" where
  "piped_channel b n i t0 fd =
     (if fd = 0 \<and> 0 < i then Some (pipe_in (b + i - 1))
      else if fd = 1 \<and> Suc i < n then Some (pipe_out (b + i))
      else fd_channel t0 fd)"

lemma wire_child_run:
  assumes made: "pipes_made t0 b (n - 1) 0 P t" "length P = 2 * (n - 1)"
    and n: "2 \<le> n" "i < n" "first \<longleftrightarrow> i = 0" "onward \<longleftrightarrow> Suc i < n"
    and std: "fd_channel t0 0 \<noteq> None" "fd_channel t0 1 \<noteq> None"
    and low: "i = 0 \<Longrightarrow> fd_channel t (stack (- 2)) = None"
  shows "fd_channel (wire_child stack P n (int i) first onward t) fd = piped_channel b n i t0 fd"
proof -
  have ends: "\<forall>x < n - 1. fd_channel t (P ! (2 * x)) = Some (pipe_in (b + x)) \<and>
       fd_channel t (P ! (2 * x + 1)) = Some (pipe_out (b + x))"
    using made(1) by (simp add: pipes_made_def)
  note in_P = pipes_made_ends(1) [OF made]
  note out_P = pipes_made_ends(2) [OF made]
  have P01: "0 \<notin> set P" "1 \<notin> set P" using in_P std by auto
  have at_in: "fd_channel t (pipe_at stack P (2 * (int i - 1))) = Some (pipe_in (b + i - 1)) \<and>
      pipe_at stack P (2 * (int i - 1)) \<in> set P" if pos: "0 < i"
  proof -
    obtain j where j: "i = Suc j" using pos by (cases i) auto
    then have "j < n - 1" "2 * j < length P" using n(2) made(2) by auto
    moreover have "pipe_at stack P (2 * (int i - 1)) = P ! (2 * j)"
      using \<open>2 * j < length P\<close> j by (simp add: pipe_at_def nat_mult_distrib)
    ultimately show ?thesis using ends j by simp
  qed
  have at_out: "fd_channel t (pipe_at stack P (2 * int i + 1)) = Some (pipe_out (b + i)) \<and>
      pipe_at stack P (2 * int i + 1) \<in> set P" if "Suc i < n"
  proof -
    have l: "i < n - 1" "2 * i + 1 < length P" using that made(2) by auto
    have "nat (2 * int i + 1) = 2 * i + 1" by (simp add: nat_add_distrib nat_mult_distrib)
    then have "pipe_at stack P (2 * int i + 1) = P ! (2 * i + 1)" using l(2) by (simp add: pipe_at_def)
    then show ?thesis using ends l by simp
  qed
  have low': "pipe_at stack P (- 2) = stack (- 2)" by (simp add: pipe_at_def)
  show ?thesis
  proof (cases "i = 0")
    case True
    have "Suc 0 < n" using n(1) by simp
    with True have out: "fd_channel t (pipe_at stack P 1) = Some (pipe_out b)" "pipe_at stack P 1 \<in> set P"
      using at_out by simp_all
    have "pipe_at stack P 1 \<noteq> 0" "pipe_at stack P 1 \<noteq> 1" using out(2) P01 by metis+
    moreover have "stack (- 2) = 1 \<longrightarrow> False"
      using low [OF True] out_P [OF P01(2)] std(2) by auto
    ultimately have "fd_channel (wire_child stack P n (int i) first onward t) fd =
        (if fd \<in> set P then None else if fd = 1 then Some (pipe_out b) else fd_channel t fd)"
      using True n out(1) low low' \<open>Suc 0 < n\<close>
      by (auto simp: wire_child_def Let_def fd_channel_closepipes fd_channel_dup2)
    then show ?thesis using in_P out_P P01 True n(1) by (auto simp: piped_channel_def)
  next
    case False
    then have i: "0 < i" by simp
    note inn = at_in [OF i]
    have in01: "pipe_at stack P (2 * (int i - 1)) \<noteq> 0" "pipe_at stack P (2 * (int i - 1)) \<noteq> 1"
      using inn P01 by metis+
    show ?thesis
    proof (cases "Suc i < n")
      case True
      note out = at_out [OF True]
      have out01: "pipe_at stack P (2 * int i + 1) \<noteq> 0" "pipe_at stack P (2 * int i + 1) \<noteq> 1"
        using out P01 by metis+
      have "fd_channel (wire_child stack P n (int i) first onward t) fd =
          (if fd \<in> set P then None else if fd = 1 then Some (pipe_out (b + i))
           else if fd = 0 then Some (pipe_in (b + i - 1)) else fd_channel t fd)"
        using True False n(3,4) inn out in01 out01
        by (auto simp: wire_child_def Let_def fd_channel_closepipes fd_channel_dup2)
      then show ?thesis using in_P out_P P01 True i by (auto simp: piped_channel_def)
    next
      case last: False
      have "fd_channel (wire_child stack P n (int i) first onward t) fd =
          (if fd \<in> set P then None else if fd = 0 then Some (pipe_in (b + i - 1)) else fd_channel t fd)"
        using last False n inn in01
        by (auto simp: wire_child_def Let_def fd_channel_closepipes fd_channel_dup2)
      then show ?thesis using in_P out_P P01 last i by (auto simp: piped_channel_def)
    qed
  qed
qed

section \<open>The rounds of a pipeline\<close>

lemma piped_step:
  assumes q: "holds_nodes (l_queue l) (w_nodes w) (a # as)" "items (w_nodes w) (a # as) = map Some (p # ps)"
    and l: "l_fd_in l = - 1" "l_fd_out l = - 1" "l_last l = last_ptr lasts" "length lasts \<le> 1"
    and h: "held w (lasts @ p # ps) S"
    and m: "last_mask lasts w = (if i = 0 then None else Some commandConnectionPipe)"
      "i = 0 \<Longrightarrow> connectionMask c = commandConnectionPipe"
    and c: "object_at (w_commands w) p = c" "external k c" "no_redirect c"
    and forks: "fst (alloc_ok (w_forks w))"
    and pipes: "(if i = 0 then make_pipes k (n - 1) 0 (l_pipes l) (w\<lparr>w_nodes := (w_nodes w)[a := None]\<rparr>)
        else (l_pipes l, w\<lparr>w_nodes := (w_nodes w)[a := None]\<rparr>)) =
      (P, w\<lparr>w_nodes := (w_nodes w)[a := None], w_fds := t, w_pipes := np\<rparr>)"
  shows "\<exists>q' w'. job_step k stack ic oc n i l w =
      Inr (Continue (l\<lparr>l_queue := q', l_pid := w_next_pid w, l_pipes := P,
        l_launched := (l_launched l)[i := w_next_pid w], l_last := Some p\<rparr>) w') \<and>
    holds_nodes q' (w_nodes w') as \<and> items (w_nodes w') as = map Some ps \<and>
    w_nodes w' = (w_nodes w)[a := None] \<and> held w' (p # ps) S \<and>
    w_commands w' = release_nodes lasts (w_commands w) \<and> w_fds w' = t \<and>
    w_forks w' = snd (alloc_ok (w_forks w)) \<and> w_next_pid w' = w_next_pid w + 1 \<and>
    w_children w' = w_children w @
      [\<lparr>child_pid = w_next_pid w,
        child_fds = wire_child stack P n (int i) (i = 0) (connectionMask c = commandConnectionPipe) t,
        child_end = Inr (Runs (path c) (words_of c))\<rparr>] \<and>
    w_events w' = w_events w @ [Forked (w_next_pid w)] \<and> carries_on w w'"
proof -
  obtain q' where pop: "queuePop (Some (l_queue l)) (w_nodes w) = Inr (Some (Some p), q', (w_nodes w)[a := None])"
    "holds_nodes q' ((w_nodes w)[a := None]) as" "items ((w_nodes w)[a := None]) as = map Some ps"
    using pop_item [OF q] by blast
  have live: "live_at (w_commands w) p" using h by (simp add: held_def)
  let ?m = "last_mask lasts w"
  let ?w0 = "w\<lparr>w_nodes := (w_nodes w)[a := None]\<rparr>"
  let ?w1 = "?w0\<lparr>w_fds := t, w_pipes := np\<rparr>"
  let ?ch = "wire_child stack P n (int i) (i = 0) (connectionMask c = commandConnectionPipe) t"
  let ?w2 = "(spawn ?ch (Inr (Runs (path c) (words_of c))) ?w1)\<lparr>w_fg_pid := w_next_pid w\<rparr>"
  let ?l = "l\<lparr>l_queue := q', l_pid := w_next_pid w, l_pipes := P,
        l_launched := (l_launched l)[i := w_next_pid w]\<rparr>"
  have mask: "mask_of (l_last l) w = Inr ?m" using mask_of_lasts [OF h] l(3) by simp
  have wait: "wait_if (to_be_waited ?m (l_pid l)) (l_pid l) ?w0 = ?w0"
    using m(1) by (simp add: wait_if_def to_be_waited_def)
  have first: "?m \<noteq> Some commandConnectionPipe \<longleftrightarrow> i = 0" using m(1) by simp
  have piped: "run_piped k stack n i ?m (Some p) c (l\<lparr>l_queue := q'\<rparr>) ?w0 = Continue ?l ?w2"
  proof -
    have lp: "l_pipes (l\<lparr>l_queue := q'\<rparr>) = l_pipes l" by simp
    show ?thesis
      unfolding run_piped_def first Let_def lp pipes
      using forks fork_child_run [of ?w1] by (simp add: run_in_child_external [OF c(2)])
  qed
  have cond: "?m = Some commandConnectionPipe \<or> connectionMask c = commandConnectionPipe"
    using m by auto
  have "held ?w2 (lasts @ p # ps) S" using h held_cong [of ?w2 w] by simp
  from free_lasts [OF this l(4)] obtain w' where
    w': "(if last_ptr lasts \<noteq> None then free_command (last_ptr lasts) ?w2 else Inr ?w2) = Inr w'"
    "held w' (p # ps) S" "w_commands w' = release_nodes lasts (w_commands w)"
    "w_nodes w' = w_nodes ?w2" "w_fds w' = w_fds ?w2" "w_forks w' = w_forks ?w2" "w_next_pid w' = w_next_pid ?w2"
    "w_children w' = w_children ?w2" "w_events w' = w_events ?w2" "carries_on ?w2 w'"
    by auto
  have "job_step k stack ic oc n i l w = Inr (Continue (?l\<lparr>l_last := Some p\<rparr>) w')"
    unfolding job_step_run [OF pop(1) l(1,2) live c(1,3) mask] wait
    using piped cond w'(1) l(3) by (cases lasts) simp_all
  moreover have "carries_on w w'" by (rule carries_on_trans [OF _ w'(10)]) (simp add: alloc_ok_subset)
  ultimately show ?thesis using pop(2,3) w'(2-9) by (intro exI [of _ q'] exI [of _ w']) simp
qed

text \<open>A chain: every command but the last writes to the next one.\<close>

fun pipe_chain :: "command_t list \<Rightarrow> bool" where
  "pipe_chain [] \<longleftrightarrow> False"
| "pipe_chain [c] \<longleftrightarrow> connectionMask c = commandConnectionNone \<or> connectionMask c = commandConnectionBackground"
| "pipe_chain (c # cs) \<longleftrightarrow> connectionMask c = commandConnectionPipe \<and> pipe_chain cs"

lemma pipe_chain_Cons:
  "pipe_chain (c # cs) \<Longrightarrow> connectionMask c = commandConnectionPipe \<longleftrightarrow> cs \<noteq> []"
  "pipe_chain (c # cs) \<Longrightarrow> cs \<noteq> [] \<Longrightarrow> pipe_chain cs"
  by (cases cs; auto)+

lemma pipe_chain_last: "pipe_chain cs \<Longrightarrow> connectionMask (last cs) \<noteq> commandConnectionPipe"
  by (induction cs rule: pipe_chain.induct) auto

fun piped_children ::
    "(int \<Rightarrow> int) \<Rightarrow> int list \<Rightarrow> nat \<Rightarrow> fd_table \<Rightarrow> nat \<Rightarrow> int \<Rightarrow> command_t list \<Rightarrow> child list" where
  "piped_children stack P n t i p [] = []"
| "piped_children stack P n t i p (c # cs) =
     \<lparr>child_pid = p, child_fds = wire_child stack P n (int i) (i = 0) (cs \<noteq> []) t,
      child_end = Inr (Runs (path c) (words_of c))\<rparr> # piped_children stack P n t (Suc i) (p + 1) cs"

definition pids_from :: "int \<Rightarrow> nat \<Rightarrow> int list" where
  "pids_from p m = map (\<lambda>x. p + int x) [0..<m]"

lemma pids_from_Suc: "pids_from p (Suc m) = p # pids_from (p + 1) m"
  by (simp add: pids_from_def upt_conv_Cons map_Suc_upt [symmetric] comp_def algebra_simps del: upt_Suc)

text \<open>The commands after the first one.\<close>

lemma piped_loop:
  assumes "holds_nodes (l_queue l) (w_nodes w) as" "items (w_nodes w) as = map Some ps"
    and "l_fd_in l = - 1" "l_fd_out l = - 1" "l_last l = Some b"
    and "held w (b # ps) S" "last_mask [b] w = Some commandConnectionPipe"
    and "pipe_chain (map (object_at (w_commands w)) ps)"
    and "\<forall>c \<in> set (map (object_at (w_commands w)) ps). external k c \<and> no_redirect c"
    and "False \<notin> set (w_forks w)" "0 < i" "length (l_launched l) = i + length ps"
  shows "\<exists>l' w' q'. job_loop k stack ic oc n (length ps) i l w = Inr (Continue l' w') \<and>
    l' = l\<lparr>l_queue := q', l_pid := w_next_pid w + int (length ps) - 1,
      l_launched := take i (l_launched l) @ pids_from (w_next_pid w) (length ps), l_last := Some (last ps)\<rparr> \<and>
    holds_nodes q' (w_nodes w') [] \<and> w_nodes w' = release_nodes as (w_nodes w) \<and>
    held w' [last ps] S \<and> w_commands w' = release_nodes (b # butlast ps) (w_commands w) \<and>
    w_fds w' = w_fds w \<and> w_next_pid w' = w_next_pid w + int (length ps) \<and>
    w_children w' = w_children w @
      piped_children stack (l_pipes l) n (w_fds w) i (w_next_pid w) (map (object_at (w_commands w)) ps) \<and>
    w_events w' = w_events w @ map Forked (pids_from (w_next_pid w) (length ps)) \<and>
    last_mask [last ps] w' = last_mask [last ps] w \<and> carries_on w w'"
  using assms
proof (induction ps arbitrary: as b i l w)
  case Nil
  then show ?case by simp
next
  case (Cons p ps)
  obtain a as' where as: "as = a # as'" using Cons.prems(2) by (cases as) (auto simp: items_def)
  let ?c = "object_at (w_commands w) p"
  have c: "external k ?c" "no_redirect ?c" using Cons.prems(9) by simp_all
  have fork: "fst (alloc_ok (w_forks w))" "False \<notin> set (snd (alloc_ok (w_forks w)))"
    using Cons.prems(10) alloc_ok_False alloc_ok_subset by blast+
  have fresh: "p \<noteq> b" "b \<notin> set ps" "p \<notin> set ps" using Cons.prems(6) by (auto simp: held_def)
  have i: "i \<noteq> 0" using Cons.prems(11) by simp
  have chain: "connectionMask ?c = commandConnectionPipe \<longleftrightarrow> ps \<noteq> []"
    "ps \<noteq> [] \<Longrightarrow> pipe_chain (map (object_at (w_commands w)) ps)"
    using pipe_chain_Cons [of ?c "map (object_at (w_commands w)) ps"] Cons.prems(8) by auto
  have held: "held w ([b] @ p # ps) S" using Cons.prems(6) by simp
  have mask: "last_mask [b] w = (if i = 0 then None else Some commandConnectionPipe)"
    using Cons.prems(7) i by simp
  have last: "l_last l = last_ptr [b]" using Cons.prems(5) by simp
  have pipes: "(if i = 0 then make_pipes k (n - 1) 0 (l_pipes l) (w\<lparr>w_nodes := (w_nodes w)[a := None]\<rparr>)
        else (l_pipes l, w\<lparr>w_nodes := (w_nodes w)[a := None]\<rparr>)) =
      (l_pipes l, w\<lparr>w_nodes := (w_nodes w)[a := None], w_fds := w_fds w, w_pipes := w_pipes w\<rparr>)"
    using i by simp
  have one: "length [b] \<le> 1" by simp
  obtain q1 w1 where s: "job_step k stack ic oc n i l w =
      Inr (Continue (l\<lparr>l_queue := q1, l_pid := w_next_pid w, l_pipes := l_pipes l,
        l_launched := (l_launched l)[i := w_next_pid w], l_last := Some p\<rparr>) w1)"
    "holds_nodes q1 (w_nodes w1) as'" "items (w_nodes w1) as' = map Some ps"
    "w_nodes w1 = (w_nodes w)[a := None]" "held w1 (p # ps) S"
    "w_commands w1 = release_nodes [b] (w_commands w)" "w_fds w1 = w_fds w"
    "w_forks w1 = snd (alloc_ok (w_forks w))" "w_next_pid w1 = w_next_pid w + 1"
    "w_children w1 = w_children w @
      [\<lparr>child_pid = w_next_pid w,
        child_fds = wire_child stack (l_pipes l) n (int i) (i = 0) (connectionMask ?c = commandConnectionPipe) (w_fds w),
        child_end = Inr (Runs (path ?c) (words_of ?c))\<rparr>]"
    "w_events w1 = w_events w @ [Forked (w_next_pid w)]" "carries_on w w1"
    using piped_step [OF Cons.prems(1,2) [unfolded as] Cons.prems(3,4) last one held mask _ refl c fork(1) pipes] i
    by blast
  let ?l1 = "l\<lparr>l_queue := q1, l_pid := w_next_pid w,
        l_launched := (l_launched l)[i := w_next_pid w], l_last := Some p\<rparr>"
  have l1: "l\<lparr>l_queue := q1, l_pid := w_next_pid w, l_pipes := l_pipes l,
        l_launched := (l_launched l)[i := w_next_pid w], l_last := Some p\<rparr> = ?l1" by simp
  have obj: "object_at (w_commands w1) x = object_at (w_commands w) x" if "x \<noteq> b" for x
    unfolding s(6) using that by (intro release_nodes_object) simp
  have objs: "map (object_at (w_commands w1)) ps = map (object_at (w_commands w)) ps"
    using obj fresh(2) by (metis (no_types, lifting) map_eq_conv)
  have mask1: "last_mask [p] w1 = Some (connectionMask ?c)" using obj [OF fresh(1)] by (simp add: last_mask_def)
  have launch: "take (Suc i) ((l_launched l)[i := w_next_pid w]) = take i (l_launched l) @ [w_next_pid w]"
    using Cons.prems(12) by (simp add: take_Suc_conv_app_nth)
  show ?case
  proof (cases "ps = []")
    case True
    have "as' = []" using s(3) True by (simp add: items_def)
    moreover have "last_mask [p] w1 = last_mask [p] w" using mask1 by (simp add: last_mask_def)
    ultimately show ?thesis
      unfolding as
      using True s i chain(1) Cons.prems(12) launch
      by (intro exI [of _ ?l1] exI [of _ w1] exI [of _ q1])
        (simp add: pids_from_def l1 take_Suc_conv_app_nth)
  next
    case False
    have pre: "holds_nodes (l_queue ?l1) (w_nodes w1) as'" "items (w_nodes w1) as' = map Some ps"
      "l_fd_in ?l1 = - 1" "l_fd_out ?l1 = - 1" "l_last ?l1 = Some p"
      "held w1 (p # ps) S" "last_mask [p] w1 = Some commandConnectionPipe"
      "pipe_chain (map (object_at (w_commands w1)) ps)"
      "\<forall>c \<in> set (map (object_at (w_commands w1)) ps). external k c \<and> no_redirect c"
      "False \<notin> set (w_forks w1)" "0 < Suc i" "length (l_launched ?l1) = Suc i + length ps"
      using s(2,3,5,8) Cons.prems(3,4,9,12) fork(2) mask1 chain False unfolding objs by simp_all
    obtain l' w' q' where r: "job_loop k stack ic oc n (length ps) (Suc i) ?l1 w1 = Inr (Continue l' w')"
      "l' = ?l1\<lparr>l_queue := q', l_pid := w_next_pid w1 + int (length ps) - 1,
        l_launched := take (Suc i) (l_launched ?l1) @ pids_from (w_next_pid w1) (length ps), l_last := Some (last ps)\<rparr>"
      "holds_nodes q' (w_nodes w') []" "w_nodes w' = release_nodes as' (w_nodes w1)"
      "held w' [last ps] S" "w_commands w' = release_nodes (p # butlast ps) (w_commands w1)"
      "w_fds w' = w_fds w1" "w_next_pid w' = w_next_pid w1 + int (length ps)"
      "w_children w' = w_children w1 @
        piped_children stack (l_pipes ?l1) n (w_fds w1) (Suc i) (w_next_pid w1) (map (object_at (w_commands w1)) ps)"
      "w_events w' = w_events w1 @ map Forked (pids_from (w_next_pid w1) (length ps))"
      "last_mask [last ps] w' = last_mask [last ps] w1" "carries_on w1 w'"
      using Cons.IH [OF pre] by blast
    have run: "job_loop k stack ic oc n (length (p # ps)) i l w = Inr (Continue l' w')"
      using s(1) r(1) unfolding l1 by simp
    have l': "l' = l\<lparr>l_queue := q', l_pid := w_next_pid w + int (length (p # ps)) - 1,
      l_launched := take i (l_launched l) @ pids_from (w_next_pid w) (length (p # ps)), l_last := Some (last (p # ps))\<rparr>"
      using r(2) s(9) False launch by (simp add: pids_from_Suc)
    have heap: "w_commands w' = release_nodes (b # butlast (p # ps)) (w_commands w)"
      using r(6) s(6) False by simp
    have children: "w_children w' = w_children w @
      piped_children stack (l_pipes l) n (w_fds w) i (w_next_pid w) (map (object_at (w_commands w)) (p # ps))"
      using r(9) s(7,9,10) chain(1) False unfolding objs by simp
    have events: "w_events w' = w_events w @ map Forked (pids_from (w_next_pid w) (length (p # ps)))"
      using r(10) s(9,11) by (simp add: pids_from_Suc)
    have "last ps \<noteq> b" using fresh(2) False by (metis last_in_set)
    then have lm: "last_mask [last (p # ps)] w' = last_mask [last (p # ps)] w"
      using r(11) obj False by (simp add: last_mask_def)
    have "carries_on w w'" using s(12) r(12) by (rule carries_on_trans)
    then show ?thesis
      using run l' heap children events lm r(3,4,5,7,8) s(4,7,9) False as
      by (intro exI [of _ l'] exI [of _ w'] exI [of _ q'] conjI) simp_all
  qed
qed

section \<open>The whole pipeline\<close>

lemma piped_children_nth:
  "length (piped_children stack P n t i p cs) = length cs"
  "x < length cs \<Longrightarrow> piped_children stack P n t i p cs ! x =
    \<lparr>child_pid = p + int x, child_fds = wire_child stack P n (int (i + x)) (i + x = 0) (Suc x < length cs) t,
     child_end = Inr (Runs (path (cs ! x)) (words_of (cs ! x)))\<rparr>"
proof (induction cs arbitrary: i p x)
  case (Cons c cs)
  {
    case 1
    then show ?case using Cons.IH(1) by simp
  next
    case 2
    then show ?case
      using Cons.IH(2) [of "x - 1" "Suc i" "p + 1"] by (cases x) (auto simp: algebra_simps)
  }
qed simp_all

lemma fd_dup2_id: "fd_channel t a = fd_channel t (int n) \<Longrightarrow> fd_channel t (int n) \<noteq> None \<Longrightarrow> fd_dup2 a n t = t"
  by (auto simp: fd_dup2_def fd_put_same)

definition enough_fds :: "kernel \<Rightarrow> fd_table \<Rightarrow> nat \<Rightarrow> bool" where
  "enough_fds k t n \<longleftrightarrow> standard_fds k t \<and> open_count t + 2 * n \<le> fd_limit k"

lemma pipeline_rounds:
  assumes q: "holds_nodes (l_queue l) (w_nodes w) as" "items (w_nodes w) as = map Some ps"
    and l: "l_fd_in l = - 1" "l_fd_out l = - 1" "l_last l = None" "length (l_launched l) = length ps"
    and h: "held w ps S" and cs: "cs = map (object_at (w_commands w)) ps" "pipe_chain cs" "2 \<le> length ps"
    and ext: "\<forall>c \<in> set cs. external k c \<and> no_redirect c"
    and forks: "False \<notin> set (w_forks w)"
    and made: "\<And>w'. w_fds w' = w_fds w \<Longrightarrow> w_pipes w' = w_pipes w \<Longrightarrow>
      make_pipes k (length ps - 1) 0 (l_pipes l) w' = (P, w'\<lparr>w_fds := t, w_pipes := np\<rparr>)"
  shows "\<exists>l' w' q'. job_loop k stack ic oc (length ps) (length ps) 0 l w = Inr (Continue l' w') \<and>
    l' = l\<lparr>l_queue := q', l_pid := w_next_pid w + int (length ps) - 1, l_pipes := P,
      l_launched := pids_from (w_next_pid w) (length ps), l_last := Some (last ps)\<rparr> \<and>
    holds_nodes q' (w_nodes w') [] \<and> w_nodes w' = release_nodes as (w_nodes w) \<and>
    held w' [last ps] S \<and> w_commands w' = release_nodes (butlast ps) (w_commands w) \<and>
    w_fds w' = t \<and>
    w_children w' = w_children w @ piped_children stack P (length ps) t 0 (w_next_pid w) cs \<and>
    w_events w' = w_events w @ map Forked (pids_from (w_next_pid w) (length ps)) \<and>
    last_mask [last ps] w' = Some (connectionMask (last cs)) \<and> carries_on w w'"
proof -
  let ?n = "length ps"
  obtain p ps' where ps: "ps = p # ps'" "ps' \<noteq> []" using cs(3) by (cases ps; cases "tl ps") auto
  obtain a as' where as: "as = a # as'" using q(2) ps(1) by (cases as) (auto simp: items_def)
  let ?c = "object_at (w_commands w) p"
  have chain: "connectionMask ?c = commandConnectionPipe" "pipe_chain (map (object_at (w_commands w)) ps')"
    using pipe_chain_Cons [of ?c "map (object_at (w_commands w)) ps'"] cs(1,2) ps by auto
  have c: "external k ?c" "no_redirect ?c" using ext cs(1) ps(1) by simp_all
  have fork: "fst (alloc_ok (w_forks w))" "False \<notin> set (snd (alloc_ok (w_forks w)))"
    using forks alloc_ok_False [of "w_forks w"] alloc_ok_subset [of "w_forks w"] by auto
  have mp: "(if (0::nat) = 0 then make_pipes k (?n - 1) 0 (l_pipes l) (w\<lparr>w_nodes := (w_nodes w)[a := None]\<rparr>)
        else (l_pipes l, w\<lparr>w_nodes := (w_nodes w)[a := None]\<rparr>)) =
      (P, w\<lparr>w_nodes := (w_nodes w)[a := None], w_fds := t, w_pipes := np\<rparr>)"
    using made [of "w\<lparr>w_nodes := (w_nodes w)[a := None]\<rparr>"] by simp
  have args: "holds_nodes (l_queue l) (w_nodes w) (a # as')" "items (w_nodes w) (a # as') = map Some (p # ps')"
    "l_fd_in l = - 1" "l_fd_out l = - 1" "l_last l = last_ptr []" "length ([] :: nat list) \<le> 1"
    "held w ([] @ p # ps') S"
    using q l h ps(1) as by simp_all
  have mask0: "last_mask [] w = (if (0::nat) = 0 then None else Some commandConnectionPipe)"
    by (simp add: last_mask_def)
  obtain q1 w1 where s: "job_step k stack ic oc ?n 0 l w =
      Inr (Continue (l\<lparr>l_queue := q1, l_pid := w_next_pid w, l_pipes := P,
        l_launched := (l_launched l)[0 := w_next_pid w], l_last := Some p\<rparr>) w1)"
    "holds_nodes q1 (w_nodes w1) as'" "items (w_nodes w1) as' = map Some ps'"
    "w_nodes w1 = (w_nodes w)[a := None]" "held w1 (p # ps') S"
    "w_commands w1 = w_commands w" "w_fds w1 = t"
    "w_forks w1 = snd (alloc_ok (w_forks w))" "w_next_pid w1 = w_next_pid w + 1"
    "w_children w1 = w_children w @
      [\<lparr>child_pid = w_next_pid w, child_fds = wire_child stack P ?n 0 True True t,
        child_end = Inr (Runs (path ?c) (words_of ?c))\<rparr>]"
    "w_events w1 = w_events w @ [Forked (w_next_pid w)]" "carries_on w w1"
    using piped_step [where stack = stack and ic = ic and oc = oc, OF args mask0 chain(1) refl c fork(1) mp] chain(1)
    by auto
  let ?l1 = "l\<lparr>l_queue := q1, l_pid := w_next_pid w, l_pipes := P,
        l_launched := (l_launched l)[0 := w_next_pid w], l_last := Some p\<rparr>"
  have pre: "holds_nodes (l_queue ?l1) (w_nodes w1) as'" "items (w_nodes w1) as' = map Some ps'"
    "l_fd_in ?l1 = - 1" "l_fd_out ?l1 = - 1" "l_last ?l1 = Some p"
    "held w1 (p # ps') S" "last_mask [p] w1 = Some commandConnectionPipe"
    "pipe_chain (map (object_at (w_commands w1)) ps')"
    "\<forall>c \<in> set (map (object_at (w_commands w1)) ps'). external k c \<and> no_redirect c"
    "False \<notin> set (w_forks w1)" "0 < Suc 0" "length (l_launched ?l1) = Suc 0 + length ps'"
    using s(2,3,5,6,8) chain ext cs(1) ps(1) fork(2) l by (simp_all add: last_mask_def)
  obtain l' w' q' where r: "job_loop k stack ic oc ?n (length ps') (Suc 0) ?l1 w1 = Inr (Continue l' w')"
    "l' = ?l1\<lparr>l_queue := q', l_pid := w_next_pid w1 + int (length ps') - 1,
      l_launched := take (Suc 0) (l_launched ?l1) @ pids_from (w_next_pid w1) (length ps'), l_last := Some (last ps')\<rparr>"
    "holds_nodes q' (w_nodes w') []" "w_nodes w' = release_nodes as' (w_nodes w1)"
    "held w' [last ps'] S" "w_commands w' = release_nodes (p # butlast ps') (w_commands w1)"
    "w_fds w' = w_fds w1"
    "w_children w' = w_children w1 @
      piped_children stack (l_pipes ?l1) ?n (w_fds w1) (Suc 0) (w_next_pid w1) (map (object_at (w_commands w1)) ps')"
    "w_events w' = w_events w1 @ map Forked (pids_from (w_next_pid w1) (length ps'))"
    "last_mask [last ps'] w' = last_mask [last ps'] w1" "carries_on w1 w'"
    using piped_loop [OF pre] by blast
  have launch: "take (Suc 0) ((l_launched l)[0 := w_next_pid w]) = [w_next_pid w]"
    using l(4) ps(1) by (cases "l_launched l") auto
  have l': "l' = l\<lparr>l_queue := q', l_pid := w_next_pid w + int ?n - 1, l_pipes := P,
      l_launched := pids_from (w_next_pid w) ?n, l_last := Some (last ps)\<rparr>"
    using r(2) s(9) ps launch by (simp add: pids_from_Suc)
  have run: "job_loop k stack ic oc ?n ?n 0 l w = Inr (Continue l' w')" using s(1) r(1) ps(1) by simp
  have children: "w_children w' = w_children w @ piped_children stack P ?n t 0 (w_next_pid w) cs"
    using r(8) s(6,7,9,10) cs(1) ps by simp
  have events: "w_events w' = w_events w @ map Forked (pids_from (w_next_pid w) ?n)"
    using r(9) s(9,11) ps(1) by (simp add: pids_from_Suc)
  have mask: "last_mask [last ps] w' = Some (connectionMask (last cs))"
    using r(10) s(6) cs(1) ps by (simp add: last_mask_def last_map)
  have "carries_on w w'" using s(12) r(11) by (rule carries_on_trans)
  then show ?thesis
    using run l' children events mask r(3-7) s(4,6,7) ps as
    by (intro exI [of _ l'] exI [of _ w'] exI [of _ q'] conjI) simp_all
qed

lemma executeCommands_pipeline_run:
  assumes q: "queue_holds_commands w q as ps S" and fds: "enough_fds k (w_fds w) (length ps)"
    and cs: "cs = map (object_at (w_commands w)) ps" "pipe_chain cs" "2 \<le> length ps"
    and ext: "\<forall>c \<in> set cs. external k c \<and> no_redirect c"
    and low: "stack (- 2) < 0"
    and forks: "False \<notin> set (w_forks w)" "0 < w_next_pid w"
  shows "\<exists>q' w' chs. executeCommandsInQueue k stack junk (Some q) w = Inr (Return 0 q' w') \<and>
    holds_nodes q' (w_nodes w') [] \<and> w_nodes w' = release_nodes as (w_nodes w) \<and>
    w_commands w' = release_nodes ps (w_commands w) \<and> w_strings w' = S \<and> w_fg_pid w' = 0 \<and>
    (\<forall>fd. fd_channel (w_fds w') fd = fd_channel (with_copies k (w_fds w)) fd) \<and>
    w_children w' = w_children w @ chs \<and> length chs = length ps \<and>
    (\<forall>i < length ps. child_pid (chs ! i) = w_next_pid w + int i \<and>
      child_end (chs ! i) = Inr (Runs (path (cs ! i)) (words_of (cs ! i))) \<and>
      (\<forall>fd. fd_channel (child_fds (chs ! i)) fd =
        piped_channel (w_pipes w) (length ps) i (with_copies k (w_fds w)) fd)) \<and>
    w_events w' = w_events w @ map Forked (pids_from (w_next_pid w) (length ps)) @
      map (\<lambda>p. Waited p (w_fds w'))
        ((if connectionMask (last cs) = commandConnectionBackground then []
          else [w_next_pid w + int (length ps) - 1]) @ pids_from (w_next_pid w) (length ps)) \<and>
    carries_on w w'"
proof -
  let ?n = "length ps"
  let ?base = "with_copies k (w_fds w)"
  let ?pipes = "map (\<lambda>j. stack (int j)) [0..<2 * (?n - 1)]"
  let ?l = "\<lparr>l_queue = q, l_fd_in = - 1, l_fd_out = - 1, l_pid = - 1, l_pipes = ?pipes,
    l_launched = map junk [0..<?n], l_last = None\<rparr>"
  let ?w = "w\<lparr>w_fds := ?base\<rparr>"
  have std: "standard_fds k (w_fds w)" "open_count (w_fds w) + 2 * ?n \<le> fd_limit k"
    using fds by (simp_all add: enough_fds_def)
  obtain ic oc where run: "executeCommandsInQueue k stack junk (Some q) w =
      rbind (job_loop k stack ic oc ?n ?n 0 ?l ?w) (\<lambda>f.
        case f of Continue l1 w1 \<Rightarrow> finish_jobs ic oc l1 w1 | _ \<Rightarrow> Inr f)"
    "fd_channel ?base ic = fd_channel (w_fds w) 0" "fd_channel ?base oc = fd_channel (w_fds w) 1"
    using q std(1) by (rule execute_start)
  have t0: "open_count ?base = open_count (w_fds w) + 2" "fd_channel ?base 0 = fd_channel (w_fds w) 0"
    "fd_channel ?base 1 = fd_channel (w_fds w) 1"
    using std(1) by (rule copies_run; auto simp: standard_fds_def)+
  have open01: "fd_channel ?base 0 \<noteq> None" "fd_channel ?base 1 \<noteq> None"
    using t0(2,3) std(1) by (simp_all add: standard_fds_def)
  have h: "holds_nodes q (w_nodes w) as" "items (w_nodes w) as = map Some ps" "held ?w ps S"
    using q held_cong [of ?w w] by (auto simp: queue_holds_commands_def)
  have lim: "open_count ?base + 2 * (?n - 1) \<le> fd_limit k" "0 + 2 * (?n - 1) \<le> length ?pipes"
    using t0(1) std(2) cs(3) by auto
  obtain P t where made: "\<And>w'. w_fds w' = ?base \<Longrightarrow> w_pipes w' = w_pipes w \<Longrightarrow>
      make_pipes k (?n - 1) 0 ?pipes w' = (P, w'\<lparr>w_fds := t, w_pipes := w_pipes w + (?n - 1)\<rparr>)"
    "length P = 2 * (?n - 1)" "pipes_made ?base (w_pipes w) (?n - 1) 0 P t"
    using make_pipes_run [OF lim, of "w_pipes w"] by auto
  obtain l1 w1 q1 where r: "job_loop k stack ic oc ?n ?n 0 ?l ?w = Inr (Continue l1 w1)"
    "l1 = ?l\<lparr>l_queue := q1, l_pid := w_next_pid w + int ?n - 1, l_pipes := P,
      l_launched := pids_from (w_next_pid w) ?n, l_last := Some (last ps)\<rparr>"
    "holds_nodes q1 (w_nodes w1) []" "w_nodes w1 = release_nodes as (w_nodes w)" "held w1 [last ps] S"
    "w_commands w1 = release_nodes (butlast ps) (w_commands w)" "w_fds w1 = t"
    "w_children w1 = w_children w @ piped_children stack P ?n t 0 (w_next_pid w) cs"
    "w_events w1 = w_events w @ map Forked (pids_from (w_next_pid w) ?n)"
    "last_mask [last ps] w1 = Some (connectionMask (last cs))" "carries_on ?w w1"
    using pipeline_rounds [where l = ?l and w = ?w and as = as and ps = ps and S = S and cs = cs and k = k
        and P = P and t = t and np = "w_pipes w + (?n - 1)" and stack = stack and ic = ic and oc = oc]
      h cs ext forks made(1) by auto
  let ?t = "closepipes P t"
  have closed: "fd_channel ?t fd = fd_channel ?base fd" for fd
    using pipes_made_ends [OF made(3,2)] by (simp add: fd_channel_closepipes)
  have same: "fd_channel ?base ic = fd_channel ?base (int 0)" "fd_channel ?base oc = fd_channel ?base (int 1)"
    using run(2,3) t0(2,3) by simp_all
  have dups: "fd_dup2 ic 0 ?t = ?t" "fd_dup2 oc 1 ?t = ?t"
    using same open01 by (auto intro!: fd_dup2_id simp: closed)
  let ?closed = "w1\<lparr>w_fds := ?t\<rparr>"
  have l1: "l_last l1 = Some (last ps)" "l_pipes l1 = P" "l_launched l1 = pids_from (w_next_pid w) ?n"
    "l_queue l1 = q1" "l_pid l1 = w_next_pid w + int ?n - 1"
    using r(2) by simp_all
  have w1: "w1\<lparr>w_fds := closepipes (l_pipes l1) (w_fds w1)\<rparr> = ?closed" by (simp add: l1(2) r(7))
  obtain w' where f: "finish_jobs ic oc l1 w1 = Inr (Return 0 (l_queue l1) w')"
    "w_nodes w' = w_nodes w1" "w_commands w' = (w_commands w1)[last ps := None]" "w_strings w' = S"
    "w_fds w' = ?t" "w_children w' = w_children w1" "w_fg_pid w' = 0"
    "w_events w' = w_events w1 @ wait_events (last_mask [last ps] w1) (l_pid l1) ?t @ map (\<lambda>p. Waited p ?t) (l_launched l1)"
    "carries_on w1 w'"
    using finish_jobs_run [OF r(5) l1(1) w1, of ic oc] dups by auto
  have heap: "w_commands w' = release_nodes ps (w_commands w)"
  proof -
    have "w_commands w' = release_nodes (butlast ps @ [last ps]) (w_commands w)"
      using f(3) r(6) by (simp add: release_nodes_append)
    moreover have "ps \<noteq> []" using cs(3) by auto
    ultimately show ?thesis by simp
  qed
  have chain_last: "connectionMask (last cs) \<noteq> commandConnectionPipe" using cs(2) pipe_chain_last by blast
  then have events: "w_events w' = w_events w @ map Forked (pids_from (w_next_pid w) ?n) @
      map (\<lambda>p. Waited p ?t)
        ((if connectionMask (last cs) = commandConnectionBackground then []
          else [w_next_pid w + int ?n - 1]) @ pids_from (w_next_pid w) ?n)"
    using f(8) r(9,10) l1(3,5) forks(2) by (simp add: wait_events_plain)
  let ?chs = "piped_children stack P ?n t 0 (w_next_pid w) cs"
  have len: "length cs = ?n" using cs(1) by simp
  have below: "fd_channel t (stack (- 2)) = None" using low by (simp add: fd_channel_def)
  have each: "child_pid (?chs ! i) = w_next_pid w + int i \<and>
      child_end (?chs ! i) = Inr (Runs (path (cs ! i)) (words_of (cs ! i))) \<and>
      (\<forall>fd. fd_channel (child_fds (?chs ! i)) fd = piped_channel (w_pipes w) ?n i ?base fd)" if i: "i < ?n" for i
    using wire_child_run [OF made(3,2) cs(3) i _ _ open01, of "i = 0" "Suc i < ?n"] below i len
    by (simp add: piped_children_nth)
  have children: "w_children w' = w_children w @ ?chs" "length ?chs = ?n"
    using f(6) r(8) len by (simp_all add: piped_children_nth)
  have "carries_on w ?w" by simp
  then have "carries_on w w'" using r(11) f(9) by (blast intro: carries_on_trans)
  then show ?thesis
    using run(1) f(1,2,4,5,7) heap events each children r(1,3,4) l1(4) closed
    by (intro exI [of _ q1] exI [of _ w'] exI [of _ ?chs] conjI) simp_all
qed

section \<open>Properties\<close>

text \<open>C8. Pipelines: for \<open>a | b | ... | z\<close> of external commands the shell starts one process per
  command; the \<open>i\<close>-th reads from the pipe of its left neighbour, writes to the pipe to its right, and
  has no other end of a pipe open; all processes are started before the first wait, and by then the
  shell itself has no end of a pipe open, so that every reader can see the end of its input. All
  commands and nodes are freed. The int before the array of pipes must not be a descriptor.\<close>

theorem pipeline_wiring:
  assumes "queue_holds_commands w q as ps S" "enough_fds k (w_fds w) (length ps)"
    and "cs = map (object_at (w_commands w)) ps" "pipe_chain cs" "2 \<le> length ps"
    and "\<forall>c \<in> set cs. external k c \<and> no_redirect c"
    and "stack (- 2) < 0" "False \<notin> set (w_forks w)" "0 < w_next_pid w"
  shows "\<exists>q' w' chs. executeCommandsInQueue k stack junk (Some q) w = Inr (Return 0 q' w') \<and>
    holds_nodes q' (w_nodes w') [] \<and> w_nodes w' = release_nodes as (w_nodes w) \<and>
    w_commands w' = release_nodes ps (w_commands w) \<and> w_strings w' = S \<and> w_fg_pid w' = 0 \<and>
    (\<forall>fd. fd_channel (w_fds w') fd = fd_channel (with_copies k (w_fds w)) fd) \<and>
    w_children w' = w_children w @ chs \<and> length chs = length ps \<and>
    (\<forall>i < length ps. child_pid (chs ! i) = w_next_pid w + int i \<and>
      child_end (chs ! i) = Inr (Runs (path (cs ! i)) (words_of (cs ! i))) \<and>
      (\<forall>fd. fd_channel (child_fds (chs ! i)) fd =
        piped_channel (w_pipes w) (length ps) i (with_copies k (w_fds w)) fd)) \<and>
    w_events w' = w_events w @ map Forked (pids_from (w_next_pid w) (length ps)) @
      map (\<lambda>p. Waited p (w_fds w'))
        ((if connectionMask (last cs) = commandConnectionBackground then []
          else [w_next_pid w + int (length ps) - 1]) @ pids_from (w_next_pid w) (length ps)) \<and>
    carries_on w w'"
  by (rule executeCommands_pipeline_run [where stack = stack, OF assms])

theorem pipeline_wiring_witness:
  "\<exists>q' w' chs. executeCommandsInQueue small_kernel (\<lambda>_. - 1) (\<lambda>_. 0) (Some (listed_queue 3))
      (world_with home_shell
        [simple_command [''ls''] commandConnectionPipe, simple_command [''sort''] commandConnectionPipe,
         simple_command [''wc''] commandConnectionNone]) = Inr (Return 0 q' w') \<and>
    w_children w' = chs \<and> length chs = 3 \<and>
    fd_channel (child_fds (chs ! 0)) 1 = Some (pipe_out 0) \<and>
    fd_channel (child_fds (chs ! 1)) 0 = Some (pipe_in 0) \<and>
    fd_channel (child_fds (chs ! 1)) 1 = Some (pipe_out 1) \<and>
    fd_channel (child_fds (chs ! 2)) 0 = Some (pipe_in 1)"
proof -
  let ?cs = "[simple_command [''ls''] commandConnectionPipe, simple_command [''sort''] commandConnectionPipe,
         simple_command [''wc''] commandConnectionNone]"
  let ?w = "world_with home_shell ?cs"
  have three: "length ?cs = 3" by simp
  have q: "queue_holds_commands ?w (listed_queue 3) [0..<3] [0..<3] (al_strings (sh_aliases home_shell))"
    by (rule world_with_queue [of ?cs home_shell, unfolded three]) simp_all
  have cs: "?cs = map (object_at (w_commands ?w)) [0..<3]"
    using world_with_objects [of home_shell ?cs] unfolding three by simp
  have fds: "enough_fds small_kernel (w_fds ?w) (length [0..<3])"
    using small_kernel_fds by (simp add: enough_fds_def) (simp add: small_kernel_def open_count_def)
  have chain: "pipe_chain ?cs" by simp
  have ext: "\<forall>c \<in> set ?cs. external small_kernel c \<and> no_redirect c"
    by (simp add: external_simple no_redirect_def builtin_names_def cstr_Cons NUL_def)
  have n: "2 \<le> length [0..<3]" "(\<lambda>_. - 1 :: int) (- 2 :: int) < 0" "False \<notin> set (w_forks ?w)" "0 < w_next_pid ?w"
    by simp_all
  obtain q' w' chs where r: "executeCommandsInQueue small_kernel (\<lambda>_. - 1) (\<lambda>_. 0) (Some (listed_queue 3)) ?w =
      Inr (Return 0 q' w')" "w_children w' = w_children ?w @ chs" "length chs = length [0..<3]"
    "\<forall>i < length [0..<3]. \<forall>fd. fd_channel (child_fds (chs ! i)) fd =
        piped_channel (w_pipes ?w) (length [0..<3]) i (with_copies small_kernel (w_fds ?w)) fd"
    using pipeline_wiring [where stack = "\<lambda>_. - 1" and junk = "\<lambda>_. 0", OF q fds cs chain n(1) ext n(2-4)] by blast
  have "fd_channel (child_fds (chs ! 0)) 1 = Some (pipe_out 0)" "fd_channel (child_fds (chs ! 1)) 0 = Some (pipe_in 0)"
    "fd_channel (child_fds (chs ! 1)) 1 = Some (pipe_out 1)" "fd_channel (child_fds (chs ! 2)) 0 = Some (pipe_in 1)"
    using r(4) by (simp_all add: piped_channel_def)
  with r(1-3) show ?thesis by auto
qed

text \<open>C34. The hypothesis on that int is needed: the first command of a pipeline uses \<open>pipes[-2]\<close>, and if
  the int found there is an open descriptor, this becomes the standard input of the command.\<close>

theorem first_pipe_reads_below:
  assumes "pipes_made t0 b (n - 1) 0 P t" "length P = 2 * (n - 1)" "2 \<le> n"
    and "fd_channel t0 0 \<noteq> None" "fd_channel t (stack (- 2)) = Some ch" "stack (- 2) \<noteq> 1"
  shows "fd_channel (wire_child stack P n 0 True True t) 0 = Some ch"
proof -
  have out0: "0 \<notin> set P" using pipes_made_ends(1) [OF assms(1,2)] assms(4) by auto
  then show ?thesis
    using assms(3,5,6)
    by (auto simp: wire_child_def Let_def fd_channel_closepipes fd_channel_dup2 pipe_at_def split: option.split)
qed

theorem first_pipe_reads_below_witness:
  "fd_channel (wire_child (\<lambda>_. 2) [3, 4] 2 0 True True
     [Some (Terminal 0), Some (Terminal 1), Some (Read_File ''x''), Some (pipe_in 0), Some (pipe_out 0)]) 0 =
   Some (Read_File ''x'')"
proof -
  let ?base = "[Some (Terminal 0), Some (Terminal 1), Some (Read_File ''x'')]"
  let ?t = "?base @ [Some (pipe_in 0), Some (pipe_out 0)]"
  have "fd_channel ?t fd = fd_channel ?base fd \<or> fd = 3 \<or> fd = 4" for fd
    by (auto simp: fd_channel_def nth_append nth_Cons' split: if_splits)
  moreover have "\<exists>x < 2 * 1. fd = [3, 4 :: int] ! (0 + x)" if "fd = 3 \<or> fd = 4" for fd
    using that by (auto intro: exI [of _ 0] exI [of _ "1 :: nat"])
  ultimately have only: "fd_channel ?t fd = fd_channel ?base fd \<or> (\<exists>x < 2 * 1. fd = [3, 4] ! (0 + x))" for fd
    by blast
  have ends: "fd_channel ?t 3 = Some (pipe_in 0)" "fd_channel ?t 4 = Some (pipe_out 0)"
    "fd_channel ?base 3 = None" "fd_channel ?base 4 = None"
    by (simp_all add: fd_channel_def)
  have "pipes_made ?base 0 1 0 [3, 4] ?t"
    unfolding pipes_made_def using only ends by simp
  then have "pipes_made ?base 0 (2 - 1) 0 [3, 4] ?t" by simp
  from first_pipe_reads_below [OF this, of "\<lambda>_. 2" "Read_File ''x''"] show ?thesis
    by (simp add: fd_channel_def)
qed






end
