(* ===== verification/Parser_Tables.thy ===== *)
theory Parser_Tables
  imports CString
begin

text \<open>
  The generated part of parser.c: the transition tables and the code that searches them. The
  tables are the arrays of the source, entry by entry; every access to them is checked, and the
  two binary searches compare the byte as the signed \<open>char\<close> it is. \<open>parser_delta\<close> is the same
  automaton written by hand over character classes, which is what parser.rl describes; the
  theorem at the end shows that the two agree on all states and bytes.
\<close>

section \<open>Tables\<close>

definition parser_actions :: "int list" where
  "parser_actions =
    [0, 1, 0, 1, 1, 1, 2, 1, 3, 1, 4, 1, 5, 1, 6, 1, 7, 2, 3, 0,
     2, 4, 3, 3, 4, 3, 0]"

definition parser_key_offsets :: "int list" where
  "parser_key_offsets =
    [0, 0, 9, 15, 21, 30, 39, 48, 54, 63, 69, 78, 84, 93, 99, 108]"

definition parser_trans_keys :: "int list" where
  "parser_trans_keys =
    [0, 32, 38, 62, 124, 9, 13, 59, 60, 0, 38, 59, 60, 62, 124, 0, 32, 59, 124, 9,
     13, 0, 32, 38, 62, 124, 9, 13, 59, 60, 0, 32, 38, 62, 124, 9, 13, 59, 60, 0,
     32, 38, 62, 124, 9, 13, 59, 60, 0, 38, 59, 60, 62, 124, 0, 32, 38, 62, 124, 9,
     13, 59, 60, 0, 38, 59, 60, 62, 124, 0, 32, 38, 62, 124, 9, 13, 59, 60, 0, 38,
     59, 60, 62, 124, 0, 32, 38, 62, 124, 9, 13, 59, 60, 0, 38, 59, 60, 62, 124, 0,
     32, 38, 62, 124, 9, 13, 59, 60, 0]"

definition parser_single_lengths :: "int list" where
  "parser_single_lengths =
    [0, 5, 6, 4, 5, 5, 5, 6, 5, 6, 5, 6, 5, 6, 5, 0]"

definition parser_range_lengths :: "int list" where
  "parser_range_lengths =
    [0, 2, 0, 1, 2, 2, 2, 0, 2, 0, 2, 0, 2, 0, 2, 0]"

definition parser_index_offsets :: "int list" where
  "parser_index_offsets =
    [0, 0, 8, 15, 21, 29, 37, 45, 52, 60, 67, 75, 82, 90, 97, 105]"

definition parser_indicies :: "int list" where
  "parser_indicies =
    [1, 2, 3, 3, 3, 2, 3, 0, 1, 5, 6, 7, 8, 9, 4, 1, 10, 6, 9, 10,
     3, 3, 12, 3, 3, 3, 12, 3, 11, 3, 13, 3, 3, 3, 13, 3, 4, 3, 7, 3,
     3, 3, 7, 3, 14, 1, 5, 6, 3, 15, 9, 14, 3, 15, 3, 3, 3, 15, 3, 16,
     1, 5, 6, 3, 3, 9, 16, 3, 8, 3, 3, 3, 8, 3, 17, 1, 5, 6, 18, 3,
     9, 17, 3, 18, 3, 3, 3, 18, 3, 19, 1, 5, 6, 3, 3, 9, 19, 1, 20, 3,
     3, 3, 20, 3, 4, 3, 0]"

definition parser_trans_targs :: "int list" where
  "parser_trans_targs =
    [2, 15, 14, 0, 2, 3, 4, 6, 10, 4, 3, 2, 5, 5, 7, 8, 9, 11, 12, 13,
     14]"

definition parser_trans_actions :: "int list" where
  "parser_trans_actions =
    [17, 9, 7, 0, 1, 13, 15, 0, 0, 11, 0, 23, 20, 0, 3, 0, 5, 5, 0, 3,
     0]"

definition parser_start :: int where
  "parser_start = 1"

definition parser_first_final :: int where
  "parser_first_final = 15"

definition parser_error :: int where
  "parser_error = 0"

section \<open>Table search\<close>

definition entry :: "int list \<Rightarrow> int \<Rightarrow> fault + int" where
  "entry xs i = (if 0 \<le> i \<and> i < int (length xs) then Inr (xs ! nat i) else Inl OutOfBounds)"

text \<open>Binary search for a single key; \<open>lower\<close> and \<open>upper\<close> are positions in the key table.\<close>

function search_single :: "int \<Rightarrow> int \<Rightarrow> int \<Rightarrow> fault + int option" where
  "search_single c lower upper =
     (if upper < lower then Inr None
      else
        let mid = lower + (upper - lower) div 2 in
        rbind (entry parser_trans_keys mid) (\<lambda>k.
          if c < k then search_single c lower (mid - 1)
          else if c > k then search_single c (mid + 1) upper
          else Inr (Some mid)))"
  by pat_completeness auto
termination
  by (relation "measure (\<lambda>(c, lower, upper). nat (upper - lower + 1))") auto

declare search_single.simps [simp del]

text \<open>Binary search for a range; \<open>((upper - lower) >> 1) & ~1\<close> is even.\<close>

function search_range :: "int \<Rightarrow> int \<Rightarrow> int \<Rightarrow> fault + int option" where
  "search_range c lower upper =
     (if upper < lower then Inr None
      else
        let half = (upper - lower) div 2; mid = lower + (half - half mod 2) in
        rbind (entry parser_trans_keys mid) (\<lambda>lo.
        rbind (entry parser_trans_keys (mid + 1)) (\<lambda>hi.
          if c < lo then search_range c lower (mid - 2)
          else if c > hi then search_range c (mid + 2) upper
          else Inr (Some mid))))"
  by pat_completeness auto
termination
proof (relation "measure (\<lambda>(c, lower, upper). nat (upper - lower + 1))", goal_cases)
  case (2 c lower upper half mid lo hi)
  then have "mid \<le> upper" by (simp add: Let_def)
  with 2 show ?case by simp
next
  case (3 c lower upper half mid lo hi)
  then have "lower \<le> mid" by (simp add: Let_def zmod_le_nonneg_dividend)
  with 3 show ?case by simp
qed (rule wf_measure)

declare search_range.simps [simp del]

definition parser_trans :: "int \<Rightarrow> int \<Rightarrow> fault + int" where
  "parser_trans cs c =
     rbind (entry parser_key_offsets cs) (\<lambda>keys.
     rbind (entry parser_index_offsets cs) (\<lambda>trans.
     rbind (entry parser_single_lengths cs) (\<lambda>klen.
     rbind (entry parser_range_lengths cs) (\<lambda>rlen.
     rbind (if klen > 0 then search_single c keys (keys + klen - 1) else Inr None) (\<lambda>hit.
       case hit of
         Some mid \<Rightarrow> entry parser_indicies (trans + (mid - keys))
       | None \<Rightarrow>
           let keys1 = keys + klen; trans1 = trans + klen in
           rbind (if rlen > 0 then search_range c keys1 (keys1 + 2 * rlen - 2) else Inr None)
             (\<lambda>hit2.
               case hit2 of
                 Some mid \<Rightarrow> entry parser_indicies (trans1 + (mid - keys1) div 2)
               | None \<Rightarrow> entry parser_indicies (trans1 + rlen)))))))"

fun action_ids :: "int \<Rightarrow> nat \<Rightarrow> fault + int list" where
  "action_ids pos 0 = Inr []"
| "action_ids pos (Suc n) =
     rbind (entry parser_actions pos) (\<lambda>a. rbind (action_ids (pos + 1) n) (\<lambda>as. Inr (a # as)))"

text \<open>One transition on the byte \<open>c\<close>, a signed \<open>char\<close>: the target state and the actions to run.\<close>

definition parser_step :: "int \<Rightarrow> int \<Rightarrow> fault + (int \<times> int list)" where
  "parser_step cs c =
     rbind (parser_trans cs c) (\<lambda>trans.
     rbind (entry parser_trans_targs trans) (\<lambda>target.
     rbind (entry parser_trans_actions trans) (\<lambda>acts.
       if acts = 0 then Inr (target, [])
       else rbind (entry parser_actions acts) (\<lambda>n.
            rbind (action_ids (acts + 1) (nat n)) (\<lambda>as. Inr (target, as))))))"


section \<open>The automaton by hand\<close>

datatype char_class = Nul | Space | Bar | Ampersand | Semicolon | Less | Greater | Other

datatype action = Append | Append_In | Append_Out | New | Term | Pipe | Bg | Seq

text \<open>\<open>Lt\<close> and \<open>Gt\<close> wait for the path after a redirection sign, \<open>In\<close> and \<open>Out\<close> read it;
  \<open>Sep\<close> is right after a pipe or a semicolon.\<close>

datatype lex_state =
    Failed | Start | Text | Amp | Sep | Sep_Space | Lt | In | In_Gt | In_Out | Gt | Out
  | Out_Lt | Out_In | Blank | Done

fun state_code :: "lex_state \<Rightarrow> int" where
  "state_code Failed = 0"
| "state_code Start = 1"
| "state_code Text = 2"
| "state_code Amp = 3"
| "state_code Sep = 4"
| "state_code Sep_Space = 5"
| "state_code Lt = 6"
| "state_code In = 7"
| "state_code In_Gt = 8"
| "state_code In_Out = 9"
| "state_code Gt = 10"
| "state_code Out = 11"
| "state_code Out_Lt = 12"
| "state_code Out_In = 13"
| "state_code Blank = 14"
| "state_code Done = 15"

fun action_code :: "action \<Rightarrow> int" where
  "action_code Append = 0"
| "action_code Append_In = 1"
| "action_code Append_Out = 2"
| "action_code New = 3"
| "action_code Term = 4"
| "action_code Pipe = 5"
| "action_code Bg = 6"
| "action_code Seq = 7"

definition byte_class :: "int \<Rightarrow> char_class" where
  "byte_class c =
     (if c = 0 then Nul
      else if c = 32 \<or> 9 \<le> c \<and> c \<le> 13 then Space
      else if c = 124 then Bar
      else if c = 38 then Ampersand
      else if c = 59 then Semicolon
      else if c = 60 then Less
      else if c = 62 then Greater
      else Other)"

definition char_class :: "char \<Rightarrow> char_class" where
  "char_class c = byte_class (schar c)"

definition parser_delta :: "lex_state \<Rightarrow> char_class \<Rightarrow> lex_state \<times> action list" where
  "parser_delta s c =
     (case s of
        Start \<Rightarrow> (case c of Nul \<Rightarrow> (Done, [Term])
          | Space \<Rightarrow> (Blank, [New])
          | Other \<Rightarrow> (Text, [New, Append])
          | _ \<Rightarrow> (Failed, []))
      | Text \<Rightarrow> (case c of Nul \<Rightarrow> (Done, [Term])
          | Space \<Rightarrow> (Text, [Append])
          | Other \<Rightarrow> (Text, [Append])
          | Ampersand \<Rightarrow> (Amp, [Bg])
          | Semicolon \<Rightarrow> (Sep, [Seq])
          | Bar \<Rightarrow> (Sep, [Pipe])
          | Less \<Rightarrow> (Lt, [])
          | Greater \<Rightarrow> (Gt, []))
      | Amp \<Rightarrow> (case c of Nul \<Rightarrow> (Done, [Term])
          | Space \<Rightarrow> (Amp, [])
          | Semicolon \<Rightarrow> (Sep, [Seq])
          | Bar \<Rightarrow> (Sep, [Pipe])
          | _ \<Rightarrow> (Failed, []))
      | Sep \<Rightarrow> (case c of Other \<Rightarrow> (Text, [Term, New, Append])
          | Space \<Rightarrow> (Sep_Space, [Term, New])
          | _ \<Rightarrow> (Failed, []))
      | Sep_Space \<Rightarrow> (case c of Other \<Rightarrow> (Text, [Append])
          | Space \<Rightarrow> (Sep_Space, [])
          | _ \<Rightarrow> (Failed, []))
      | Lt \<Rightarrow> (case c of Other \<Rightarrow> (In, [Append_In])
          | Space \<Rightarrow> (Lt, [])
          | _ \<Rightarrow> (Failed, []))
      | In \<Rightarrow> (case c of Nul \<Rightarrow> (Done, [Term])
          | Space \<Rightarrow> (In, [Append_In])
          | Other \<Rightarrow> (In, [Append_In])
          | Ampersand \<Rightarrow> (Amp, [Bg])
          | Semicolon \<Rightarrow> (Sep, [Seq])
          | Greater \<Rightarrow> (In_Gt, [])
          | Bar \<Rightarrow> (Sep, [Pipe])
          | _ \<Rightarrow> (Failed, []))
      | In_Gt \<Rightarrow> (case c of Other \<Rightarrow> (In_Out, [Append_Out])
          | Space \<Rightarrow> (In_Gt, [])
          | _ \<Rightarrow> (Failed, []))
      | In_Out \<Rightarrow> (case c of Nul \<Rightarrow> (Done, [Term])
          | Space \<Rightarrow> (In_Out, [Append_Out])
          | Other \<Rightarrow> (In_Out, [Append_Out])
          | Ampersand \<Rightarrow> (Amp, [Bg])
          | Semicolon \<Rightarrow> (Sep, [Seq])
          | Bar \<Rightarrow> (Sep, [Pipe])
          | _ \<Rightarrow> (Failed, []))
      | Gt \<Rightarrow> (case c of Other \<Rightarrow> (Out, [Append_Out])
          | Space \<Rightarrow> (Gt, [])
          | _ \<Rightarrow> (Failed, []))
      | Out \<Rightarrow> (case c of Nul \<Rightarrow> (Done, [Term])
          | Space \<Rightarrow> (Out, [Append_Out])
          | Other \<Rightarrow> (Out, [Append_Out])
          | Ampersand \<Rightarrow> (Amp, [Bg])
          | Semicolon \<Rightarrow> (Sep, [Seq])
          | Less \<Rightarrow> (Out_Lt, [])
          | Bar \<Rightarrow> (Sep, [Pipe])
          | _ \<Rightarrow> (Failed, []))
      | Out_Lt \<Rightarrow> (case c of Other \<Rightarrow> (Out_In, [Append_In])
          | Space \<Rightarrow> (Out_Lt, [])
          | _ \<Rightarrow> (Failed, []))
      | Out_In \<Rightarrow> (case c of Nul \<Rightarrow> (Done, [Term])
          | Space \<Rightarrow> (Out_In, [Append_In])
          | Other \<Rightarrow> (Out_In, [Append_In])
          | Ampersand \<Rightarrow> (Amp, [Bg])
          | Semicolon \<Rightarrow> (Sep, [Seq])
          | Bar \<Rightarrow> (Sep, [Pipe])
          | _ \<Rightarrow> (Failed, []))
      | Blank \<Rightarrow> (case c of Nul \<Rightarrow> (Done, [Term])
          | Other \<Rightarrow> (Text, [Append])
          | Space \<Rightarrow> (Blank, [])
          | _ \<Rightarrow> (Failed, []))
      | _ \<Rightarrow> (Failed, []))"

definition agree :: "lex_state \<Rightarrow> int \<Rightarrow> bool" where
  "agree s c \<longleftrightarrow>
     (case parser_step (state_code s) c of
        Inl _ \<Rightarrow> False
      | Inr (t, as) \<Rightarrow>
          t = state_code (fst (parser_delta s (byte_class c))) \<and>
          as = map action_code (snd (parser_delta s (byte_class c))))"

text \<open>
  The searches only compare the byte with keys, so bytes that compare alike with every key take
  the same transition: the keys themselves and one byte between any two of them stand for all.
\<close>

definition key_bytes :: "int list" where
  "key_bytes = [-1, 0, 1, 9, 10, 13, 14, 32, 33, 38, 39, 59, 60, 61, 62, 63, 124, 125]"

definition key_byte :: "int \<Rightarrow> int" where
  "key_byte c = (if c < 0 then -1 else last (filter (\<lambda>k. k \<le> c) key_bytes))"

definition compare_alike :: "int \<Rightarrow> int \<Rightarrow> bool" where
  "compare_alike c d \<longleftrightarrow> (\<forall>k \<in> set parser_trans_keys. (c < k \<longleftrightarrow> d < k) \<and> (c > k \<longleftrightarrow> d > k))"

lemma entry_key: "entry parser_trans_keys i = Inr k \<Longrightarrow> k \<in> set parser_trans_keys"
  by (auto simp: entry_def split: if_splits intro!: nth_mem)

lemma search_single_alike:
  "compare_alike c d \<Longrightarrow> search_single c lower upper = search_single d lower upper"
proof (induction c lower upper rule: search_single.induct)
  case (1 c lower upper)
  let ?mid = "lower + (upper - lower) div 2"
  show ?case
  proof (cases "upper < lower")
    case True
    then show ?thesis by (subst (1 2) search_single.simps) simp
  next
    case False
    show ?thesis
    proof (cases "entry parser_trans_keys ?mid")
      case (Inl e)
      with False show ?thesis by (subst (1 2) search_single.simps) simp
    next
      case (Inr k)
      then have "(c < k \<longleftrightarrow> d < k) \<and> (c > k \<longleftrightarrow> d > k)"
        using "1.prems" entry_key by (simp add: compare_alike_def)
      then show ?thesis
        using False Inr "1.IH"(1) [OF False refl Inr _ "1.prems"] "1.IH"(2) [OF False refl Inr _ _ "1.prems"]
        by (subst (1 2) search_single.simps) (simp add: Let_def)
    qed
  qed
qed

lemma search_range_alike:
  "compare_alike c d \<Longrightarrow> search_range c lower upper = search_range d lower upper"
proof (induction c lower upper rule: search_range.induct)
  case (1 c lower upper)
  let ?half = "(upper - lower) div 2"
  let ?mid = "lower + (?half - ?half mod 2)"
  show ?case
  proof (cases "upper < lower")
    case True
    then show ?thesis by (subst (1 2) search_range.simps) simp
  next
    case False
    show ?thesis
    proof (cases "\<exists>lo hi. entry parser_trans_keys ?mid = Inr lo \<and> entry parser_trans_keys (?mid + 1) = Inr hi")
      case fault: False
      have "search_range b lower upper =
          rbind (entry parser_trans_keys ?mid) (\<lambda>lo. rbind (entry parser_trans_keys (?mid + 1)) (\<lambda>hi. Inr None))"
        for b
        using False fault by (subst search_range.simps)
          (cases "entry parser_trans_keys ?mid"; cases "entry parser_trans_keys (?mid + 1)"; simp add: Let_def)
      then show ?thesis by simp
    next
      case True
      then obtain lo hi where k: "entry parser_trans_keys ?mid = Inr lo"
        "entry parser_trans_keys (?mid + 1) = Inr hi" by blast
      then have "(c < lo \<longleftrightarrow> d < lo) \<and> (c > hi \<longleftrightarrow> d > hi)"
        using "1.prems" entry_key by (simp add: compare_alike_def)
      then show ?thesis
        using False k "1.IH"(1) [OF False refl refl k _ "1.prems"] "1.IH"(2) [OF False refl refl k _ _ "1.prems"]
        by (subst (1 2) search_range.simps) (simp add: Let_def)
    qed
  qed
qed

lemma parser_step_alike:
  assumes "compare_alike c d"
  shows "parser_step cs c = parser_step cs d"
proof -
  have "search_single c = search_single d" "search_range c = search_range d"
    by (intro ext search_single_alike search_range_alike assms)+
  then show ?thesis by (simp only: parser_step_def parser_trans_def)
qed

lemma key_set: "set parser_trans_keys = set [0, 9, 13, 32, 38, 59, 60, 62, 124]"
  by code_simp

lemma key_byte_middle:
  "list_all (\<lambda>c. key_byte c \<in> set key_bytes \<and> byte_class (key_byte c) = byte_class c \<and>
     list_all (\<lambda>k. (c < k \<longleftrightarrow> key_byte c < k) \<and> (c > k \<longleftrightarrow> key_byte c > k))
       [0, 9, 13, 32, 38, 59, 60, 62, 124]) [0..124]"
  by code_simp

lemma key_byte_cases: "key_byte c \<in> set key_bytes" "compare_alike c (key_byte c)"
    "byte_class (key_byte c) = byte_class c"
proof -
  have "key_byte c \<in> set key_bytes \<and> byte_class (key_byte c) = byte_class c \<and>
      list_all (\<lambda>k. (c < k \<longleftrightarrow> key_byte c < k) \<and> (c > k \<longleftrightarrow> key_byte c > k))
        [0, 9, 13, 32, 38, 59, 60, 62, 124]"
  proof (cases "c \<in> {0..124}")
    case True
    then show ?thesis using key_byte_middle unfolding list_all_iff set_upto by blast
  next
    case False
    then have "c < 0 \<or> 124 < c" by auto
    then show ?thesis by (elim disjE) (simp_all add: key_byte_def key_bytes_def byte_class_def)
  qed
  then show "key_byte c \<in> set key_bytes" "compare_alike c (key_byte c)"
    "byte_class (key_byte c) = byte_class c"
    unfolding compare_alike_def key_set list_all_iff by blast+
qed

lemma agree_Start: "list_all (agree Start) key_bytes"
  by code_simp

lemma agree_Text: "list_all (agree Text) key_bytes"
  by code_simp

lemma agree_Amp: "list_all (agree Amp) key_bytes"
  by code_simp

lemma agree_Sep: "list_all (agree Sep) key_bytes"
  by code_simp

lemma agree_Sep_Space: "list_all (agree Sep_Space) key_bytes"
  by code_simp

lemma agree_Lt: "list_all (agree Lt) key_bytes"
  by code_simp

lemma agree_In: "list_all (agree In) key_bytes"
  by code_simp

lemma agree_In_Gt: "list_all (agree In_Gt) key_bytes"
  by code_simp

lemma agree_In_Out: "list_all (agree In_Out) key_bytes"
  by code_simp

lemma agree_Gt: "list_all (agree Gt) key_bytes"
  by code_simp

lemma agree_Out: "list_all (agree Out) key_bytes"
  by code_simp

lemma agree_Out_Lt: "list_all (agree Out_Lt) key_bytes"
  by code_simp

lemma agree_Out_In: "list_all (agree Out_In) key_bytes"
  by code_simp

lemma agree_Blank: "list_all (agree Blank) key_bytes"
  by code_simp

lemma agree_Done: "list_all (agree Done) key_bytes"
  by code_simp

lemma agree_everywhere: "s \<noteq> Failed \<Longrightarrow> list_all (agree s) key_bytes"
  using agree_Start agree_Text agree_Amp agree_Sep agree_Sep_Space agree_Lt agree_In agree_In_Gt
    agree_In_Out agree_Gt agree_Out agree_Out_Lt agree_Out_In agree_Blank agree_Done
  by (cases s) simp_all

lemma parser_step_delta:
  assumes "parser_delta s (char_class c) = (t, as)" "s \<noteq> Failed"
  shows "parser_step (state_code s) (schar c) = Inr (state_code t, map action_code as)"
proof -
  let ?k = "key_byte (schar c)"
  have "agree s ?k"
    using agree_everywhere [OF assms(2)] key_byte_cases(1) by (simp only: list_all_iff)
  moreover have "parser_step (state_code s) (schar c) = parser_step (state_code s) ?k"
    by (rule parser_step_alike) (rule key_byte_cases(2))
  ultimately show ?thesis
    using assms(1) by (auto simp: agree_def char_class_def key_byte_cases(3) split: sum.splits)
qed

lemma state_code_inj [simp]: "state_code s = state_code t \<longleftrightarrow> s = t"
  by (cases s; cases t) simp_all

text \<open>C14. In every state the parser can run in and on every byte, the tables generated by Ragel
  and the two binary searches over them (signed bytes above 127 included) take the transition,
  and run the actions, of the automaton written by hand; no access leaves a table.\<close>

theorem parser_tables_automaton:
  assumes "s \<noteq> Failed"
  shows "parser_step (state_code s) (schar c) =
    Inr (state_code (fst (parser_delta s (char_class c))),
         map action_code (snd (parser_delta s (char_class c))))"
  using assms by (intro parser_step_delta) simp_all

theorem parser_tables_automaton_witness:
  "parser_step 4 (schar (CHR ''a'')) = Inr (2, [4, 3, 0])"
proof -
  have "char_class (CHR ''a'') = Other" by code_simp
  with parser_tables_automaton [of Sep "CHR ''a''"] show ?thesis by (simp add: parser_delta_def)
qed

end
