(* ===== verification/Parser.thy ===== *)
theory Parser
  imports Parser_Tables Helper Queue
begin

text \<open>
  parser.c: from an input line to a queue of commands. \<open>params\<close> is the struct of the generated
  automaton with its three arrays of \<open>BUFSIZE + 1\<close> bytes; \<open>parse_state\<close> adds the queue, the
  command being built, the heaps of commands and queue nodes, the aliases (with the heap strings
  and the allocation outcomes) and what was written to stderr. \<open>exec\<close> is the loop over the
  input: table lookup, actions, next byte; \<open>fbreak\<close> is the flag an action returns.
\<close>

section \<open>Data\<close>

record params =
  buffer :: string
  fsm_stdin :: string
  fsm_stdout :: string
  buflen :: int
  stdin_len :: int
  stdout_len :: int
  cs :: int

record parse_state =
  fsm :: params
  queue :: "queue_t option"
  nodes :: "(ptr, command_heap) nodes"
  command :: ptr
  commands :: "command_t cells"
  aliases :: alias_state
  messages :: string

section \<open>Actions\<close>

definition put_byte :: "string \<Rightarrow> int \<Rightarrow> char \<Rightarrow> fault + string" where
  "put_byte arr i c =
     (if 0 \<le> i \<and> i < int (length arr) then Inr (arr[nat i := c]) else Inl OutOfBounds)"

definition push_byte :: "string \<Rightarrow> int \<Rightarrow> char \<Rightarrow> fault + (string \<times> int)" where
  "push_byte arr len c =
     (if len < int BUFSIZE
      then rbind (put_byte arr len c) (\<lambda>arr1.
           rbind (put_byte arr1 (len + 1) NUL) (\<lambda>arr2. Inr (arr2, len + 1)))
      else Inr (arr, len))"

definition do_append :: "char \<Rightarrow> params \<Rightarrow> fault + params" where
  "do_append c f =
     rbind (push_byte (buffer f) (buflen f) c) (\<lambda>(b, n). Inr (f\<lparr>buffer := b, buflen := n\<rparr>))"

definition do_append_in :: "char \<Rightarrow> params \<Rightarrow> fault + params" where
  "do_append_in c f =
     rbind (push_byte (fsm_stdin f) (stdin_len f) c)
       (\<lambda>(b, n). Inr (f\<lparr>fsm_stdin := b, stdin_len := n\<rparr>))"

definition do_append_out :: "char \<Rightarrow> params \<Rightarrow> fault + params" where
  "do_append_out c f =
     rbind (push_byte (fsm_stdout f) (stdout_len f) c)
       (\<lambda>(b, n). Inr (f\<lparr>fsm_stdout := b, stdout_len := n\<rparr>))"

definition set_fsm :: "parse_state \<Rightarrow> fault + params \<Rightarrow> fault + (bool \<times> parse_state)" where
  "set_fsm st r = rbind r (\<lambda>f. Inr (False, st\<lparr>fsm := f\<rparr>))"

definition do_new :: "parse_state \<Rightarrow> fault + (bool \<times> parse_state)" where
  "do_new st =
     (let f = fsm st in
      rbind (put_byte (buffer f) 0 NUL) (\<lambda>b.
      rbind (put_byte (fsm_stdout f) 0 NUL) (\<lambda>out.
      rbind (put_byte (fsm_stdin f) 0 NUL) (\<lambda>inp.
        let (c, oom, cmds) = commandNew (al_oom (aliases st)) (commands st) in
        Inr (False,
             st\<lparr>fsm := f\<lparr>buflen := 0, stdin_len := 0, stdout_len := 0,
                        buffer := b, fsm_stdout := out, fsm_stdin := inp\<rparr>,
                command := c, commands := cmds, aliases := (aliases st)\<lparr>al_oom := oom\<rparr>\<rparr>)))))"

definition first_arg :: "command_t \<Rightarrow> fault + string option" where
  "first_arg c =
     (case argv c of
        None \<Rightarrow> Inl NullPointer
      | Some args \<Rightarrow> (case args of [] \<Rightarrow> Inl OutOfBounds | a # _ \<Rightarrow> Inr a))"

definition illegal_message :: string where
  "illegal_message = ''Illegal character found, aborting. Blame wordexp.'' @ [CHR 0x0A]"

text \<open>The part of \<open>term\<close> after a successful expansion: path, redirections, queue.\<close>

definition finish_command ::
    "(string \<Rightarrow> string list option) \<Rightarrow> parse_state \<Rightarrow> fault + (bool \<times> parse_state)" where
  "finish_command wordexp st =
     rbind (load (commands st) (command st)) (\<lambda>c.
     rbind (first_arg c) (\<lambda>arg.
     let al = aliases st;
         (from, oom1, strings1) =
           (if stdin_len (fsm st) > 0 then expand wordexp (cstr (fsm_stdin (fsm st))) (al_oom al) (al_strings al)
            else (redirectFromPath c, al_oom al, al_strings al));
         (to, oom2, strings2) =
           (if stdout_len (fsm st) > 0 then expand wordexp (cstr (fsm_stdout (fsm st))) oom1 strings1
            else (redirectToPath c, oom1, strings1))
     in
     rbind (store (commands st) (command st)
             (c\<lparr>path := arg, redirectFromPath := from, redirectToPath := to\<rparr>)) (\<lambda>cmds.
     rbind (queueInsert (queue st) (command st) commandFree oom2 (nodes st)) (\<lambda>(q, oom3, ns).
       Inr (False, st\<lparr>queue := Some q, nodes := ns, command := None, commands := cmds,
                      aliases := al\<lparr>al_oom := oom3, al_strings := strings2\<rparr>\<rparr>)))))"

definition do_term ::
    "(string \<Rightarrow> string list option) \<Rightarrow> parse_state \<Rightarrow> fault + (bool \<times> parse_state)" where
  "do_term wordexp st =
     (if buflen (fsm st) > 0
      then
        rbind (expandAlias (buffer (fsm st)) (aliases st)) (\<lambda>(tmp, al).
        rbind (expandGlob wordexp (command st) tmp (al_oom al) (commands st, al_strings al))
          (\<lambda>(r, oom, cmds, strings).
        rbind (str_free tmp strings) (\<lambda>strings1.
          let st1 = st\<lparr>commands := cmds, aliases := al\<lparr>al_oom := oom, al_strings := strings1\<rparr>\<rparr> in
          if r \<noteq> 0 then Inr (True, st1\<lparr>messages := messages st1 @ illegal_message\<rparr>)
          else finish_command wordexp st1)))
      else Inr (False, st))"

definition connect :: "(connection \<Rightarrow> connection) \<Rightarrow> parse_state \<Rightarrow> fault + (bool \<times> parse_state)" where
  "connect f st =
     rbind (load (commands st) (command st)) (\<lambda>c.
     rbind (store (commands st) (command st) (c\<lparr>connectionMask := f (connectionMask c)\<rparr>)) (\<lambda>cmds.
       Inr (False, st\<lparr>commands := cmds\<rparr>)))"

definition make_sequential :: "connection \<Rightarrow> connection" where
  "make_sequential m =
     (if m \<noteq> commandConnectionBackground then commandConnectionSequential else m)"

text \<open>The \<open>switch\<close> over the action numbers of the tables.\<close>

definition run_action ::
    "(string \<Rightarrow> string list option) \<Rightarrow> char \<Rightarrow> int \<Rightarrow> parse_state \<Rightarrow> fault + (bool \<times> parse_state)" where
  "run_action wordexp c a st =
     (if a = 0 then set_fsm st (do_append c (fsm st))
      else if a = 1 then set_fsm st (do_append_in c (fsm st))
      else if a = 2 then set_fsm st (do_append_out c (fsm st))
      else if a = 3 then do_new st
      else if a = 4 then do_term wordexp st
      else if a = 5 then connect (\<lambda>_. commandConnectionPipe) st
      else if a = 6 then connect (\<lambda>_. commandConnectionBackground) st
      else if a = 7 then connect make_sequential st
      else Inr (False, st))"

fun run_actions ::
    "(string \<Rightarrow> string list option) \<Rightarrow> char \<Rightarrow> int list \<Rightarrow> parse_state \<Rightarrow>
     fault + (bool \<times> parse_state)" where
  "run_actions wordexp c [] st = Inr (False, st)"
| "run_actions wordexp c (a # as) st =
     rbind (run_action wordexp c a st) (\<lambda>(brk, st1).
       if brk then Inr (True, st1) else run_actions wordexp c as st1)"

section \<open>The loop and parseInput\<close>

text \<open>\<open>p\<close> is the position of the first of the remaining bytes.\<close>

fun exec ::
    "(string \<Rightarrow> string list option) \<Rightarrow> string \<Rightarrow> nat \<Rightarrow> parse_state \<Rightarrow> fault + (nat \<times> parse_state)" where
  "exec wordexp [] p st = Inr (p, st)"
| "exec wordexp (c # rest) p st =
     rbind (parser_step (cs (fsm st)) (schar c)) (\<lambda>(target, as).
     rbind (run_actions wordexp c as (st\<lparr>fsm := (fsm st)\<lparr>cs := target\<rparr>\<rparr>)) (\<lambda>(brk, st1).
       if brk then Inr (Suc p, st1)
       else if cs (fsm st1) = 0 then Inr (p, st1)
       else exec wordexp rest (Suc p) st1))"

definition byte_at :: "string \<Rightarrow> int \<Rightarrow> fault + char" where
  "byte_at s i = (if 0 \<le> i \<and> i < int (length s) then Inr (s ! nat i) else Inl OutOfBounds)"

definition error_message :: "char \<Rightarrow> char \<Rightarrow> string" where
  "error_message a b = ''Parser error near `'' @ [a, b, CHR 0x27, CHR 0x0A]"

definition report_error :: "string \<Rightarrow> nat \<Rightarrow> parse_state \<Rightarrow> fault + parse_state" where
  "report_error inp p st =
     rbind (byte_at inp (int p - 1)) (\<lambda>a.
     rbind (byte_at inp (int p)) (\<lambda>b.
     rbind (queueFree (queue st) (nodes st) (commands st, al_strings (aliases st)))
       (\<lambda>(ns, cmds, strings).
         let (q, oom) = queueNew (al_oom (aliases st)) in
         Inr (st\<lparr>messages := messages st @ error_message a b, queue := q, nodes := ns,
                 commands := cmds, aliases := (aliases st)\<lparr>al_oom := oom, al_strings := strings\<rparr>\<rparr>))))"

definition drop_command :: "parse_state \<Rightarrow> fault + parse_state" where
  "drop_command st =
     (if command st \<noteq> None
      then rbind (release (commands st) (command st)) (\<lambda>cmds. Inr (st\<lparr>commands := cmds\<rparr>))
      else Inr st)"

definition start_state :: "params \<Rightarrow> parse_state \<Rightarrow> fault + parse_state" where
  "start_state junk st =
     (let (ok, oom1) = alloc_ok (al_oom (aliases st));
          (q, oom2) = queueNew oom1
      in if \<not> ok then Inl NullPointer
         else Inr (st\<lparr>fsm := junk\<lparr>buflen := 0, cs := parser_start\<rparr>, queue := q, command := None,
                      aliases := (aliases st)\<lparr>al_oom := oom2\<rparr>\<rparr>))"

text \<open>\<open>junk\<close> is what the block of \<open>struct params\<close> holds after \<open>malloc\<close>.\<close>

definition parseInput ::
    "(string \<Rightarrow> string list option) \<Rightarrow> string \<Rightarrow> params \<Rightarrow> parse_state \<Rightarrow> fault + parse_state" where
  "parseInput wordexp input junk st =
     (let inp = cstr input @ [NUL] in
      rbind (start_state junk st) (\<lambda>st0.
      rbind (exec wordexp inp 0 st0) (\<lambda>(p, st1).
      rbind (if cs (fsm st1) = parser_error then report_error inp p st1 else Inr st1) drop_command)))"

end
