(* ===== verification/Line_Grammar.thy ===== *)
theory Line_Grammar
  imports Parser_Tables Helper
begin

text \<open>
  The lines that parser.rl accepts, without heaps: a line is read into the list of its commands
  (text, redirections and connection), byte by byte along the automaton. \<open>print_line\<close> writes
  such a list back. The theorems say that reading what was printed gives the list again, and
  that whatever is read is a well-formed line.
\<close>

section \<open>Reading a line\<close>

record raw_command =
  raw_text :: string
  raw_in :: string
  raw_out :: string
  raw_conn :: connection

definition blank_raw :: raw_command where
  "blank_raw = \<lparr>raw_text = [], raw_in = [], raw_out = [], raw_conn = commandConnectionNone\<rparr>"

definition push :: "string \<Rightarrow> char \<Rightarrow> string" where
  "push s c = (if length s < BUFSIZE then s @ [c] else s)"

fun scan_act ::
    "char \<Rightarrow> action \<Rightarrow> raw_command \<times> raw_command list \<Rightarrow> raw_command \<times> raw_command list" where
  "scan_act c Append (r, out) = (r\<lparr>raw_text := push (raw_text r) c\<rparr>, out)"
| "scan_act c Append_In (r, out) = (r\<lparr>raw_in := push (raw_in r) c\<rparr>, out)"
| "scan_act c Append_Out (r, out) = (r\<lparr>raw_out := push (raw_out r) c\<rparr>, out)"
| "scan_act c New (r, out) = (blank_raw, out)"
| "scan_act c Term (r, out) = (r, if raw_text r \<noteq> [] then out @ [r] else out)"
| "scan_act c Pipe (r, out) = (r\<lparr>raw_conn := commandConnectionPipe\<rparr>, out)"
| "scan_act c Bg (r, out) = (r\<lparr>raw_conn := commandConnectionBackground\<rparr>, out)"
| "scan_act c Seq (r, out) =
     (r\<lparr>raw_conn := (if raw_conn r \<noteq> commandConnectionBackground
                      then commandConnectionSequential else raw_conn r)\<rparr>, out)"

fun scan ::
    "lex_state \<Rightarrow> string \<Rightarrow> nat \<Rightarrow> raw_command \<times> raw_command list \<Rightarrow>
     lex_state \<times> nat \<times> raw_command \<times> raw_command list" where
  "scan s [] p x = (s, p, x)"
| "scan s (c # rest) p x =
     (let (t, as) = parser_delta s (char_class c); x' = fold (scan_act c) as x
      in if t = Failed then (Failed, p, x') else scan t rest (Suc p) x')"

text \<open>The commands of a line, or the position of its first wrong byte.\<close>

definition parse_line :: "string \<Rightarrow> nat + raw_command list" where
  "parse_line line =
     (case scan Start (line @ [NUL]) 0 (blank_raw, []) of
        (s, p, r, out) \<Rightarrow> if s = Failed then Inl p else Inr out)"

section \<open>Well-formed lines and printing\<close>

definition plain :: "char \<Rightarrow> bool" where
  "plain c \<longleftrightarrow> char_class c = Other \<or> char_class c = Space"

definition word_text :: "string \<Rightarrow> bool" where
  "word_text s \<longleftrightarrow>
     s \<noteq> [] \<and> char_class (hd s) = Other \<and> list_all plain s \<and> length s \<le> BUFSIZE"

definition wf_raw :: "raw_command \<Rightarrow> bool" where
  "wf_raw r \<longleftrightarrow>
     word_text (raw_text r) \<and> (raw_in r = [] \<or> word_text (raw_in r)) \<and>
     (raw_out r = [] \<or> word_text (raw_out r))"

fun wf_line :: "raw_command list \<Rightarrow> bool" where
  "wf_line [] \<longleftrightarrow> True"
| "wf_line [r] \<longleftrightarrow>
     wf_raw r \<and> (raw_conn r = commandConnectionNone \<or> raw_conn r = commandConnectionBackground)"
| "wf_line (r # rs) \<longleftrightarrow> wf_raw r \<and> raw_conn r \<noteq> commandConnectionNone \<and> wf_line rs"

definition print_raw :: "raw_command \<Rightarrow> string" where
  "print_raw r =
     raw_text r @ (if raw_in r = [] then [] else CHR ''<'' # raw_in r) @
     (if raw_out r = [] then [] else CHR ''>'' # raw_out r) @
     (if raw_conn r = commandConnectionBackground then ''&'' else [])"

fun print_line :: "raw_command list \<Rightarrow> string" where
  "print_line [] = []"
| "print_line [r] = print_raw r"
| "print_line (r # rs) =
     print_raw r @ (if raw_conn r = commandConnectionPipe then ''|'' else '';'') @ print_line rs"

section \<open>Reading what was printed\<close>

lemma class_consts [simp]:
  "char_class NUL = Nul" "char_class (CHR ''|'') = Bar" "char_class (CHR ''&'') = Ampersand"
  "char_class (CHR '';'') = Semicolon" "char_class (CHR ''<'') = Less" "char_class (CHR ''>'') = Greater"
  by code_simp+

lemma delta_text [simp]:
  "plain c \<Longrightarrow> parser_delta Text (char_class c) = (Text, [Append])"
  "plain c \<Longrightarrow> parser_delta In (char_class c) = (In, [Append_In])"
  "plain c \<Longrightarrow> parser_delta In_Out (char_class c) = (In_Out, [Append_Out])"
  "plain c \<Longrightarrow> parser_delta Out (char_class c) = (Out, [Append_Out])"
  by (auto simp: plain_def parser_delta_def)

lemma scan_text:
  "list_all plain s \<Longrightarrow> length (raw_text r @ s) \<le> BUFSIZE \<Longrightarrow>
   scan Text (s @ rest) p (r, out) = scan Text rest (p + length s) (r\<lparr>raw_text := raw_text r @ s\<rparr>, out)"
  by (induction s arbitrary: p r) (auto simp: push_def)

lemma scan_in:
  "list_all plain s \<Longrightarrow> length (raw_in r @ s) \<le> BUFSIZE \<Longrightarrow>
   scan In (s @ rest) p (r, out) = scan In rest (p + length s) (r\<lparr>raw_in := raw_in r @ s\<rparr>, out)"
  by (induction s arbitrary: p r) (auto simp: push_def)

lemma scan_out:
  "list_all plain s \<Longrightarrow> length (raw_out r @ s) \<le> BUFSIZE \<Longrightarrow> t = Out \<or> t = In_Out \<Longrightarrow>
   scan t (s @ rest) p (r, out) = scan t rest (p + length s) (r\<lparr>raw_out := raw_out r @ s\<rparr>, out)"
  by (induction s arbitrary: p r) (auto simp: push_def)

lemma word_textE:
  assumes "word_text s"
  obtains c t where "s = c # t" "char_class c = Other" "list_all plain t" "Suc (length t) \<le> BUFSIZE"
  using assms by (cases s) (auto simp: word_text_def)

lemma BUFSIZE_pos [simp]: "0 < BUFSIZE"
  by (simp add: BUFSIZE_def)

text \<open>From the start of a command, its text; \<open>emitted\<close> is what the separator emits.\<close>

definition emitted :: "lex_state \<Rightarrow> raw_command \<times> raw_command list \<Rightarrow> raw_command list" where
  "emitted s x = (if s = Sep then snd (scan_act NUL Term x) else snd x)"

lemma scan_command_text:
  assumes "word_text w" "s = Start \<or> s = Sep"
  shows "\<exists>q. scan s (w @ rest) p x = scan Text rest q (blank_raw\<lparr>raw_text := w\<rparr>, emitted s x)"
proof -
  obtain c t where w: "w = c # t" "char_class c = Other" "list_all plain t" "Suc (length t) \<le> BUFSIZE"
    using assms(1) by (rule word_textE)
  show ?thesis
    using assms(2) w scan_text [OF w(3), of "blank_raw\<lparr>raw_text := [c]\<rparr>"]
    by (cases x) (auto simp: parser_delta_def emitted_def push_def blank_raw_def)
qed

lemma scan_command_in:
  assumes "word_text w" "raw_in r = []"
  shows "\<exists>q. scan Text (CHR ''<'' # w @ rest) p (r, out) = scan In rest q (r\<lparr>raw_in := w\<rparr>, out)"
proof -
  obtain c t where w: "w = c # t" "char_class c = Other" "list_all plain t" "Suc (length t) \<le> BUFSIZE"
    using assms(1) by (rule word_textE)
  show ?thesis
    using w assms(2) scan_in [OF w(3), of "r\<lparr>raw_in := [c]\<rparr>"]
    by (auto simp: parser_delta_def push_def)
qed

lemma scan_command_out:
  assumes "word_text w" "raw_out r = []" "s = Text \<and> t = Out \<or> s = In \<and> t = In_Out"
  shows "\<exists>q. scan s (CHR ''>'' # w @ rest) p (r, out) = scan t rest q (r\<lparr>raw_out := w\<rparr>, out)"
proof -
  obtain c u where w: "w = c # u" "char_class c = Other" "list_all plain u" "Suc (length u) \<le> BUFSIZE"
    using assms(1) by (rule word_textE)
  show ?thesis
    using w assms(2,3) scan_out [OF w(3), of "r\<lparr>raw_out := [c]\<rparr>"]
    by (auto simp: parser_delta_def push_def)
qed

definition ready :: "lex_state \<Rightarrow> bool" where
  "ready s \<longleftrightarrow> s = Text \<or> s = In \<or> s = In_Out \<or> s = Out"

text \<open>The whole command up to its connection.\<close>

lemma scan_body:
  assumes "wf_raw r" "s = Start \<or> s = Sep"
  shows "\<exists>t q. ready t \<and>
    scan s (raw_text r @ (if raw_in r = [] then [] else CHR ''<'' # raw_in r) @
        (if raw_out r = [] then [] else CHR ''>'' # raw_out r) @ rest) p x =
      scan t rest q (r\<lparr>raw_conn := commandConnectionNone\<rparr>, emitted s x)"
proof -
  let ?r1 = "blank_raw\<lparr>raw_text := raw_text r\<rparr>"
  let ?r2 = "?r1\<lparr>raw_in := raw_in r\<rparr>"
  let ?out = "(if raw_out r = [] then [] else CHR ''>'' # raw_out r) @ rest"
  have wf: "word_text (raw_text r)" "raw_in r = [] \<or> word_text (raw_in r)"
    "raw_out r = [] \<or> word_text (raw_out r)"
    using assms(1) by (auto simp: wf_raw_def)
  obtain q1 where one: "scan s (raw_text r @ (if raw_in r = [] then [] else CHR ''<'' # raw_in r) @ ?out) p x =
      scan Text ((if raw_in r = [] then [] else CHR ''<'' # raw_in r) @ ?out) q1 (?r1, emitted s x)"
    using scan_command_text [OF wf(1) assms(2)] by blast
  have "\<exists>t q2. (t = Text \<or> t = In) \<and>
      scan Text ((if raw_in r = [] then [] else CHR ''<'' # raw_in r) @ ?out) q1 (?r1, emitted s x) =
      scan t ?out q2 (?r2, emitted s x)"
  proof (cases "raw_in r = []")
    case True
    then have "?r2 = ?r1" by (simp add: blank_raw_def)
    with True show ?thesis by auto
  next
    case False
    then have w: "word_text (raw_in r)" using wf(2) by simp
    have "raw_in ?r1 = []" by (simp add: blank_raw_def)
    from scan_command_in [OF w this, of ?out q1 "emitted s x"] obtain q2 where
      "scan Text (CHR ''<'' # raw_in r @ ?out) q1 (?r1, emitted s x) = scan In ?out q2 (?r2, emitted s x)"
      by blast
    then show ?thesis using False by (intro exI [of _ In] exI [of _ q2]) (simp del: scan.simps)
  qed
  then obtain t q2 where two: "t = Text \<or> t = In"
    "scan Text ((if raw_in r = [] then [] else CHR ''<'' # raw_in r) @ ?out) q1 (?r1, emitted s x) =
      scan t ?out q2 (?r2, emitted s x)" by blast
  have r: "?r2\<lparr>raw_out := raw_out r\<rparr> = r\<lparr>raw_conn := commandConnectionNone\<rparr>"
    by (cases r) (simp add: blank_raw_def)
  have "\<exists>t' q3. ready t' \<and> scan t ?out q2 (?r2, emitted s x) =
      scan t' rest q3 (r\<lparr>raw_conn := commandConnectionNone\<rparr>, emitted s x)"
  proof (cases "raw_out r = []")
    case True
    then have "?r2 = r\<lparr>raw_conn := commandConnectionNone\<rparr>" using r by (cases r) (simp add: blank_raw_def)
    with True two(1) show ?thesis by (auto simp: ready_def)
  next
    case False
    then have w: "word_text (raw_out r)" using wf(3) by simp
    have blank: "raw_out ?r2 = []" by (simp add: blank_raw_def)
    from two(1) have "t = Text \<and> Out = Out \<or> t = In \<and> In_Out = In_Out" by simp
    then obtain t' where "t = Text \<and> t' = Out \<or> t = In \<and> t' = In_Out" "ready t'"
      using two(1) by (auto simp: ready_def)
    from scan_command_out [OF w blank this(1), of rest q2 "emitted s x"] this(2) False r
    show ?thesis by (auto simp del: raw_command.update_convs)
  qed
  with one two(2) show ?thesis by auto
qed


text \<open>What may follow a command.\<close>

lemma scan_end:
  assumes "ready t"
  shows "scan t [NUL] p (r, out) = (Done, Suc p, scan_act NUL Term (r, out))"
    "scan t (''|'' @ rest) p (r, out) = scan Sep rest (Suc p) (r\<lparr>raw_conn := commandConnectionPipe\<rparr>, out)"
    "raw_conn r = commandConnectionNone \<Longrightarrow> scan t ('';'' @ rest) p (r, out) =
      scan Sep rest (Suc p) (r\<lparr>raw_conn := commandConnectionSequential\<rparr>, out)"
    "scan t (''&'' @ [NUL]) p (r, out) =
      (Done, Suc (Suc p), scan_act NUL Term (r\<lparr>raw_conn := commandConnectionBackground\<rparr>, out))"
    "scan t (''&'' @ '';'' @ rest) p (r, out) =
      scan Sep rest (Suc (Suc p)) (r\<lparr>raw_conn := commandConnectionBackground\<rparr>, out)"
  using assms by (auto simp: ready_def parser_delta_def)

lemma emitted_Sep: "raw_text r \<noteq> [] \<Longrightarrow> emitted Sep (r, out) = out @ [r]"
  by (simp add: emitted_def)

lemma scan_print_line:
  assumes "wf_line rs" "rs \<noteq> []" "s = Start \<or> s = Sep"
  shows "\<exists>q r. scan s (print_line rs @ [NUL]) p x = (Done, q, r, emitted s x @ rs)"
  using assms
proof (induction rs arbitrary: s p x rule: print_line.induct)
  case 1
  then show ?case by simp
next
  case (2 r)
  then have r: "wf_raw r" "raw_conn r = commandConnectionNone \<or> raw_conn r = commandConnectionBackground"
    by auto
  let ?stop = "(if raw_conn r = commandConnectionBackground then ''&'' else []) @ [NUL]"
  obtain t q where t: "ready t" "scan s (print_line [r] @ [NUL]) p x =
      scan t ?stop q (r\<lparr>raw_conn := commandConnectionNone\<rparr>, emitted s x)"
    using scan_body [OF r(1) 2(3), of ?stop p x] by (auto simp: print_raw_def simp del: scan.simps)
  have nonempty: "raw_text r \<noteq> []" using r(1) by (auto simp: wf_raw_def word_text_def)
  from r(2) show ?case
  proof
    assume n: "raw_conn r = commandConnectionNone"
    then have "r\<lparr>raw_conn := commandConnectionNone\<rparr> = r" by (cases r) simp
    then show ?thesis unfolding t(2) using n nonempty scan_end(1) [OF t(1)] by (simp del: scan.simps)
  next
    assume bg: "raw_conn r = commandConnectionBackground"
    then have "r\<lparr>raw_conn := commandConnectionBackground\<rparr> = r" by (cases r) simp
    then show ?thesis unfolding t(2) using bg nonempty scan_end(4) [OF t(1)] by (simp del: scan.simps)
  qed
next
  case (3 r r' rs)
  then have r: "wf_raw r" "raw_conn r \<noteq> commandConnectionNone" "wf_line (r' # rs)" by auto
  let ?line = "print_line (r' # rs) @ [NUL]"
  let ?stop = "(if raw_conn r = commandConnectionBackground then ''&'' else []) @
      (if raw_conn r = commandConnectionPipe then ''|'' else '';'') @ ?line"
  obtain t q where t: "ready t" "scan s (print_line (r # r' # rs) @ [NUL]) p x =
      scan t ?stop q (r\<lparr>raw_conn := commandConnectionNone\<rparr>, emitted s x)"
    using scan_body [OF r(1) 3(4), of ?stop p x]
    by (auto simp: print_raw_def simp del: scan.simps split del: if_split)
  have nonempty: "raw_text r \<noteq> []" using r(1) by (auto simp: wf_raw_def word_text_def)
  have conn: "r\<lparr>raw_conn := c\<rparr> = r" if "raw_conn r = c" for c using that by (cases r) simp
  have "\<exists>q'. scan t ?stop q (r\<lparr>raw_conn := commandConnectionNone\<rparr>, emitted s x) =
      scan Sep ?line q' (r, emitted s x)"
    using r(2) scan_end [OF t(1)]
    by (cases "raw_conn r") (auto simp: conn simp del: scan.simps)
  then obtain q' where "scan s (print_line (r # r' # rs) @ [NUL]) p x = scan Sep ?line q' (r, emitted s x)"
    using t(2) by auto
  with 3(1) [OF r(3), of Sep q' "(r, emitted s x)"] emitted_Sep [OF nonempty] show ?case
    by (auto simp del: scan.simps)
qed

section \<open>What is read is well-formed\<close>

definition before_sep :: "raw_command list \<Rightarrow> bool" where
  "before_sep out \<longleftrightarrow> (\<forall>x \<in> set out. wf_raw x \<and> raw_conn x \<noteq> commandConnectionNone)"

lemma wf_line_snoc:
  "before_sep out \<Longrightarrow> wf_raw r \<Longrightarrow>
   raw_conn r = commandConnectionNone \<or> raw_conn r = commandConnectionBackground \<Longrightarrow> wf_line (out @ [r])"
  by (induction out rule: wf_line.induct) (auto simp: before_sep_def)

text \<open>What each state knows about the command it is reading.\<close>

definition reading :: "lex_state \<Rightarrow> raw_command \<Rightarrow> bool" where
  "reading s r \<longleftrightarrow>
     (if s = Start \<or> s = Blank \<or> s = Sep_Space then r = blank_raw
      else if s = Text \<or> s = Lt \<or> s = Gt
        then word_text (raw_text r) \<and> raw_in r = [] \<and> raw_out r = [] \<and> raw_conn r = commandConnectionNone
      else if s = In \<or> s = In_Gt
        then word_text (raw_text r) \<and> word_text (raw_in r) \<and> raw_out r = [] \<and> raw_conn r = commandConnectionNone
      else if s = Out \<or> s = Out_Lt
        then word_text (raw_text r) \<and> raw_in r = [] \<and> word_text (raw_out r) \<and> raw_conn r = commandConnectionNone
      else if s = In_Out \<or> s = Out_In then wf_raw r \<and> raw_in r \<noteq> [] \<and> raw_out r \<noteq> [] \<and> raw_conn r = commandConnectionNone
      else if s = Amp then wf_raw r \<and> raw_conn r = commandConnectionBackground
      else if s = Sep then wf_raw r \<and> raw_conn r \<noteq> commandConnectionNone
      else True)"

definition reading_line :: "lex_state \<Rightarrow> raw_command \<times> raw_command list \<Rightarrow> bool" where
  "reading_line s x \<longleftrightarrow>
     (if s = Done then wf_line (snd x)
      else s \<noteq> Failed \<longrightarrow> reading s (fst x) \<and> before_sep (snd x) \<and>
        (s = Start \<or> s = Blank \<longrightarrow> snd x = []))"

lemma word_text_push: "word_text s \<Longrightarrow> plain c \<Longrightarrow> word_text (push s c)"
  by (auto simp: word_text_def push_def)

lemma word_text_one: "char_class c = Other \<Longrightarrow> word_text (push [] c)"
  by (simp add: word_text_def push_def plain_def Suc_leI)

lemma word_text_nonempty: "\<not> word_text []"
  by (simp add: word_text_def)

lemma push_nonempty: "push s c = [] \<longleftrightarrow> False"
  using BUFSIZE_pos by (auto simp: push_def)

lemma before_sep_simps [simp]:
  "before_sep []"
  "before_sep (out @ [r]) \<longleftrightarrow> before_sep out \<and> wf_raw r \<and> raw_conn r \<noteq> commandConnectionNone"
  by (auto simp: before_sep_def)

lemma blank_raw_sel [simp]:
  "raw_text blank_raw = []" "raw_in blank_raw = []" "raw_out blank_raw = []"
  "raw_conn blank_raw = commandConnectionNone"
  by (simp_all add: blank_raw_def)

lemma wf_raw_nonempty: "wf_raw r \<Longrightarrow> raw_text r \<noteq> []"
  by (auto simp: wf_raw_def word_text_nonempty)

lemma reading_step:
  assumes "reading_line s x" "parser_delta s (char_class c) = (t, as)"
  shows "reading_line t (fold (scan_act c) as x)"
proof -
  obtain r out where x: "x = (r, out)" by fastforce
  show ?thesis
    using assms(1) assms(2) [symmetric] unfolding x
    by (cases s; cases "char_class c";
        clarsimp simp: parser_delta_def reading_line_def reading_def wf_raw_def plain_def
          word_text_push word_text_one word_text_nonempty push_nonempty wf_line_snoc)
qed


lemma reading_scan:
  "reading_line s x \<Longrightarrow> scan s cs p x = (t, q, y) \<Longrightarrow> reading_line t y"
proof (induction s cs p x rule: scan.induct)
  case (1 s p x)
  then show ?case by simp
next
  case (2 s c rest p x)
  obtain u as where d: "parser_delta s (char_class c) = (u, as)" by fastforce
  have step: "reading_line u (fold (scan_act c) as x)"
    using "2.prems"(1) d by (rule reading_step)
  show ?case
  proof (cases "u = Failed")
    case True
    with "2.prems"(2) d have "t = Failed" by auto
    then show ?thesis by (simp add: reading_line_def)
  next
    case False
    with "2.prems"(2) d have "scan u rest (Suc p) (fold (scan_act c) as x) = (t, q, y)" by simp
    with "2.IH" [OF d [symmetric] refl refl False step] show ?thesis by simp
  qed
qed

text \<open>A line always ends in \<open>Done\<close> or \<open>Failed\<close>: the terminating NUL leaves no third choice.\<close>

lemma scan_ends:
  "scan s (line @ [NUL]) p x = (t, q, y) \<Longrightarrow> t = Done \<or> t = Failed"
proof (induction line arbitrary: s p x)
  case Nil
  then show ?case by (cases s) (auto simp: parser_delta_def split: if_splits)
next
  case (Cons c line)
  obtain u as where "parser_delta s (char_class c) = (u, as)" by fastforce
  with Cons show ?case by (cases "u = Failed") auto
qed

section \<open>Round trip and well-formedness\<close>

text \<open>Round trip: printing a well-formed list of commands (texts, redirections, pipes,
  semicolons and background marks) and reading the line gives the list back.\<close>

theorem parse_print_line:
  assumes "wf_line rs"
  shows "parse_line (print_line rs) = Inr rs"
proof (cases "rs = []")
  case True
  then show ?thesis by (simp add: parse_line_def parser_delta_def)
next
  case False
  from scan_print_line [OF assms this, of Start 0 "(blank_raw, [])"] show ?thesis
    by (auto simp: parse_line_def emitted_def simp del: scan.simps)
qed

theorem parse_print_line_witness:
  "parse_line ''ls -l>out|wc<in&;pwd'' =
    Inr [\<lparr>raw_text = ''ls -l'', raw_in = [], raw_out = ''out'', raw_conn = commandConnectionPipe\<rparr>,
         \<lparr>raw_text = ''wc'', raw_in = ''in'', raw_out = [], raw_conn = commandConnectionBackground\<rparr>,
         \<lparr>raw_text = ''pwd'', raw_in = [], raw_out = [], raw_conn = commandConnectionNone\<rparr>]"
proof -
  let ?rs = "[\<lparr>raw_text = ''ls -l'', raw_in = [], raw_out = ''out'', raw_conn = commandConnectionPipe\<rparr>,
         \<lparr>raw_text = ''wc'', raw_in = ''in'', raw_out = [], raw_conn = commandConnectionBackground\<rparr>,
         \<lparr>raw_text = ''pwd'', raw_in = [], raw_out = [], raw_conn = commandConnectionNone\<rparr>]"
  have "wf_line ?rs" "print_line ?rs = ''ls -l>out|wc<in&;pwd''"
    by code_simp+
  with parse_print_line [of ?rs] show ?thesis by simp
qed

text \<open>Whatever is read is well-formed: the texts and paths start with an ordinary character,
  contain no operator and fit \<open>BUFSIZE\<close> bytes, every command but the last is connected to the
  next one, and the last has no connection or runs in the background.\<close>

theorem parse_line_wf:
  assumes "parse_line line = Inr rs"
  shows "wf_line rs"
proof -
  obtain s p r out where scan: "scan Start (line @ [NUL]) 0 (blank_raw, []) = (s, p, r, out)"
    by (metis prod_cases4)
  have "reading_line Start (blank_raw, [])"
    by (simp add: reading_line_def reading_def)
  then have "reading_line s (r, out)" using scan by (rule reading_scan)
  moreover have "s \<noteq> Failed" "out = rs"
    using assms scan by (auto simp: parse_line_def split: if_splits)
  moreover have "s = Done" using scan_ends [OF scan] \<open>s \<noteq> Failed\<close> by simp
  ultimately show ?thesis by (simp add: reading_line_def)
qed

theorem parse_line_wf_witness:
  "\<exists>rs. parse_line '' a  |  b > c & '' = Inr rs \<and> wf_line rs \<and> length rs = 2"
proof -
  have "case parse_line '' a  |  b > c & '' of Inl _ \<Rightarrow> False | Inr rs \<Rightarrow> length rs = 2"
    by code_simp
  then obtain rs where "parse_line '' a  |  b > c & '' = Inr rs" "length rs = 2"
    by (auto split: sum.splits)
  with parse_line_wf [of "'' a  |  b > c & ''" rs] show ?thesis by blast
qed

end
