(* ===== verification/Parser_Correct.thy ===== *)
theory Parser_Correct
  imports Parser Line_Grammar
begin

text \<open>
  parser.c against the grammar of lines. \<open>sim\<close> relates the state of the parser (arrays, heaps,
  queue, aliases) to the command being read and to the commands already read by \<open>scan\<close>; every
  action keeps it. It accounts for every command, queue node and heap string, so that a leak, a
  double free or a write outside an array would show.
\<close>

section \<open>What a read command becomes\<close>

definition redirect :: "(string \<Rightarrow> string list option) \<Rightarrow> string \<Rightarrow> string option" where
  "redirect wordexp s = (if s = [] then None else single wordexp s)"

definition command_of ::
    "(string \<Rightarrow> string list option) \<Rightarrow> raw_command \<Rightarrow> string list \<Rightarrow> command_t" where
  "command_of wordexp r ws =
     \<lparr>path = (case ws of [] \<Rightarrow> None | w # _ \<Rightarrow> Some (cstr w)), argc = 0,
      argv = Some (map Some (map cstr ws) @ [None]),
      redirectToPath = redirect wordexp (raw_out r),
      redirectFromPath = redirect wordexp (raw_in r), connectionMask = raw_conn r\<rparr>"

definition build ::
    "(string \<Rightarrow> string list option) \<Rightarrow> (string \<times> string) list \<Rightarrow> raw_command \<Rightarrow> command_t option" where
  "build wordexp defs r =
     map_option (command_of wordexp r) (wordexp (alias_rewrite defs (raw_text r)))"

text \<open>The commands whose expansion neither overflows nor is rejected by \<open>wordexp\<close>.\<close>

definition fine ::
    "(string \<Rightarrow> string list option) \<Rightarrow> (string \<times> string) list \<Rightarrow> raw_command \<Rightarrow> bool" where
  "fine wordexp defs r \<longleftrightarrow>
     rewrite_fits defs (raw_text r) \<and> wordexp (alias_rewrite defs (raw_text r)) \<noteq> None"

definition built ::
    "(string \<Rightarrow> string list option) \<Rightarrow> (string \<times> string) list \<Rightarrow> raw_command \<Rightarrow> command_t \<Rightarrow> bool" where
  "built wordexp defs r c \<longleftrightarrow> (fine wordexp defs r \<longrightarrow> build wordexp defs r = Some c)"

section \<open>The arrays\<close>

definition array_holds :: "string \<Rightarrow> int \<Rightarrow> string \<Rightarrow> bool" where
  "array_holds arr n s \<longleftrightarrow>
     length arr = Suc BUFSIZE \<and> n = int (length s) \<and> length s \<le> BUFSIZE \<and>
     take (length s) arr = s \<and> arr ! length s = NUL \<and> c_string s"

lemma array_holds_cstr: "array_holds arr n s \<Longrightarrow> cstr arr = s"
proof -
  assume a: "array_holds arr n s"
  then have "arr = take (length s) arr @ arr ! length s # drop (Suc (length s)) arr"
    by (intro id_take_nth_drop) (simp add: array_holds_def)
  then have "arr = s @ NUL # drop (Suc (length s)) arr" using a by (simp add: array_holds_def)
  moreover have "c_string s" using a by (simp add: array_holds_def)
  ultimately have "cstr arr = cstr (s @ NUL # drop (Suc (length s)) arr)" by metis
  also have "\<dots> = s" using \<open>c_string s\<close>
    by (simp add: cstr_def takeWhile_append c_string_def)
  finally show ?thesis .
qed

lemma push_byte_run:
  assumes "array_holds arr n s" "c \<noteq> NUL"
  shows "\<exists>arr'. push_byte arr n c = Inr (arr', int (length (push s c))) \<and>
    array_holds arr' (int (length (push s c))) (push s c)"
proof (cases "length s < BUFSIZE")
  case True
  let ?arr = "(arr[length s := c])[Suc (length s) := NUL]"
  have "push_byte arr n c = Inr (?arr, int (length (push s c)))"
    using assms(1) True by (auto simp: push_byte_def put_byte_def array_holds_def push_def nat_add_distrib)
  moreover have "take (Suc (length s)) ?arr = s @ [c]"
    using assms(1) True by (simp add: array_holds_def take_Suc_conv_app_nth)
  then have "array_holds ?arr (int (length (push s c))) (push s c)"
    using assms True by (simp add: array_holds_def push_def)
  ultimately show ?thesis by blast
next
  case False
  then show ?thesis using assms(1) by (auto simp: push_byte_def push_def array_holds_def)
qed

lemma array_holds_new:
  "length arr = Suc BUFSIZE \<Longrightarrow> put_byte arr 0 NUL = Inr (arr[0 := NUL]) \<and> array_holds (arr[0 := NUL]) 0 []"
  by (simp add: put_byte_def array_holds_def)

definition fsm_ok :: "params \<Rightarrow> bool \<Rightarrow> raw_command \<Rightarrow> bool" where
  "fsm_ok f hc r \<longleftrightarrow>
     length (buffer f) = Suc BUFSIZE \<and> length (fsm_stdin f) = Suc BUFSIZE \<and>
     length (fsm_stdout f) = Suc BUFSIZE \<and> buflen f = int (length (raw_text r)) \<and>
     (hc \<longrightarrow> array_holds (buffer f) (buflen f) (raw_text r) \<and>
       array_holds (fsm_stdin f) (stdin_len f) (raw_in r) \<and>
       array_holds (fsm_stdout f) (stdout_len f) (raw_out r))"

lemma array_holds_length: "array_holds arr n s \<Longrightarrow> length arr = Suc BUFSIZE"
  by (simp add: array_holds_def)

lemma append_ok:
  assumes "fsm_ok f True r" "c \<noteq> NUL"
  shows "\<exists>f'. do_append c f = Inr f' \<and> fsm_ok f' True (r\<lparr>raw_text := push (raw_text r) c\<rparr>) \<and> cs f' = cs f"
    "\<exists>f'. do_append_in c f = Inr f' \<and> fsm_ok f' True (r\<lparr>raw_in := push (raw_in r) c\<rparr>) \<and> cs f' = cs f"
    "\<exists>f'. do_append_out c f = Inr f' \<and> fsm_ok f' True (r\<lparr>raw_out := push (raw_out r) c\<rparr>) \<and> cs f' = cs f"
proof -
  have a: "array_holds (buffer f) (buflen f) (raw_text r)"
    "array_holds (fsm_stdin f) (stdin_len f) (raw_in r)"
    "array_holds (fsm_stdout f) (stdout_len f) (raw_out r)"
    "buflen f = int (length (raw_text r))"
    using assms(1) by (auto simp: fsm_ok_def)
  show "\<exists>f'. do_append c f = Inr f' \<and> fsm_ok f' True (r\<lparr>raw_text := push (raw_text r) c\<rparr>) \<and> cs f' = cs f"
    using push_byte_run [OF a(1) assms(2)] a(2-4)
    by (auto simp: do_append_def fsm_ok_def dest: array_holds_length)
  show "\<exists>f'. do_append_in c f = Inr f' \<and> fsm_ok f' True (r\<lparr>raw_in := push (raw_in r) c\<rparr>) \<and> cs f' = cs f"
    using push_byte_run [OF a(2) assms(2)] a(1,3,4)
    by (auto simp: do_append_in_def fsm_ok_def dest: array_holds_length)
  show "\<exists>f'. do_append_out c f = Inr f' \<and> fsm_ok f' True (r\<lparr>raw_out := push (raw_out r) c\<rparr>) \<and> cs f' = cs f"
    using push_byte_run [OF a(3) assms(2)] a(1,2,4)
    by (auto simp: do_append_out_def fsm_ok_def dest: array_holds_length)
qed

section \<open>The simulation relation\<close>

text \<open>The heap \<open>h\<close> is \<open>h0\<close> with the fresh objects \<open>new\<close>.\<close>

definition cells_grew :: "'o cells \<Rightarrow> 'o cells \<Rightarrow> nat set \<Rightarrow> bool" where
  "cells_grew h0 h new \<longleftrightarrow>
     length h0 \<le> length h \<and> (\<forall>b. live_at h b \<longleftrightarrow> live_at h0 b \<or> b \<in> new) \<and>
     (\<forall>b. live_at h0 b \<longrightarrow> b \<notin> new \<and> object_at h b = object_at h0 b)"

definition queue_ok ::
    "(string \<Rightarrow> string list option) \<Rightarrow> (string \<times> string) list \<Rightarrow> (ptr, command_heap) nodes \<Rightarrow>
     parse_state \<Rightarrow> raw_command list \<Rightarrow> nat list \<Rightarrow> bool" where
  "queue_ok wordexp defs m0 st out ptrs \<longleftrightarrow>
     (\<exists>q as. queue st = Some q \<and> holds_nodes q (nodes st) as \<and> items (nodes st) as = map Some ptrs \<and>
        (\<forall>a \<in> set as. freeFunction (object_at (nodes st) a) = commandFree) \<and>
        cells_grew m0 (nodes st) (set as)) \<and>
     distinct ptrs \<and>
     list_all2 (\<lambda>a r. live_at (commands st) a \<and> command_ok (object_at (commands st) a) \<and>
       built wordexp defs r (object_at (commands st) a)) ptrs out"

definition heaps_ok ::
    "(string \<times> string) list \<Rightarrow> strheap \<Rightarrow> command_t cells \<Rightarrow> parse_state \<Rightarrow> nat list \<Rightarrow> bool" where
  "heaps_ok defs others h0 st ptrs \<longleftrightarrow>
     alias_ok (aliases st) (strings_of (commands st) ptrs + others) \<and>
     describes defs (aliases st) \<and> released (aliases st) = alias_lookup (aliases st) \<and>
     False \<notin> set (al_oom (aliases st)) \<and>
     cells_grew h0 (commands st) (set ptrs \<union> set_option (command st))"

definition current_ok :: "parse_state \<Rightarrow> bool \<Rightarrow> raw_command \<Rightarrow> nat list \<Rightarrow> bool" where
  "current_ok st hc r ptrs \<longleftrightarrow>
     (case command st of
        None \<Rightarrow> \<not> hc
      | Some a \<Rightarrow> hc \<and> a \<notin> set ptrs \<and> live_at (commands st) a \<and>
          object_at (commands st) a = blank_command\<lparr>connectionMask := raw_conn r\<rparr>)"

definition sim ::
    "(string \<Rightarrow> string list option) \<Rightarrow> (string \<times> string) list \<Rightarrow> strheap \<Rightarrow> command_t cells \<Rightarrow>
     (ptr, command_heap) nodes \<Rightarrow> parse_state \<Rightarrow> bool \<Rightarrow> raw_command \<times> raw_command list \<Rightarrow> bool" where
  "sim wordexp defs others h0 m0 st hc x \<longleftrightarrow>
     fsm_ok (fsm st) hc (fst x) \<and>
     (\<exists>ptrs. queue_ok wordexp defs m0 st (snd x) ptrs \<and> heaps_ok defs others h0 st ptrs \<and>
        current_ok st hc (fst x) ptrs)"

lemma sim_fsm:
  assumes "sim wordexp defs others h0 m0 st hc (r, out)" "fsm_ok f hc r'" "raw_conn r' = raw_conn r"
  shows "sim wordexp defs others h0 m0 (st\<lparr>fsm := f\<rparr>) hc (r', out)"
  using assms by (auto simp: sim_def queue_ok_def heaps_ok_def current_ok_def cong: option.case_cong)


section \<open>Every action keeps it\<close>

lemma sim_append:
  assumes "sim wordexp defs others h0 m0 st True (r, out)" "c \<noteq> NUL"
    and "a = Append \<or> a = Append_In \<or> a = Append_Out"
  shows "\<exists>st'. run_action wordexp c (action_code a) st = Inr (False, st') \<and>
    sim wordexp defs others h0 m0 st' True (scan_act c a (r, out)) \<and> cs (fsm st') = cs (fsm st)"
proof -
  have f: "fsm_ok (fsm st) True r" using assms(1) by (simp add: sim_def)
  note app = append_ok [OF f assms(2)]
  show ?thesis
    using assms(3) app sim_fsm [OF assms(1)]
    by (elim disjE) (fastforce simp: run_action_def set_fsm_def)+
qed

lemma sim_connect:
  assumes "sim wordexp defs others h0 m0 st True (r, out)"
  shows "\<exists>st'. connect f st = Inr (False, st') \<and>
    sim wordexp defs others h0 m0 st' True (r\<lparr>raw_conn := f (raw_conn r)\<rparr>, out) \<and>
    cs (fsm st') = cs (fsm st)"
proof -
  from assms obtain ptrs where s: "fsm_ok (fsm st) True r" "queue_ok wordexp defs m0 st out ptrs"
    "heaps_ok defs others h0 st ptrs" "current_ok st True r ptrs"
    by (auto simp: sim_def)
  then obtain a where a: "command st = Some a" "a \<notin> set ptrs" "live_at (commands st) a"
    "object_at (commands st) a = blank_command\<lparr>connectionMask := raw_conn r\<rparr>"
    by (auto simp: current_ok_def split: option.splits)
  let ?c = "blank_command\<lparr>connectionMask := f (raw_conn r)\<rparr>"
  let ?h = "(commands st)[a := Some ?c]"
  let ?st = "st\<lparr>commands := ?h\<rparr>"
  have run: "connect f st = Inr (False, ?st)"
    using a by (simp add: connect_def load_live store_live)
  have other: "live_at ?h b = live_at (commands st) b \<and> (b \<noteq> a \<longrightarrow> object_at ?h b = object_at (commands st) b)" for b
    using a(3) by (cases "a = b") (auto simp: live_at_less object_at_def)
  have same: "object_at ?h b = object_at (commands st) b" if "b \<in> set ptrs" for b
    using other [of b] that a(2) by metis
  have "queue_ok wordexp defs m0 ?st out ptrs"
    using s(2) other same unfolding queue_ok_def
    by (auto elim!: list.rel_mono_strong)
  moreover have "strings_of ?h ptrs = strings_of (commands st) ptrs"
    using same by (simp add: strings_of_def cong: map_cong)
  then have "heaps_ok defs others h0 ?st ptrs"
    using s(3) other a(1) by (auto simp: heaps_ok_def cells_grew_def)
  moreover have "current_ok ?st True (r\<lparr>raw_conn := f (raw_conn r)\<rparr>) ptrs"
    using a live_at_less [OF a(3)] by (simp add: current_ok_def)
  moreover have "fsm_ok (fsm ?st) True (r\<lparr>raw_conn := f (raw_conn r)\<rparr>)"
    using s(1) by (auto simp: fsm_ok_def)
  ultimately have "sim wordexp defs others h0 m0 ?st True (r\<lparr>raw_conn := f (raw_conn r)\<rparr>, out)"
    unfolding sim_def by auto
  with run show ?thesis by auto
qed

lemma sim_new:
  assumes "sim wordexp defs others h0 m0 st False (r, out)"
  shows "\<exists>st'. do_new st = Inr (False, st') \<and> sim wordexp defs others h0 m0 st' True (blank_raw, out) \<and>
    cs (fsm st') = cs (fsm st)"
proof -
  from assms obtain ptrs where s: "fsm_ok (fsm st) False r" "queue_ok wordexp defs m0 st out ptrs"
    "heaps_ok defs others h0 st ptrs" "current_ok st False r ptrs"
    by (auto simp: sim_def)
  have none: "command st = None" using s(4) by (auto simp: current_ok_def split: option.splits)
  have mem: "False \<notin> set (al_oom (aliases st))" using s(3) by (simp add: heaps_ok_def)
  then have al: "fst (alloc_ok (al_oom (aliases st)))" "False \<notin> set (snd (alloc_ok (al_oom (aliases st))))"
    using alloc_ok_False alloc_ok_subset by blast+
  let ?f = "fsm st"
  let ?f' = "?f\<lparr>buflen := 0, stdin_len := 0, stdout_len := 0, buffer := (buffer ?f)[0 := NUL],
      fsm_stdout := (fsm_stdout ?f)[0 := NUL], fsm_stdin := (fsm_stdin ?f)[0 := NUL]\<rparr>"
  let ?h = "commands st @ [Some blank_command]"
  let ?a = "length (commands st)"
  let ?al = "(aliases st)\<lparr>al_oom := snd (alloc_ok (al_oom (aliases st)))\<rparr>"
  let ?st = "st\<lparr>fsm := ?f', command := Some ?a, commands := ?h, aliases := ?al\<rparr>"
  have arrays: "length (buffer ?f) = Suc BUFSIZE" "length (fsm_stdin ?f) = Suc BUFSIZE"
    "length (fsm_stdout ?f) = Suc BUFSIZE"
    using s(1) by (auto simp: fsm_ok_def)
  have run: "do_new st = Inr (False, ?st)"
    using array_holds_new [OF arrays(1)] array_holds_new [OF arrays(2)] array_holds_new [OF arrays(3)]
    by (simp add: do_new_def commandNew_run [OF al(1)] Let_def)
  have live: "live_at (commands st) b" if "b \<in> set ptrs" for b
    using s(2) that by (auto simp: queue_ok_def list_all2_conv_all_nth in_set_conv_nth)
  then have fresh: "?a \<notin> set ptrs" by (auto simp: live_at_def)
  have "queue_ok wordexp defs m0 ?st out ptrs"
    using s(2) unfolding queue_ok_def by (auto elim!: list.rel_mono_strong)
  moreover have "strings_of ?h ptrs = strings_of (commands st) ptrs"
    using live by (simp add: strings_of_def cong: map_cong)
  moreover have "alias_lookup ?al = alias_lookup (aliases st)"
    by simp
  moreover have "alias_ok ?al others' = alias_ok (aliases st) others'" for others'
    by simp
  moreover have "live_at h0 b \<Longrightarrow> b \<noteq> ?a" for b
    using s(3) by (auto simp: heaps_ok_def cells_grew_def live_at_def)
  ultimately have "queue_ok wordexp defs m0 ?st out ptrs" "heaps_ok defs others h0 ?st ptrs"
    using s(3) none al(2)
    by (auto simp: heaps_ok_def describes_def available_def released_def cells_grew_def live_at_def
        object_at_def nth_append)
  moreover have "current_ok ?st True blank_raw ptrs"
    using fresh by (simp add: current_ok_def blank_command_def)
  moreover have "fsm_ok (fsm ?st) True blank_raw"
    using arrays array_holds_new by (simp add: fsm_ok_def)
  ultimately have "sim wordexp defs others h0 m0 ?st True (blank_raw, out)"
    unfolding sim_def by auto
  with run show ?thesis by auto
qed


section \<open>The action term\<close>

lemma redirect_run:
  assumes "array_holds arr n s" "False \<notin> set oom"
  shows "\<exists>oom'. (if n > 0 then expand wordexp (cstr arr) oom strings else (None, oom, strings)) =
      (redirect wordexp s, oom', mset (case redirect wordexp s of None \<Rightarrow> [] | Some t \<Rightarrow> [t]) + strings) \<and>
    False \<notin> set oom'"
proof (cases "s = []")
  case True
  then show ?thesis using assms by (simp add: array_holds_def redirect_def)
next
  case False
  then have "n > 0" using assms(1) by (simp add: array_holds_def)
  with False expand_run [OF assms(2), of wordexp s strings] array_holds_cstr [OF assms(1)]
  show ?thesis by (simp add: redirect_def)
qed

lemma finish_command_run:
  assumes c: "command st = Some a" "live_at (commands st) a"
      "argv (object_at (commands st) a) = Some (map Some ws @ [None])"
      "redirectToPath (object_at (commands st) a) = None"
      "redirectFromPath (object_at (commands st) a) = None"
    and f: "fsm_ok (fsm st) True r" and mem: "False \<notin> set (al_oom (aliases st))"
    and q: "queue st = Some q" "holds_nodes q (nodes st) as" "Suc (length as) < 2 ^ 64"
  shows "\<exists>q' ns oom. finish_command wordexp st = Inr (False,
      st\<lparr>queue := Some q', nodes := ns, command := None,
         commands := (commands st)[a := Some ((object_at (commands st) a)\<lparr>
           path := (case ws of [] \<Rightarrow> None | w # _ \<Rightarrow> Some w),
           redirectFromPath := redirect wordexp (raw_in r), redirectToPath := redirect wordexp (raw_out r)\<rparr>)],
         aliases := (aliases st)\<lparr>al_oom := oom,
           al_strings := mset (case redirect wordexp (raw_out r) of None \<Rightarrow> [] | Some t \<Rightarrow> [t]) +
             (mset (case redirect wordexp (raw_in r) of None \<Rightarrow> [] | Some t \<Rightarrow> [t]) + al_strings (aliases st))\<rparr>\<rparr>) \<and>
    False \<notin> set oom \<and>
    holds_nodes q' ns (as @ [length (nodes st)]) \<and>
    items ns (as @ [length (nodes st)]) = items (nodes st) as @ [Some a] \<and>
    freeFunction (object_at ns (length (nodes st))) = commandFree \<and>
    (\<forall>b \<in> set as. freeFunction (object_at ns b) = freeFunction (object_at (nodes st) b)) \<and>
    length ns = Suc (length (nodes st)) \<and>
    (\<forall>b. live_at ns b \<longleftrightarrow> b = length (nodes st) \<or> live_at (nodes st) b) \<and>
    (\<forall>b. b \<notin> set as \<longrightarrow> live_at (nodes st) b \<longrightarrow> object_at ns b = object_at (nodes st) b)"
proof -
  have arrays: "array_holds (fsm_stdin (fsm st)) (stdin_len (fsm st)) (raw_in r)"
    "array_holds (fsm_stdout (fsm st)) (stdout_len (fsm st)) (raw_out r)"
    using f by (auto simp: fsm_ok_def)
  obtain oom1 where r1: "(if stdin_len (fsm st) > 0
        then expand wordexp (cstr (fsm_stdin (fsm st))) (al_oom (aliases st)) (al_strings (aliases st))
        else (None, al_oom (aliases st), al_strings (aliases st))) =
      (redirect wordexp (raw_in r), oom1,
        mset (case redirect wordexp (raw_in r) of None \<Rightarrow> [] | Some t \<Rightarrow> [t]) + al_strings (aliases st))"
    "False \<notin> set oom1"
    using redirect_run [OF arrays(1) mem] by blast
  let ?s1 = "mset (case redirect wordexp (raw_in r) of None \<Rightarrow> [] | Some t \<Rightarrow> [t]) + al_strings (aliases st)"
  obtain oom2 where r2: "(if stdout_len (fsm st) > 0
        then expand wordexp (cstr (fsm_stdout (fsm st))) oom1 ?s1 else (None, oom1, ?s1)) =
      (redirect wordexp (raw_out r), oom2,
        mset (case redirect wordexp (raw_out r) of None \<Rightarrow> [] | Some t \<Rightarrow> [t]) + ?s1)"
    "False \<notin> set oom2"
    using redirect_run [OF arrays(2) r1(2)] by blast
  have arg: "first_arg (object_at (commands st) a) = Inr (case ws of [] \<Rightarrow> None | w # _ \<Rightarrow> Some w)"
    using c(3) by (cases ws) (simp_all add: first_arg_def)
  have "fst (alloc_ok oom2)" "False \<notin> set (snd (alloc_ok oom2))"
    using r2(2) alloc_ok_False alloc_ok_subset by blast+
  moreover obtain q' ns where qi: "queueInsert (Some q) (Some a) commandFree oom2 (nodes st) =
      Inr (q', snd (alloc_ok oom2), ns)" and ns: "holds_nodes q' ns (as @ [length (nodes st)])"
    "items ns (as @ [length (nodes st)]) = items (nodes st) as @ [Some a]"
    "length ns = Suc (length (nodes st))" "freeFunction (object_at ns (length (nodes st))) = commandFree"
    "\<forall>b \<in> set as. freeFunction (object_at ns b) = freeFunction (object_at (nodes st) b)"
    "\<forall>b. live_at ns b \<longleftrightarrow> b = length (nodes st) \<or> live_at (nodes st) b"
    "\<forall>b. b \<notin> set as \<longrightarrow> live_at (nodes st) b \<longrightarrow> object_at ns b = object_at (nodes st) b"
    using queueInsert_run [OF q(2) calculation(1) q(3), of "Some a" commandFree] by blast
  moreover have "finish_command wordexp st = Inr (False,
      st\<lparr>queue := Some q', nodes := ns, command := None,
         commands := (commands st)[a := Some ((object_at (commands st) a)\<lparr>
           path := (case ws of [] \<Rightarrow> None | w # _ \<Rightarrow> Some w),
           redirectFromPath := redirect wordexp (raw_in r), redirectToPath := redirect wordexp (raw_out r)\<rparr>)],
         aliases := (aliases st)\<lparr>al_oom := snd (alloc_ok oom2),
           al_strings := mset (case redirect wordexp (raw_out r) of None \<Rightarrow> [] | Some t \<Rightarrow> [t]) + ?s1\<rparr>\<rparr>)"
    unfolding finish_command_def c(1) load_live [OF c(2)] rbind_Inr arg Let_def c(4,5) r1(1)
      case_prod_conv r2(1) store_live [OF c(2)] q(1) qi by simp
  ultimately show ?thesis by blast
qed


text \<open>A command that was just given its words is appended to the queue.\<close>

lemma queue_ok_append:
  assumes q: "queue_ok wordexp defs m0 st out ptrs" and a: "a \<notin> set ptrs" "live_at (commands st) a"
    and st': "queue st' = Some q'" "nodes st' = ns" "commands st' = (commands st)[a := Some c]"
    and old: "queue st = Some q" "holds_nodes q (nodes st) as" "items (nodes st) as = map Some ptrs"
      "\<forall>b \<in> set as. freeFunction (object_at (nodes st) b) = commandFree"
      "cells_grew m0 (nodes st) (set as)"
    and new: "holds_nodes q' ns (as @ [length (nodes st)])"
      "items ns (as @ [length (nodes st)]) = items (nodes st) as @ [Some a]"
      "freeFunction (object_at ns (length (nodes st))) = commandFree"
      "\<forall>b \<in> set as. freeFunction (object_at ns b) = freeFunction (object_at (nodes st) b)"
      "length ns = Suc (length (nodes st))"
      "\<forall>b. live_at ns b \<longleftrightarrow> b = length (nodes st) \<or> live_at (nodes st) b"
      "\<forall>b. b \<notin> set as \<longrightarrow> live_at (nodes st) b \<longrightarrow> object_at ns b = object_at (nodes st) b"
    and c: "command_ok c" "built wordexp defs r c"
  shows "queue_ok wordexp defs m0 st' (out @ [r]) (ptrs @ [a])"
proof -
  let ?h = "(commands st)[a := Some c]"
  have "live_at ?h b \<and> object_at ?h b = object_at (commands st) b" if "b \<noteq> a" "live_at (commands st) b" for b
    using that by (simp add: live_at_less object_at_def)
  then have "list_all2 (\<lambda>a r. live_at ?h a \<and> command_ok (object_at ?h a) \<and> built wordexp defs r (object_at ?h a))
      ptrs out"
    using q a(1) unfolding queue_ok_def by (auto elim!: list.rel_mono_strong) metis+
  moreover have "live_at ?h a" "object_at ?h a = c" using a(2) by (simp_all add: live_at_less)
  moreover have "cells_grew m0 ns (set (as @ [length (nodes st)]))"
    using old(5) new(5-7) by (auto simp: cells_grew_def live_at_def)
  ultimately have all: "list_all2 (\<lambda>a r. live_at ?h a \<and> command_ok (object_at ?h a) \<and>
        built wordexp defs r (object_at ?h a)) (ptrs @ [a]) (out @ [r])"
      "cells_grew m0 ns (set (as @ [length (nodes st)]))"
    using c by (auto intro: list_all2_appendI)
  have "\<forall>b \<in> set (as @ [length (nodes st)]). freeFunction (object_at ns b) = commandFree"
    using new(3,4) old(4) by auto
  moreover have "items ns (as @ [length (nodes st)]) = map Some (ptrs @ [a])"
    using new(2) old(3) by simp
  moreover have "distinct (ptrs @ [a])" using q a(1) by (simp add: queue_ok_def)
  ultimately show ?thesis
    unfolding queue_ok_def st' using all new(1) by blast
qed

lemma live_ptrs:
  "queue_ok wordexp defs m0 st out ptrs \<Longrightarrow> b \<in> set ptrs \<Longrightarrow>
    live_at (commands st) b \<and> command_ok (object_at (commands st) b)"
  by (auto simp: queue_ok_def list_all2_conv_all_nth in_set_conv_nth)

lemma queue_ok_length: "queue_ok wordexp defs m0 st out ptrs \<Longrightarrow> length ptrs = length out"
  by (auto simp: queue_ok_def dest: list_all2_lengthD)

lemma sim_term_text:
  assumes sim: "sim wordexp defs others h0 m0 st True (r, out)" and ne: "raw_text r \<noteq> []"
    and small: "Suc (length out) < 2 ^ 64"
  shows "do_term wordexp st = Inl BufferOverflow \<and> \<not> fine wordexp defs r \<or>
    (\<exists>st'. do_term wordexp st = Inr (False, st') \<and>
      sim wordexp defs others h0 m0 st' False (r, out @ [r]) \<and> cs (fsm st') = cs (fsm st)) \<or>
    (\<exists>st'. do_term wordexp st = Inr (True, st') \<and> \<not> fine wordexp defs r \<and>
      sim wordexp defs others h0 m0 st' True (r, out) \<and> cs (fsm st') = cs (fsm st))"
proof -
  from sim obtain ptrs where s: "fsm_ok (fsm st) True r" "queue_ok wordexp defs m0 st out ptrs"
    "heaps_ok defs others h0 st ptrs" "current_ok st True r ptrs"
    by (auto simp: sim_def)
  then obtain a where a: "command st = Some a" "a \<notin> set ptrs" "live_at (commands st) a"
    "object_at (commands st) a = blank_command\<lparr>connectionMask := raw_conn r\<rparr>"
    by (auto simp: current_ok_def split: option.splits)
  have buf: "array_holds (buffer (fsm st)) (buflen (fsm st)) (raw_text r)"
    using s(1) by (auto simp: fsm_ok_def)
  then have pos: "buflen (fsm st) > 0" "c_string (raw_text r)" "length (raw_text r) \<le> BUFSIZE"
    using ne by (auto simp: array_holds_def)
  let ?S = "strings_of (commands st) ptrs + others"
  have al: "alias_ok (aliases st) ?S" "describes defs (aliases st)"
    "released (aliases st) = alias_lookup (aliases st)" "False \<notin> set (al_oom (aliases st))"
    "cells_grew h0 (commands st) (set ptrs \<union> {a})"
    using s(3) a(1) by (auto simp: heaps_ok_def)
  have ea: "expandAlias (buffer (fsm st)) (aliases st) = expandAlias (raw_text r) (aliases st)"
    using expandAlias_cstr [of "buffer (fsm st)"] array_holds_cstr [OF buf] by simp
  from expandAlias_outcome [OF al(1,2,4) pos(2,3)] show ?thesis
  proof (elim disjE conjE exE)
    assume "expandAlias (raw_text r) (aliases st) = Inl BufferOverflow" "\<not> rewrite_fits defs (raw_text r)"
    then show ?thesis using pos(1) ea by (simp add: do_term_def fine_def)
  next
    fix final al1
    assume e: "expandAlias (raw_text r) (aliases st) = Inr (final, al1)"
      "alias_ok al1 (add_mset final ?S)" "alias_lookup al1 = released (aliases st)"
      "False \<notin> set (al_oom al1)" "rewrite_fits defs (raw_text r) \<longrightarrow> final = alias_rewrite defs (raw_text r)"
    have look: "alias_lookup al1 = alias_lookup (aliases st)" using e(3) al(3) by simp
    then have al1: "describes defs al1" "released al1 = alias_lookup al1"
      using al(2,3) describes_lookup released_lookup by metis+
    have mem: "final \<in># al_strings al1"
      using alias_ok_swap(1) [where A = "{#final#}" and others = ?S] e(2) by simp
    show ?thesis
    proof (cases "wordexp final")
      case None
      let ?al = "al1\<lparr>al_strings := al_strings al1 - {#final#}, al_oom := al_oom al1\<rparr>"
      let ?st = "st\<lparr>aliases := ?al, messages := messages st @ illegal_message\<rparr>"
      have run: "do_term wordexp st = Inr (True, ?st)"
        using pos(1) ea e(1) None mem
        by (simp add: do_term_def expandGlob_def str_free_def Let_def)
      have "alias_ok ?al ?S"
        using alias_ok_swap(2) [where A = "{#final#}" and B = "{#}" and others = ?S] e(2) by simp
      then have "heaps_ok defs others h0 ?st ptrs"
        using al1 e(4) al(5) a(1) look
        by (simp add: heaps_ok_def describes_def available_def released_def)
      moreover have "queue_ok wordexp defs m0 ?st out ptrs" "current_ok ?st True r ptrs"
        using s(2,4) by (simp_all add: queue_ok_def current_ok_def cong: option.case_cong)
      ultimately have "sim wordexp defs others h0 m0 ?st True (r, out)"
        using s(1) unfolding sim_def by auto
      moreover have "\<not> fine wordexp defs r" using e(5) None by (auto simp: fine_def)
      ultimately show ?thesis using run by auto
    next
      case (Some ws)
      let ?c1 = "(object_at (commands st) a)\<lparr>argv := Some (map Some (map cstr ws) @ [None])\<rparr>"
      let ?h1 = "(commands st)[a := Some ?c1]"
      obtain oom where eg: "expandGlob wordexp (Some a) final (al_oom al1) (commands st, al_strings al1) =
          Inr (0, oom, ?h1, mset (map cstr ws) + al_strings al1)" "False \<notin> set oom"
        using expandGlob_run [where wordexp = wordexp and cmd = final, OF a(3) e(4) Some] by blast
      let ?s1 = "mset (map cstr ws) + al_strings al1 - {#final#}"
      let ?al2 = "al1\<lparr>al_oom := oom, al_strings := ?s1\<rparr>"
      let ?st1 = "st\<lparr>commands := ?h1, aliases := ?al2\<rparr>"
      have run1: "do_term wordexp st = finish_command wordexp ?st1"
        using pos(1) ea e(1) eg(1) mem a(1)
        by (simp add: do_term_def str_free_def Let_def)
      have c1: "live_at ?h1 a" "object_at ?h1 a = ?c1" using a(3) by (simp_all add: live_at_less)
      from s(2) obtain q as where old: "queue st = Some q" "holds_nodes q (nodes st) as"
        "items (nodes st) as = map Some ptrs"
        "\<forall>b \<in> set as. freeFunction (object_at (nodes st) b) = commandFree"
        "cells_grew m0 (nodes st) (set as)"
        by (auto simp: queue_ok_def)
      have len: "Suc (length as) < 2 ^ 64"
        using small queue_ok_length [OF s(2)] old(3) items_length [of "nodes st" as] by simp
      let ?to = "mset (case redirect wordexp (raw_out r) of None \<Rightarrow> [] | Some t \<Rightarrow> [t])"
      let ?from = "mset (case redirect wordexp (raw_in r) of None \<Rightarrow> [] | Some t \<Rightarrow> [t])"
      let ?c2 = "command_of wordexp r ws"
      have c2: "?c1\<lparr>path := (case map cstr ws of [] \<Rightarrow> None | w # _ \<Rightarrow> Some w),
          redirectFromPath := redirect wordexp (raw_in r), redirectToPath := redirect wordexp (raw_out r)\<rparr> = ?c2"
        unfolding a(4) by (cases ws) (simp_all add: command_of_def blank_command_def)
      have f1: "fsm_ok (fsm ?st1) True r" using s(1) by simp
      obtain q' ns oom3 where r: "finish_command wordexp ?st1 = Inr (False,
          ?st1\<lparr>queue := Some q', nodes := ns, command := None, commands := ?h1[a := Some ?c2],
             aliases := ?al2\<lparr>al_oom := oom3, al_strings := ?to + (?from + ?s1)\<rparr>\<rparr>)"
        "False \<notin> set oom3" and new: "holds_nodes q' ns (as @ [length (nodes st)])"
        "items ns (as @ [length (nodes st)]) = items (nodes st) as @ [Some a]"
        "freeFunction (object_at ns (length (nodes st))) = commandFree"
        "\<forall>b \<in> set as. freeFunction (object_at ns b) = freeFunction (object_at (nodes st) b)"
        "length ns = Suc (length (nodes st))"
        "\<forall>b. live_at ns b \<longleftrightarrow> b = length (nodes st) \<or> live_at (nodes st) b"
        "\<forall>b. b \<notin> set as \<longrightarrow> live_at (nodes st) b \<longrightarrow> object_at ns b = object_at (nodes st) b"
        using finish_command_run [where st = ?st1 and a = a and ws = "map cstr ws" and r = r and q = q and as = as
            and wordexp = wordexp] a(1,4) c1 f1 eg(2) old(1,2) len c2
        by (auto simp: blank_command_def)
      let ?h2 = "(commands st)[a := Some ?c2]"
      let ?al3 = "al1\<lparr>al_strings := ?to + (?from + ?s1), al_oom := oom3\<rparr>"
      let ?st2 = "st\<lparr>queue := Some q', nodes := ns, command := None, commands := ?h2, aliases := ?al3\<rparr>"
      have run: "do_term wordexp st = Inr (False, ?st2)"
        using run1 r(1) by simp
      have c: "command_ok ?c2" "built wordexp defs r ?c2"
        using Some e(5) by (auto simp: command_of_def command_ok_def built_def build_def fine_def simp del: map_map)
      have cs: "command_strings ?c2 = mset (map cstr ws) + ?to + ?from"
        by (simp add: command_of_def command_strings_def words_of_def del: map_map)
      have strs: "?to + (?from + ?s1) = al_strings al1 - {#final#} + command_strings ?c2"
        using mem unfolding cs by (subst multiset_diff_union_assoc) (simp_all add: ac_simps)
      have owner: "command_strings ?c2 + ?S = strings_of ?h2 (ptrs @ [a]) + others"
      proof -
        have "object_at ?h2 b = object_at (commands st) b" if "b \<in> set ptrs" for b
          using that a(2) by (metis object_at_def nth_list_update_neq)
        then have "strings_of ?h2 ptrs = strings_of (commands st) ptrs"
          by (simp add: strings_of_def cong: map_cong)
        then show ?thesis using a(3) by (simp add: strings_of_def live_at_less ac_simps)
      qed
      have "alias_ok al1 ({#final#} + ?S)" using e(2) by simp
      then have ok: "alias_ok ?al3 (strings_of ?h2 (ptrs @ [a]) + others)"
        unfolding strs owner [symmetric] by (rule alias_ok_swap(2))
      have "cells_grew h0 ?h2 (set (ptrs @ [a]))"
        using al(5) a(3) by (auto simp: cells_grew_def live_at_less object_at_def nth_list_update)
      then have "heaps_ok defs others h0 ?st2 (ptrs @ [a])"
        using ok al1 r(2) look by (simp add: heaps_ok_def describes_def available_def released_def)
      moreover have "queue_ok wordexp defs m0 ?st2 (out @ [r]) (ptrs @ [a])"
        by (rule queue_ok_append [OF s(2) a(2,3) _ _ _ old new c]) simp_all
      moreover have "current_ok ?st2 False r (ptrs @ [a])" by (simp add: current_ok_def)
      moreover have "fsm_ok (fsm ?st2) False r" using s(1) by (simp add: fsm_ok_def)
      ultimately have "sim wordexp defs others h0 m0 ?st2 False (r, out @ [r])"
        unfolding sim_def by auto
      then show ?thesis using run by auto
    qed
  qed
qed


section \<open>Sequences of actions\<close>

text \<open>When an action may run: whether there is a current command before it, and after it.\<close>

fun action_ok :: "char \<Rightarrow> action \<Rightarrow> bool \<Rightarrow> raw_command \<Rightarrow> bool" where
  "action_ok c New hc r \<longleftrightarrow> \<not> hc"
| "action_ok c Term hc r \<longleftrightarrow> hc \<or> raw_text r = []"
| "action_ok c Append hc r \<longleftrightarrow> hc \<and> c \<noteq> NUL"
| "action_ok c Append_In hc r \<longleftrightarrow> hc \<and> c \<noteq> NUL"
| "action_ok c Append_Out hc r \<longleftrightarrow> hc \<and> c \<noteq> NUL"
| "action_ok c _ hc r \<longleftrightarrow> hc"

fun has_after :: "action \<Rightarrow> bool \<Rightarrow> raw_command \<Rightarrow> bool" where
  "has_after New hc r \<longleftrightarrow> True"
| "has_after Term hc r \<longleftrightarrow> hc \<and> raw_text r = []"
| "has_after _ hc r \<longleftrightarrow> hc"

fun actions_ok :: "char \<Rightarrow> action list \<Rightarrow> bool \<Rightarrow> raw_command \<times> raw_command list \<Rightarrow> bool" where
  "actions_ok c [] hc x \<longleftrightarrow> True"
| "actions_ok c (a # as) hc x \<longleftrightarrow>
     action_ok c a hc (fst x) \<and> actions_ok c as (has_after a hc (fst x)) (scan_act c a x)"

fun has_after_all :: "char \<Rightarrow> action list \<Rightarrow> bool \<Rightarrow> raw_command \<times> raw_command list \<Rightarrow> bool" where
  "has_after_all c [] hc x \<longleftrightarrow> hc"
| "has_after_all c (a # as) hc x \<longleftrightarrow> has_after_all c as (has_after a hc (fst x)) (scan_act c a x)"

lemma char_class_Nul: "char_class c = Nul \<longleftrightarrow> c = NUL"
proof
  assume "char_class c = Nul"
  then have "schar c = 0" by (simp add: char_class_def byte_class_def split: if_splits)
  then have "uchar c = 0" using uchar_range [of c] by (simp add: schar_def split: if_splits)
  then show "c = NUL" by simp
qed simp

lemma delta_actions_ok:
  assumes "reading_line s (r, out)" "s \<noteq> Done" "s \<noteq> Failed"
    and "parser_delta s (char_class c) = (t, as)"
  shows "actions_ok c as (s \<noteq> Start) (r, out)"
    "t \<noteq> Failed \<Longrightarrow> t \<noteq> Done \<Longrightarrow> has_after_all c as (s \<noteq> Start) (r, out) \<and> t \<noteq> Start"
proof -
  have nul: "char_class c = Other \<Longrightarrow> c \<noteq> NUL" "char_class c = Space \<Longrightarrow> c \<noteq> NUL"
    using char_class_Nul [of c] by auto
  show "actions_ok c as (s \<noteq> Start) (r, out)"
    using assms(1-3) assms(4) [symmetric] nul
    by (cases s; cases "char_class c";
        clarsimp simp: parser_delta_def reading_line_def reading_def wf_raw_nonempty word_text_nonempty)
  show "t \<noteq> Failed \<Longrightarrow> t \<noteq> Done \<Longrightarrow> has_after_all c as (s \<noteq> Start) (r, out) \<and> t \<noteq> Start"
    using assms(1-3) assms(4) [symmetric] nul
    by (cases s; cases "char_class c";
        clarsimp simp: parser_delta_def reading_line_def reading_def wf_raw_nonempty word_text_nonempty)
qed

text \<open>One action: it keeps the relation, or it stops on a command that is not fine.\<close>

lemma sim_action:
  assumes sim: "sim wordexp defs others h0 m0 st hc (r, out)" and ok: "action_ok c a hc r"
    and small: "Suc (length out) < 2 ^ 64"
  shows "(run_action wordexp c (action_code a) st = Inl BufferOverflow \<and> a = Term \<and>
        raw_text r \<noteq> [] \<and> \<not> fine wordexp defs r) \<or>
    (\<exists>st'. run_action wordexp c (action_code a) st = Inr (False, st') \<and>
      sim wordexp defs others h0 m0 st' (has_after a hc r) (scan_act c a (r, out)) \<and>
      cs (fsm st') = cs (fsm st)) \<or>
    (\<exists>st'. run_action wordexp c (action_code a) st = Inr (True, st') \<and> a = Term \<and>
      raw_text r \<noteq> [] \<and> \<not> fine wordexp defs r \<and>
      sim wordexp defs others h0 m0 st' hc (r, out) \<and> cs (fsm st') = cs (fsm st))"
proof (cases a)
  case Append
  with sim_append [of wordexp defs others h0 m0 st r out c a] sim ok show ?thesis by auto
next
  case Append_In
  with sim_append [of wordexp defs others h0 m0 st r out c a] sim ok show ?thesis by auto
next
  case Append_Out
  with sim_append [of wordexp defs others h0 m0 st r out c a] sim ok show ?thesis by auto
next
  case New
  with sim_new [of wordexp defs others h0 m0 st r out] sim ok show ?thesis
    by (auto simp: run_action_def)
next
  case Pipe
  with sim_connect [of wordexp defs others h0 m0 st r out "\<lambda>_. commandConnectionPipe"] sim ok
  show ?thesis by (auto simp: run_action_def)
next
  case Bg
  with sim_connect [of wordexp defs others h0 m0 st r out "\<lambda>_. commandConnectionBackground"] sim ok
  show ?thesis by (auto simp: run_action_def)
next
  case Seq
  with sim_connect [of wordexp defs others h0 m0 st r out make_sequential] sim ok
  show ?thesis by (auto simp: run_action_def make_sequential_def)
next
  case Term
  show ?thesis
  proof (cases "raw_text r = []")
    case True
    then have "buflen (fsm st) = 0" using sim by (simp add: sim_def fsm_ok_def)
    with Term True sim show ?thesis by (auto simp: run_action_def do_term_def)
  next
    case False
    with ok Term have "hc" by simp
    with sim_term_text [of wordexp defs others h0 m0 st r out] sim False small Term show ?thesis
      by (auto simp: run_action_def)
  qed
qed


lemma scan_act_grows: "set (snd x) \<subseteq> set (snd (scan_act c a x))"
  by (cases x; cases a) auto

lemma scan_acts_grow: "set (snd x) \<subseteq> set (snd (fold (scan_act c) as x))"
proof (induction as arbitrary: x)
  case (Cons a as)
  show ?case using scan_act_grows [of x c a] Cons.IH [of "scan_act c a x"] by auto
qed simp

lemma scan_act_length: "length (snd (scan_act c a x)) \<le> Suc (length (snd x))"
  by (cases x; cases a) auto

lemma scan_acts_length: "length (snd (fold (scan_act c) as x)) \<le> length (snd x) + length as"
proof (induction as arbitrary: x)
  case (Cons a as)
  show ?case using scan_act_length [of c a x] Cons.IH [of "scan_act c a x"] by simp
qed simp

lemma scan_grows: "scan s rest p x = (t, q, y) \<Longrightarrow> set (snd x) \<subseteq> set (snd y)"
proof (induction s rest p x rule: scan.induct)
  case (2 s c rest p x)
  obtain u as where d: "parser_delta s (char_class c) = (u, as)" by fastforce
  show ?case
  proof (cases "u = Failed")
    case True
    with "2.prems" d scan_acts_grow [of x c as] show ?thesis by auto
  next
    case False
    with "2.prems" d have "scan u rest (Suc p) (fold (scan_act c) as x) = (t, q, y)" by simp
    with "2.IH" [OF d [symmetric] refl refl False] scan_acts_grow [of x c as] show ?thesis by auto
  qed
qed simp

lemma sim_actions:
  assumes "sim wordexp defs others h0 m0 st hc x" "actions_ok c as hc x"
    and "length (snd x) + length as < 2 ^ 64"
  shows "(run_actions wordexp c (map action_code as) st = Inl BufferOverflow \<and>
        (\<exists>z \<in> set (snd (fold (scan_act c) as x)). \<not> fine wordexp defs z)) \<or>
    (\<exists>st'. run_actions wordexp c (map action_code as) st = Inr (False, st') \<and>
      sim wordexp defs others h0 m0 st' (has_after_all c as hc x) (fold (scan_act c) as x) \<and>
      cs (fsm st') = cs (fsm st)) \<or>
    (\<exists>st' hc' x'. run_actions wordexp c (map action_code as) st = Inr (True, st') \<and>
      (\<exists>z \<in> set (snd (fold (scan_act c) as x)). \<not> fine wordexp defs z) \<and>
      sim wordexp defs others h0 m0 st' hc' x' \<and> cs (fsm st') = cs (fsm st) \<and> as \<noteq> [])"
  using assms
proof (induction as arbitrary: st hc x)
  case Nil
  then show ?case by auto
next
  case (Cons a as)
  obtain r out where x: "x = (r, out)" by fastforce
  let ?x = "scan_act c a x"
  have ok: "action_ok c a hc r" "actions_ok c as (has_after a hc r) ?x"
    using Cons.prems(2) x by auto
  have small: "Suc (length out) < 2 ^ 64" using Cons.prems(3) x by simp
  have last: "r \<in> set (snd (fold (scan_act c) (a # as) x))" if "a = Term" "raw_text r \<noteq> []"
    using scan_acts_grow [of ?x c as] that x by auto
  from sim_action [OF Cons.prems(1) [unfolded x] ok(1) small] show ?case
  proof (elim disjE conjE exE)
    assume "run_action wordexp c (action_code a) st = Inl BufferOverflow" "a = Term" "raw_text r \<noteq> []"
      "\<not> fine wordexp defs r"
    then show ?thesis using last by auto
  next
    fix st' assume "run_action wordexp c (action_code a) st = Inr (True, st')" "a = Term" "raw_text r \<noteq> []"
      "\<not> fine wordexp defs r" "sim wordexp defs others h0 m0 st' hc (r, out)" "cs (fsm st') = cs (fsm st)"
    then show ?thesis using last by auto
  next
    fix st1 assume r1: "run_action wordexp c (action_code a) st = Inr (False, st1)"
      "sim wordexp defs others h0 m0 st1 (has_after a hc r) (scan_act c a (r, out))"
      "cs (fsm st1) = cs (fsm st)"
    have "length (snd ?x) + length as < 2 ^ 64"
      using scan_act_length [of c a x] Cons.prems(3) by simp
    have run: "run_actions wordexp c (map action_code (a # as)) st = run_actions wordexp c (map action_code as) st1"
      using r1(1) by simp
    have flds: "fold (scan_act c) (a # as) x = fold (scan_act c) as ?x"
      "has_after_all c (a # as) hc x = has_after_all c as (has_after a hc r) ?x"
      using x by simp_all
    from Cons.IH [OF r1(2) [folded x] ok(2) \<open>length (snd ?x) + length as < 2 ^ 64\<close>] r1(3)
    show ?thesis unfolding run flds by (elim disjE conjE exE) auto
  qed
qed

text \<open>Only a rejected expansion writes a message.\<close>

lemma finish_command_brk: "finish_command wordexp st = Inr (b, st') \<Longrightarrow> \<not> b \<and> messages st' = messages st"
  by (auto simp: finish_command_def Let_def rbind_eq_Inr_iff case_prod_beta)

lemma run_action_messages:
  "run_action wordexp c a st = Inr (b, st') \<Longrightarrow>
   messages st' = messages st @ (if b then illegal_message else [])"
  by (auto simp: run_action_def set_fsm_def do_new_def do_term_def connect_def Let_def rbind_eq_Inr_iff
      case_prod_beta split: if_splits dest!: finish_command_brk)

lemma run_actions_messages:
  "run_actions wordexp c as st = Inr (b, st') \<Longrightarrow>
   messages st' = messages st @ (if b then illegal_message else [])"
proof (induction as arbitrary: st)
  case (Cons a as)
  then obtain brk st1 where r: "run_action wordexp c a st = Inr (brk, st1)"
    "(if brk then Inr (True, st1) else run_actions wordexp c as st1) = Inr (b, st')"
    by (auto simp: rbind_eq_Inr_iff)
  with run_action_messages [OF r(1)] Cons.IH [of st1] show ?case by (cases brk) simp_all
qed simp

section \<open>The whole input\<close>

lemma delta_facts:
  "parser_delta s k = (t, as) \<Longrightarrow> length as \<le> 3"
  "parser_delta s k = (Failed, as) \<Longrightarrow> as = []"
  "parser_delta s k = (Done, as) \<Longrightarrow> k = Nul"
  by (cases s; cases k; auto simp: parser_delta_def)+

lemma sim_cs:
  "sim wordexp defs others h0 m0 st hc x \<Longrightarrow>
   sim wordexp defs others h0 m0 (st\<lparr>fsm := (fsm st)\<lparr>cs := n\<rparr>\<rparr>) hc x"
  by (cases x) (auto simp: sim_def intro: sim_fsm [unfolded sim_def] simp: fsm_ok_def
      queue_ok_def heaps_ok_def current_ok_def cong: option.case_cong)

lemma sim_exec:
  assumes "sim wordexp defs others h0 m0 st (s \<noteq> Start) x" "reading_line s x"
    and "s \<noteq> Done" "s \<noteq> Failed" "cs (fsm st) = state_code s" "c_string line"
    and "length (snd x) + 3 * Suc (length line) < 2 ^ 64"
    and "scan s (line @ [NUL]) p x = (t, q, y)"
  shows "(exec wordexp (line @ [NUL]) p st = Inl BufferOverflow \<and> (\<exists>z \<in> set (snd y). \<not> fine wordexp defs z)) \<or>
    (\<exists>st' hc. exec wordexp (line @ [NUL]) p st = Inr (q, st') \<and>
      sim wordexp defs others h0 m0 st' hc y \<and> cs (fsm st') = state_code t \<and>
      messages st' = messages st) \<or>
    (\<exists>st' p' hc x' u. exec wordexp (line @ [NUL]) p st = Inr (p', st') \<and>
      (\<exists>z \<in> set (snd y). \<not> fine wordexp defs z) \<and>
      sim wordexp defs others h0 m0 st' hc x' \<and> cs (fsm st') = state_code u \<and> u \<noteq> Failed \<and>
      messages st' = messages st @ illegal_message)"
  using assms
proof (induction "line @ [NUL]" arbitrary: line s st p x)
  case Nil
  then show ?case by simp
next
  case (Cons c rest)
  obtain u as where d: "parser_delta s (char_class c) = (u, as)" by fastforce
  obtain r out where x: "x = (r, out)" by fastforce
  note step = parser_step_delta [OF d \<open>s \<noteq> Failed\<close>]
  note acts = delta_actions_ok [OF Cons.prems(2) [unfolded x] Cons.prems(3,4) d, folded x]
  let ?st = "st\<lparr>fsm := (fsm st)\<lparr>cs := state_code u\<rparr>\<rparr>"
  let ?x = "fold (scan_act c) as x"
  have line: "line @ [NUL] = c # rest" using Cons.hyps(2) by simp
  have small: "length (snd x) + length as < 2 ^ 64"
    using Cons.prems(7) delta_facts(1) [OF d] by simp
  have zero: "state_code v = 0 \<longleftrightarrow> v = Failed" for v by (cases v) simp_all
  have scan: "(if u = Failed then (Failed, p, ?x) else scan u rest (Suc p) ?x) = (t, q, y)"
    using Cons.prems(8) d unfolding line by (cases "u = Failed") (simp_all add: Let_def)
  have grow: "set (snd ?x) \<subseteq> set (snd y)"
    using scan scan_grows [of u rest "Suc p" ?x] by (auto split: if_splits)
  have exec: "exec wordexp (line @ [NUL]) p st =
      rbind (run_actions wordexp c (map action_code as) ?st) (\<lambda>(brk, st1).
        if brk then Inr (Suc p, st1)
        else if cs (fsm st1) = 0 then Inr (p, st1)
        else exec wordexp rest (Suc p) st1)"
    unfolding line using step Cons.prems(5) by simp
  from sim_actions [OF sim_cs [OF Cons.prems(1)] acts(1) small, of "state_code u"] show ?case
  proof (elim disjE conjE exE)
    assume "run_actions wordexp c (map action_code as) ?st = Inl BufferOverflow"
      "\<exists>z \<in> set (snd ?x). \<not> fine wordexp defs z"
    then show ?thesis unfolding exec using grow by auto
  next
    fix st' hc' x'
    assume brk: "run_actions wordexp c (map action_code as) ?st = Inr (True, st')"
      "\<exists>z \<in> set (snd ?x). \<not> fine wordexp defs z" "sim wordexp defs others h0 m0 st' hc' x'"
      "cs (fsm st') = cs (fsm ?st)" "as \<noteq> []"
    have u: "u \<noteq> Failed" using delta_facts(2) d brk(5) by metis
    have e: "exec wordexp (line @ [NUL]) p st = Inr (Suc p, st')" unfolding exec using brk(1) by simp
    have c: "cs (fsm st') = state_code u" using brk(4) by simp
    have z: "\<exists>z \<in> set (snd y). \<not> fine wordexp defs z" using brk(2) grow by blast
    have m: "messages st' = messages st @ illegal_message" using run_actions_messages [OF brk(1)] by simp
    show ?thesis by (intro disjI2) (use e z brk(3) c u m in blast)
  next
    fix st1
    assume r1: "run_actions wordexp c (map action_code as) ?st = Inr (False, st1)"
      "sim wordexp defs others h0 m0 st1 (has_after_all c as (s \<noteq> Start) x) ?x"
      "cs (fsm st1) = cs (fsm ?st)"
    have m1: "messages st1 = messages st" using run_actions_messages [OF r1(1)] by simp
    show ?thesis
    proof (cases "u = Failed")
      case True
      with r1 scan m1 show ?thesis unfolding exec by auto
    next
      case False
      then have run: "exec wordexp (line @ [NUL]) p st = exec wordexp rest (Suc p) st1"
        unfolding exec using r1(1,3) zero [of u] by simp
      have read: "reading_line u ?x" using Cons.prems(2) d by (rule reading_step)
      show ?thesis
      proof (cases line)
        case Nil
        then have rest: "rest = []" using line by simp
        have "(t, q, y) = (u, Suc p, ?x)" using scan False rest by simp
        then show ?thesis unfolding run using rest r1(2,3) m1 by auto
      next
        case (Cons c' line')
        then have cl: "c = c'" "rest = line' @ [NUL]" using line by auto
        have "c \<noteq> NUL" using Cons.prems(6) Cons cl(1) by simp
        then have "u \<noteq> Done" using delta_facts(3) d char_class_Nul by metis
        note after = acts(2) [OF False this]
        have sim1: "sim wordexp defs others h0 m0 st1 (u \<noteq> Start) ?x" using r1(2) after by simp
        have cs1: "cs (fsm st1) = state_code u" using r1(3) by simp
        have "length (snd ?x) + 3 * Suc (length line') < 2 ^ 64"
          using scan_acts_length [of c as x] delta_facts(1) [OF d] Cons.prems(7) Cons by simp
        moreover have "scan u (line' @ [NUL]) (Suc p) ?x = (t, q, y)" using scan False cl(2) by simp
        ultimately show ?thesis
          unfolding run cl(2) m1 [symmetric]
          using Cons.hyps(1) [OF cl(2) sim1 read \<open>u \<noteq> Done\<close> False cs1] Cons.prems(6) Cons by simp
      qed
    qed
  qed
qed

end
