(* ===== verification/Parse_Input.thy ===== *)
theory Parse_Input
  imports Parser_Correct
begin

text \<open>
  The whole of \<open>parseInput\<close>: from an input line to the queue of commands, on every path of the
  code (a line read to its end, a syntax error, an expansion that \<open>wordexp\<close> rejects), with the
  state it leaves: which commands are queued, that nothing else of what was allocated is left.
\<close>

section \<open>Contract\<close>

definition parser_ready :: "(string \<times> string) list \<Rightarrow> strheap \<Rightarrow> params \<Rightarrow> parse_state \<Rightarrow> bool" where
  "parser_ready defs others junk st \<longleftrightarrow>
     length (buffer junk) = Suc BUFSIZE \<and> length (fsm_stdin junk) = Suc BUFSIZE \<and>
     length (fsm_stdout junk) = Suc BUFSIZE \<and>
     alias_ok (aliases st) others \<and> describes defs (aliases st) \<and>
     released (aliases st) = alias_lookup (aliases st) \<and> False \<notin> set (al_oom (aliases st))"

text \<open>\<open>queued\<close>: the queue of \<open>st'\<close> holds one live command per element of \<open>rs\<close>, in order; the
  only objects it adds to those of \<open>st\<close> are these commands, their strings and the queue nodes.\<close>

definition queued ::
    "(string \<Rightarrow> string list option) \<Rightarrow> (string \<times> string) list \<Rightarrow> strheap \<Rightarrow> parse_state \<Rightarrow>
     raw_command list \<Rightarrow> parse_state \<Rightarrow> bool" where
  "queued wordexp defs others st rs st' \<longleftrightarrow>
     (\<exists>ptrs. queue_ok wordexp defs (nodes st) st' rs ptrs \<and>
        alias_ok (aliases st') (strings_of (commands st') ptrs + others) \<and>
        describes defs (aliases st') \<and> released (aliases st') = alias_lookup (aliases st') \<and>
        False \<notin> set (al_oom (aliases st')) \<and>
        cells_grew (commands st) (commands st') (set ptrs))"

text \<open>The commands a line hands to the expansion, also when it turns out to be wrong later.\<close>

definition attempted :: "string \<Rightarrow> raw_command list" where
  "attempted line = snd (snd (snd (scan Start (line @ [NUL]) 0 (blank_raw, []))))"

definition all_fine ::
    "(string \<Rightarrow> string list option) \<Rightarrow> (string \<times> string) list \<Rightarrow> string \<Rightarrow> bool" where
  "all_fine wordexp defs line \<longleftrightarrow> list_all (fine wordexp defs) (attempted line)"

section \<open>Start and end of the loop\<close>

lemma start_state_run:
  assumes "parser_ready defs others junk st"
  shows "\<exists>st0. start_state junk st = Inr st0 \<and>
    sim wordexp defs others (commands st) (nodes st) st0 False (blank_raw, []) \<and>
    cs (fsm st0) = state_code Start \<and> messages st0 = messages st"
proof -
  let ?oom = "al_oom (aliases st)"
  let ?oom1 = "snd (alloc_ok ?oom)"
  let ?oom2 = "snd (alloc_ok ?oom1)"
  let ?q = "\<lparr>queue_count = 0, head = None, tail = None\<rparr>"
  let ?st0 = "st\<lparr>fsm := junk\<lparr>buflen := 0, cs := parser_start\<rparr>, queue := Some ?q, command := None,
      aliases := (aliases st)\<lparr>al_oom := ?oom2\<rparr>\<rparr>"
  have r: "length (buffer junk) = Suc BUFSIZE" "length (fsm_stdin junk) = Suc BUFSIZE"
    "length (fsm_stdout junk) = Suc BUFSIZE"
    "alias_ok (aliases st) others" "describes defs (aliases st)"
    "released (aliases st) = alias_lookup (aliases st)" "False \<notin> set ?oom"
    using assms by (auto simp: parser_ready_def)
  have a1: "fst (alloc_ok ?oom)" "False \<notin> set ?oom1"
    using r(7) alloc_ok_False alloc_ok_subset by blast+
  have a2: "fst (alloc_ok ?oom1)" "False \<notin> set ?oom2"
    using a1(2) alloc_ok_False alloc_ok_subset by blast+
  have run: "start_state junk st = Inr ?st0"
    using a1(1) a2(1) by (simp add: start_state_def queueNew_def case_prod_beta)
  have "holds_nodes ?q (nodes st) []" by (simp add: holds_nodes_def)
  then have "queue_ok wordexp defs (nodes st) ?st0 [] []"
    unfolding queue_ok_def by (intro conjI exI [of _ ?q] exI [of _ "[]"]) (simp_all add: items_def cells_grew_def)
  moreover have "heaps_ok defs others (commands st) ?st0 []"
    using r a2(2)
    by (auto simp: heaps_ok_def strings_of_def cells_grew_def describes_def available_def released_def)
  moreover have "current_ok ?st0 False blank_raw []" by (simp add: current_ok_def)
  moreover have "fsm_ok (fsm ?st0) False blank_raw" using r(1-3) by (simp add: fsm_ok_def)
  ultimately have "sim wordexp defs others (commands st) (nodes st) ?st0 False (blank_raw, [])"
    unfolding sim_def by (intro conjI exI [of _ "[]"]) simp_all
  moreover have "cs (fsm ?st0) = state_code Start" by (simp add: parser_start_def)
  ultimately show ?thesis using run by fastforce
qed

lemma drop_command_run:
  assumes "sim wordexp defs others (commands st) (nodes st) st1 hc (r, out)"
  shows "\<exists>st2. drop_command st1 = Inr st2 \<and> queued wordexp defs others st out st2 \<and>
    messages st2 = messages st1"
proof -
  from assms obtain ptrs where s: "queue_ok wordexp defs (nodes st) st1 out ptrs"
    "heaps_ok defs others (commands st) st1 ptrs" "current_ok st1 hc r ptrs"
    by (auto simp: sim_def)
  show ?thesis
  proof (cases "command st1")
    case None
    then show ?thesis using s by (auto simp: drop_command_def queued_def heaps_ok_def)
  next
    case (Some a)
    let ?h = "(commands st1)[a := None]"
    let ?st2 = "st1\<lparr>commands := ?h\<rparr>"
    have a: "a \<notin> set ptrs" "live_at (commands st1) a"
      using s(3) Some by (auto simp: current_ok_def)
    have same: "live_at ?h b = live_at (commands st1) b" "object_at ?h b = object_at (commands st1) b"
      if "b \<in> set ptrs" for b
      using that a(1) by (metis live_at_release, metis object_at_release)
    have "queue_ok wordexp defs (nodes st) ?st2 out ptrs"
      using s(1) same unfolding queue_ok_def
      by (auto elim!: list.rel_mono_strong)
    moreover have "strings_of ?h ptrs = strings_of (commands st1) ptrs"
      using same(2) by (simp add: strings_of_def cong: map_cong)
    moreover have "cells_grew (commands st) (commands st1) (set ptrs \<union> {a})"
      using s(2) Some by (simp add: heaps_ok_def)
    then have "cells_grew (commands st) ?h (set ptrs)"
      using a(1) by (auto simp: cells_grew_def)
    ultimately have "queued wordexp defs others st out ?st2"
      using s(2) unfolding queued_def heaps_ok_def by (intro exI [of _ ptrs]) simp
    then show ?thesis using Some a(2) by (simp add: drop_command_def release_live)
  qed
qed

section \<open>Freeing the queue\<close>

declare strings_of_Cons [simp]

lemma run_frees_commands:
  assumes "distinct ptrs" "\<forall>a \<in> set ptrs. live_at h a \<and> command_ok (object_at h a)"
  shows "run_frees (map (\<lambda>a. (commandFree, Some a)) ptrs) (h, strings_of h ptrs + S) =
    Inr (release_nodes ptrs h, S)"
  using assms
proof (induction ptrs arbitrary: h)
  case (Cons a ptrs)
  let ?h = "h[a := None]"
  have "commandFree (Some a) (h, strings_of h (a # ptrs) + S) = Inr (?h, strings_of ?h ptrs + S)"
    using Cons.prems commandFree_run [of h a "strings_of h ptrs + S"]
    by (simp add: add.assoc strings_of_release)
  moreover have live: "\<forall>b \<in> set ptrs. live_at ?h b \<and> command_ok (object_at ?h b)"
    using Cons.prems by (metis distinct.simps(2) list.set_intros(2) live_at_release object_at_release)
  have "distinct ptrs" using Cons.prems(1) by simp
  from Cons.IH [OF this live]
  have "run_frees (map (\<lambda>a. (commandFree, Some a)) ptrs) (?h, strings_of ?h ptrs + S) =
    Inr (release_nodes ptrs ?h, S)" .
  ultimately show ?case by (simp del: strings_of_Cons)
qed simp

lemma cells_grew_release_all:
  "cells_grew h0 h (set as \<union> N) \<Longrightarrow> set as \<inter> N = {} \<Longrightarrow> \<forall>a \<in> set as. \<not> live_at h0 a \<Longrightarrow>
   cells_grew h0 (release_nodes as h) N"
  by (auto simp: cells_grew_def release_nodes_live release_nodes_object)

lemma queue_free_commands:
  assumes "queue_ok wordexp defs m0 st out ptrs"
  shows "\<exists>as. (\<forall>S. queueFree (queue st) (nodes st) (commands st, strings_of (commands st) ptrs + S) =
      Inr (release_nodes as (nodes st), release_nodes ptrs (commands st), S)) \<and>
    cells_grew m0 (release_nodes as (nodes st)) {}"
proof -
  obtain q as where q: "queue st = Some q" "holds_nodes q (nodes st) as" "items (nodes st) as = map Some ptrs"
    "\<forall>a \<in> set as. freeFunction (object_at (nodes st) a) = commandFree" "cells_grew m0 (nodes st) (set as)"
    using assms by (auto simp: queue_ok_def)
  have d: "distinct ptrs" "\<forall>a \<in> set ptrs. live_at (commands st) a \<and> command_ok (object_at (commands st) a)"
    using assms by (auto simp: queue_ok_def list_all2_conv_all_nth in_set_conv_nth)
  have "map (\<lambda>a. (commandFree, data (object_at (nodes st) a))) as =
      map (\<lambda>x. (commandFree, x)) (items (nodes st) as)"
    by (simp add: items_def)
  then have "pending (nodes st) as = map (\<lambda>a. (commandFree, Some a)) ptrs"
    using q(3,4) by (simp add: pending_def cong: map_cong)
  then have "queueFree (queue st) (nodes st) (commands st, strings_of (commands st) ptrs + S) =
      Inr (release_nodes as (nodes st), release_nodes ptrs (commands st), S)" for S
    using queueFree_run [OF q(2)] run_frees_commands [OF d] q(1) by simp
  moreover have "\<forall>a \<in> set as. \<not> live_at m0 a" using q(5) by (auto simp: cells_grew_def)
  then have "cells_grew m0 (release_nodes as (nodes st)) {}"
    using cells_grew_release_all [of m0 "nodes st" as "{}"] q(5) by simp
  ultimately show ?thesis by blast
qed

section \<open>The outcome\<close>

lemma report_error_first: "report_error inp 0 st = Inl OutOfBounds"
  by (simp add: report_error_def byte_at_def)

lemma report_error_run:
  assumes "sim wordexp defs others (commands st) (nodes st) st1 hc (r, out)" "Suc p < length inp"
  shows "\<exists>st2. report_error inp (Suc p) st1 = Inr st2 \<and>
    sim wordexp defs others (commands st) (nodes st) st2 hc (r, []) \<and>
    messages st2 = messages st1 @ error_message (inp ! p) (inp ! Suc p)"
proof -
  from assms obtain ptrs where s: "fsm_ok (fsm st1) hc r" "queue_ok wordexp defs (nodes st) st1 out ptrs"
    "heaps_ok defs others (commands st) st1 ptrs" "current_ok st1 hc r ptrs"
    by (auto simp: sim_def)
  obtain as where free: "\<And>S. queueFree (queue st1) (nodes st1) (commands st1, strings_of (commands st1) ptrs + S) =
      Inr (release_nodes as (nodes st1), release_nodes ptrs (commands st1), S)"
    "cells_grew (nodes st) (release_nodes as (nodes st1)) {}"
    using queue_free_commands [OF s(2)] by metis
  obtain ht where ht: "al_table (aliases st1) = Some ht" "alias_config ht"
    "heap_ok (al_cells (aliases st1)) (mset (ht_entries ht))"
    "al_strings (aliases st1) = owned (al_cells (aliases st1)) (mset (ht_entries ht)) +
       (strings_of (commands st1) ptrs + others)"
    using s(3) by (auto simp: heaps_ok_def alias_ok_def split: option.splits)
  let ?S = "owned (al_cells (aliases st1)) (mset (ht_entries ht)) + others"
  have strs: "al_strings (aliases st1) = strings_of (commands st1) ptrs + ?S"
    using ht(4) by (simp add: ac_simps)
  let ?oom = "al_oom (aliases st1)"
  have mem: "False \<notin> set ?oom" using s(3) by (simp add: heaps_ok_def)
  then have a1: "fst (alloc_ok ?oom)" "False \<notin> set (snd (alloc_ok ?oom))"
    using alloc_ok_False alloc_ok_subset by blast+
  let ?q = "\<lparr>queue_count = 0, head = None, tail = None\<rparr>"
  let ?h = "release_nodes ptrs (commands st1)"
  let ?al = "(aliases st1)\<lparr>al_oom := snd (alloc_ok ?oom), al_strings := ?S\<rparr>"
  let ?st2 = "st1\<lparr>messages := messages st1 @ error_message (inp ! p) (inp ! Suc p), queue := Some ?q,
      nodes := release_nodes as (nodes st1), commands := ?h, aliases := ?al\<rparr>"
  have run: "report_error inp (Suc p) st1 = Inr ?st2"
    using assms(2) a1(1) free(1) [of ?S]
    by (simp add: report_error_def byte_at_def strs queueNew_def case_prod_beta nat_add_distrib)
  have "holds_nodes ?q (nodes ?st2) []" by (simp add: holds_nodes_def)
  then have "queue_ok wordexp defs (nodes st) ?st2 [] []"
    using free(2) unfolding queue_ok_def
    by (intro conjI exI [of _ ?q] exI [of _ "[]"]) (simp_all add: items_def)
  moreover have "cells_grew (commands st) ?h (set_option (command st1))"
    using s(3,4) cells_grew_release_all [of "commands st" "commands st1" ptrs "set_option (command st1)"]
    by (auto simp: heaps_ok_def current_ok_def cells_grew_def split: option.splits)
  then have "heaps_ok defs others (commands st) ?st2 []"
    using s(3) ht(1-3) a1(2)
    by (auto simp: heaps_ok_def describes_def available_def released_def alias_lookup_def alias_ok_def)
  moreover have "current_ok ?st2 hc r []"
    using s(4) by (auto simp: current_ok_def release_nodes_live release_nodes_object split: option.splits)
  ultimately have "sim wordexp defs others (commands st) (nodes st) ?st2 hc (r, [])"
    using s(1) unfolding sim_def by (intro conjI exI [of _ "[]"]) simp_all
  with run show ?thesis by fastforce
qed

lemma exec_first_byte:
  assumes "parser_delta Start (char_class c) = (Failed, as)" "cs (fsm st) = state_code Start"
  shows "exec wordexp (c # rest) 0 st = Inr (0, st\<lparr>fsm := (fsm st)\<lparr>cs := 0\<rparr>\<rparr>)"
  using parser_step_delta [OF assms(1)] assms delta_facts(2) [OF assms(1)] by simp

lemma length_cstr: "length (cstr s) \<le> length s"
  by (simp add: cstr_def length_takeWhile_le)

lemma scan_position:
  "scan s bytes p x = (Failed, q, y) \<Longrightarrow> s \<noteq> Failed \<Longrightarrow> p \<le> q \<and> q < p + length bytes"
proof (induction s bytes p x rule: scan.induct)
  case (2 s c rest p x)
  obtain u as where d: "parser_delta s (char_class c) = (u, as)" by fastforce
  show ?case
  proof (cases "u = Failed")
    case True
    with 2 d show ?thesis by (auto simp: Let_def)
  next
    case False
    with "2.prems" d have "scan u rest (Suc p) (fold (scan_act c) as x) = (Failed, q, y)" by simp
    from "2.IH" [OF d [symmetric] refl refl False this False] show ?thesis by simp
  qed
qed simp

lemma scan_first_byte:
  assumes "scan Start (c # rest) 0 x = (Failed, 0, y)"
  shows "y = x"
proof -
  obtain u as where d: "parser_delta Start (char_class c) = (u, as)" by fastforce
  have "u = Failed"
  proof (rule ccontr)
    assume u: "u \<noteq> Failed"
    then have "scan u rest 1 (fold (scan_act c) as x) = (Failed, 0, y)" using assms d by simp
    from scan_position [OF this u] show False by simp
  qed
  then show ?thesis using assms d delta_facts(2) [of Start "char_class c" as] by simp
qed

text \<open>What follows the loop: report and empty the queue after an error, drop the open command.\<close>

definition conclude :: "string \<Rightarrow> nat \<times> parse_state \<Rightarrow> fault + parse_state" where
  "conclude inp x =
     rbind (if cs (fsm (snd x)) = parser_error then report_error inp (fst x) (snd x) else Inr (snd x)) drop_command"

lemma parseInput_conclude:
  "start_state junk st = Inr st0 \<Longrightarrow>
   parseInput wordexp input junk st =
     rbind (exec wordexp (cstr input @ [NUL]) 0 st0) (conclude (cstr input @ [NUL]))"
  by (auto simp: parseInput_def conclude_def Let_def case_prod_beta intro!: arg_cong2 [where f = rbind])

lemma parser_error_code: "state_code u = parser_error \<longleftrightarrow> u = Failed"
  by (cases u) (simp_all add: parser_error_def)

lemma conclude_ok:
  assumes "sim wordexp defs others (commands st) (nodes st) st1 hc x" "cs (fsm st1) = state_code u"
    and "u \<noteq> Failed"
  shows "\<exists>st'. conclude inp (q, st1) = Inr st' \<and> queued wordexp defs others st (snd x) st' \<and>
    messages st' = messages st1"
  using drop_command_run [of wordexp defs others st st1 hc "fst x" "snd x"] assms
  by (auto simp: conclude_def parser_error_code)

lemma conclude_error:
  assumes "sim wordexp defs others (commands st) (nodes st) st1 hc x" "cs (fsm st1) = state_code Failed"
    and "q < length inp"
  shows "if q = 0 then conclude inp (q, st1) = Inl OutOfBounds
    else \<exists>st'. conclude inp (q, st1) = Inr st' \<and> queued wordexp defs others st [] st' \<and>
      messages st' = messages st1 @ error_message (inp ! (q - 1)) (inp ! q)"
proof (cases q)
  case 0
  then show ?thesis using assms(2) by (simp add: conclude_def report_error_first parser_error_def)
next
  case (Suc p)
  obtain r out where x: "x = (r, out)" by fastforce
  obtain st2 where "report_error inp (Suc p) st1 = Inr st2"
    "sim wordexp defs others (commands st) (nodes st) st2 hc (r, [])"
    "messages st2 = messages st1 @ error_message (inp ! p) (inp ! Suc p)"
    using report_error_run [OF assms(1) [unfolded x]] assms(3) Suc by blast
  with drop_command_run [of wordexp defs others st st2 hc r "[]"] assms(2) Suc show ?thesis
    by (auto simp: conclude_def parser_error_def)
qed

text \<open>Every way \<open>parseInput\<close> can end.\<close>

lemma parseInput_runs:
  assumes ready: "parser_ready defs others junk st" and small: "length input < 2 ^ 62"
    and scan: "scan Start (cstr input @ [NUL]) 0 (blank_raw, []) = (t, q, r, out)"
  shows "(\<exists>st1 hc. parseInput wordexp input junk st = conclude (cstr input @ [NUL]) (q, st1) \<and>
      sim wordexp defs others (commands st) (nodes st) st1 hc (r, out) \<and>
      cs (fsm st1) = state_code t \<and> messages st1 = messages st) \<or>
    \<not> all_fine wordexp defs (cstr input) \<and>
      (parseInput wordexp input junk st = Inl BufferOverflow \<or>
       (\<exists>st1 q' hc x u. parseInput wordexp input junk st = conclude (cstr input @ [NUL]) (q', st1) \<and>
         sim wordexp defs others (commands st) (nodes st) st1 hc x \<and>
         cs (fsm st1) = state_code u \<and> u \<noteq> Failed))"
proof -
  obtain st0 where st0: "start_state junk st = Inr st0"
    "sim wordexp defs others (commands st) (nodes st) st0 (Start \<noteq> Start) (blank_raw, [])"
    "cs (fsm st0) = state_code Start" "messages st0 = messages st"
    using start_state_run [OF ready] by auto
  have att: "attempted (cstr input) = out" using scan by (simp add: attempted_def)
  have read: "reading_line Start (blank_raw, [])" by (simp add: reading_line_def reading_def)
  have small': "length (snd (blank_raw, [] :: raw_command list)) + 3 * Suc (length (cstr input)) < 2 ^ 64"
    using small length_cstr [of input] by simp
  note run = parseInput_conclude [OF st0(1), of wordexp input]
  have bad: "\<not> all_fine wordexp defs (cstr input)" if "\<exists>z \<in> set (snd (r, out)). \<not> fine wordexp defs z"
    using that by (auto simp: all_fine_def att list_all_iff)
  have start: "Start \<noteq> Done" "Start \<noteq> Failed" by simp_all
  from sim_exec [OF st0(2) read start st0(3) c_string_cstr small' scan] show ?thesis
  proof (elim disjE conjE exE, goal_cases)
    case 1
    then show ?case unfolding run using bad by simp
  next
    case (2 st1 hc)
    then show ?case unfolding run using st0(4) by (intro disjI1 exI [of _ st1] exI [of _ hc]) simp
  next
    case (3 st1 q' hc x u)
    then show ?case unfolding run using bad [OF 3(2)]
      by (intro disjI2 conjI exI [of _ st1] exI [of _ q'] exI [of _ hc] exI [of _ x] exI [of _ u]) simp_all
  qed
qed

lemma parse_line_scan:
  "parse_line line = Inl p \<Longrightarrow> \<exists>r out. scan Start (line @ [NUL]) 0 (blank_raw, []) = (Failed, p, r, out)"
  "parse_line line = Inr rs \<Longrightarrow> \<exists>p r. scan Start (line @ [NUL]) 0 (blank_raw, []) = (Done, p, r, rs)"
  using scan_ends [of Start line 0 "(blank_raw, [])"]
  by (auto simp: parse_line_def split: prod.splits if_splits)

lemma parseInput_run:
  assumes "parser_ready defs others junk st" "length input < 2 ^ 62"
    and "parse_line (cstr input) = Inr rs" "all_fine wordexp defs (cstr input)"
  shows "\<exists>st'. parseInput wordexp input junk st = Inr st' \<and> queued wordexp defs others st rs st' \<and>
    messages st' = messages st"
proof -
  obtain q r where scan: "scan Start (cstr input @ [NUL]) 0 (blank_raw, []) = (Done, q, r, rs)"
    using parse_line_scan(2) [OF assms(3)] by blast
  from parseInput_runs [OF assms(1,2) scan, of wordexp] assms(4)
  obtain st1 hc where "parseInput wordexp input junk st = conclude (cstr input @ [NUL]) (q, st1)"
    "sim wordexp defs others (commands st) (nodes st) st1 hc (r, rs)"
    "cs (fsm st1) = state_code Done" "messages st1 = messages st"
    by blast
  with conclude_ok [of wordexp defs others st st1 hc "(r, rs)" Done] show ?thesis by simp
qed

lemma parseInput_error_run:
  assumes "parser_ready defs others junk st" "length input < 2 ^ 62"
    and "parse_line (cstr input) = Inl p" "all_fine wordexp defs (cstr input)"
  shows "if p = 0 then parseInput wordexp input junk st = Inl OutOfBounds
    else \<exists>st'. parseInput wordexp input junk st = Inr st' \<and> queued wordexp defs others st [] st' \<and>
      messages st' = messages st @
        error_message ((cstr input @ [NUL]) ! (p - 1)) ((cstr input @ [NUL]) ! p)"
proof -
  obtain r out where scan: "scan Start (cstr input @ [NUL]) 0 (blank_raw, []) = (Failed, p, r, out)"
    using parse_line_scan(1) [OF assms(3)] by blast
  from parseInput_runs [OF assms(1,2) scan, of wordexp] assms(4)
  obtain st1 hc where c: "parseInput wordexp input junk st = conclude (cstr input @ [NUL]) (p, st1)"
    "sim wordexp defs others (commands st) (nodes st) st1 hc (r, out)"
    "cs (fsm st1) = state_code Failed" "messages st1 = messages st"
    by blast
  have "p < length (cstr input @ [NUL])" using scan_position [OF scan] by simp
  from conclude_error [OF c(2,3) this] show ?thesis unfolding c(1,4) .
qed

lemma first_byte_fine: "parse_line line = Inl 0 \<Longrightarrow> all_fine wordexp defs line"
proof -
  assume "parse_line line = Inl 0"
  then obtain r out where scan: "scan Start (line @ [NUL]) 0 (blank_raw, []) = (Failed, 0, r, out)"
    using parse_line_scan(1) by blast
  obtain c rest where "line @ [NUL] = c # rest" by (cases "line @ [NUL]") auto
  with scan_first_byte [of c rest "(blank_raw, [])" "(r, out)"] scan have "out = []" by simp
  with scan show ?thesis by (simp add: all_fine_def attempted_def)
qed


section \<open>Properties\<close>

text \<open>The commands in the queue of \<open>st\<close>, in queue order.\<close>

definition queue_contents :: "parse_state \<Rightarrow> command_t list \<Rightarrow> bool" where
  "queue_contents st qs \<longleftrightarrow>
     (\<exists>q as ptrs. queue st = Some q \<and> holds_nodes q (nodes st) as \<and> items (nodes st) as = map Some ptrs \<and>
        distinct ptrs \<and> (\<forall>a \<in> set ptrs. live_at (commands st) a) \<and> map (object_at (commands st)) ptrs = qs)"

lemma built_fine: "built wordexp defs r c \<Longrightarrow> fine wordexp defs r \<Longrightarrow> build wordexp defs r = Some c"
  by (simp add: built_def)

lemma queued_contents:
  assumes "queued wordexp defs others st rs st'" "list_all (fine wordexp defs) rs"
  shows "\<exists>qs. queue_contents st' qs \<and> map Some qs = map (build wordexp defs) rs"
proof -
  obtain ptrs q as where p: "queue st' = Some q" "holds_nodes q (nodes st') as" "items (nodes st') as = map Some ptrs"
    "distinct ptrs"
    "list_all2 (\<lambda>a r. live_at (commands st') a \<and> command_ok (object_at (commands st') a) \<and>
       built wordexp defs r (object_at (commands st') a)) ptrs rs"
    using assms(1) by (auto simp: queued_def queue_ok_def)
  from p(5) have len: "length ptrs = length rs" by (rule list_all2_lengthD)
  have nth: "live_at (commands st') (ptrs ! i)" "build wordexp defs (rs ! i) = Some (object_at (commands st') (ptrs ! i))"
    if "i < length rs" for i
    using p(5) assms(2) that len by (auto simp: list_all2_conv_all_nth list_all_length built_fine)
  have "map Some (map (object_at (commands st')) ptrs) = map (build wordexp defs) rs"
    using len nth(2) by (auto intro!: nth_equalityI)
  moreover have "\<forall>a \<in> set ptrs. live_at (commands st') a"
    using len nth(1) by (auto simp: in_set_conv_nth)
  ultimately show ?thesis using p(1-4) unfolding queue_contents_def by blast
qed

lemma parse_line_attempted: "parse_line line = Inr rs \<Longrightarrow> attempted line = rs"
  using parse_line_scan(2) [of line rs] by (auto simp: attempted_def)

lemma plain_not_NUL: "plain c \<Longrightarrow> c \<noteq> NUL"
  by (auto simp: plain_def)

lemma word_text_c_string: "word_text s \<Longrightarrow> c_string s"
  using plain_not_NUL by (auto simp: word_text_def c_string_def list_all_iff)

lemma print_raw_c_string: "wf_raw r \<Longrightarrow> c_string (print_raw r)"
  by (auto simp: wf_raw_def print_raw_def NUL_def dest!: word_text_c_string)

lemma print_line_c_string: "wf_line rs \<Longrightarrow> c_string (print_line rs)"
  by (induction rs rule: wf_line.induct) (auto dest: print_raw_c_string simp: NUL_def)



text \<open>C6. From a line to commands: if the line is read as the commands \<open>rs\<close> and their expansions
  succeed, \<open>parseInput\<close> returns a queue that holds exactly the commands built from \<open>rs\<close>, in
  order (alias and wordexp applied to the text, paths and connection set), prints nothing, and
  what it leaves allocated beyond what was there is these commands, their strings and the queue.\<close>

theorem parseInput_commands:
  assumes "parser_ready defs others junk st" "length input < 2 ^ 62"
    and "parse_line (cstr input) = Inr rs" "list_all (fine wordexp defs) rs"
  shows "\<exists>st' qs. parseInput wordexp input junk st = Inr st' \<and> queue_contents st' qs \<and>
    map Some qs = map (build wordexp defs) rs \<and> queued wordexp defs others st rs st' \<and>
    messages st' = messages st"
proof -
  have "all_fine wordexp defs (cstr input)"
    using assms(4) parse_line_attempted [OF assms(3)] by (simp add: all_fine_def)
  from parseInput_run [OF assms(1-3) this] obtain st' where
    "parseInput wordexp input junk st = Inr st'" "queued wordexp defs others st rs st'" "messages st' = messages st"
    by blast
  with queued_contents [OF this(2) assms(4)] show ?thesis by blast
qed

text \<open>C12. Round trip through the whole parser: a well-formed list of commands, printed as a line and
  given to \<open>parseInput\<close>, comes back as the queue of the commands built from it.\<close>

theorem parseInput_print_line:
  assumes "parser_ready defs others junk st" "wf_line rs" "length (print_line rs) < 2 ^ 62"
    and "list_all (fine wordexp defs) rs"
  shows "\<exists>st' qs. parseInput wordexp (print_line rs) junk st = Inr st' \<and> queue_contents st' qs \<and>
    map Some qs = map (build wordexp defs) rs"
proof -
  have p: "parse_line (cstr (print_line rs)) = Inr rs"
    using parse_print_line [OF assms(2)] print_line_c_string [OF assms(2)] by simp
  have "all_fine wordexp defs (cstr (print_line rs))"
    using assms(4) parse_line_attempted [OF p] by (simp add: all_fine_def)
  from parseInput_run [OF assms(1,3) p this] obtain st' where
    "parseInput wordexp (print_line rs) junk st = Inr st'" "queued wordexp defs others st rs st'"
    by blast
  with queued_contents [OF this(2) assms(4)] show ?thesis by blast
qed


text \<open>An error in the first byte of the line makes the report read the byte before the line.\<close>

theorem parseInput_first_byte:
  assumes "parser_ready defs others junk st" "length input < 2 ^ 62" "parse_line (cstr input) = Inl 0"
  shows "parseInput wordexp input junk st = Inl OutOfBounds"
  using parseInput_error_run [OF assms first_byte_fine [OF assms(3)]] by simp



section \<open>Witnesses\<close>

text \<open>A shell with one alias, and a \<open>wordexp\<close> that splits at spaces and rejects a parenthesis.\<close>

fun spaced_words :: "string \<Rightarrow> string \<Rightarrow> string list" where
  "spaced_words w [] = (if w = [] then [] else [rev w])"
| "spaced_words w (c # s) =
     (if c = CHR 0x20 then (if w = [] then spaced_words [] s else rev w # spaced_words [] s)
      else spaced_words (c # w) s)"

definition spaced_wordexp :: "string \<Rightarrow> string list option" where
  "spaced_wordexp s = (if CHR 0x28 \<in> set s then None else Some (spaced_words [] s))"

definition fresh_params :: params where
  "fresh_params = \<lparr>buffer = replicate (Suc BUFSIZE) (CHR ''x''), fsm_stdin = replicate (Suc BUFSIZE) (CHR ''y''),
     fsm_stdout = replicate (Suc BUFSIZE) (CHR ''z''), buflen = 7, stdin_len = 7, stdout_len = 7, cs = 7\<rparr>"

definition fresh_shell :: parse_state where
  "fresh_shell = \<lparr>fsm = fresh_params, queue = None, nodes = [], command = None, commands = [],
     aliases = aliases_after [Add ''ll'' ''ls -l''], messages = []\<rparr>"

abbreviation ll_alias :: "(string \<times> string) list" where
  "ll_alias \<equiv> [(''ll'', ''ls -l'')]"

lemma fresh_shell_ready: "parser_ready ll_alias {#} fresh_params fresh_shell"
proof -
  let ?calls = "[Add ''ll'' ''ls -l'']"
  have "length ?calls \<le> 536870914" by simp
  note ok = aliases_after_ok [OF this]
  have c: "cstr ''ll'' = ''ll''" "cstr ''ls -l'' = ''ls -l''" by (simp_all add: cstr_def NUL_def)
  then have "describes ll_alias (aliases_after ?calls)"
    by (auto simp: describes_def available_def ok(3))
  moreover have "released (aliases_after ?calls) = alias_lookup (aliases_after ?calls)"
    using c by (auto simp: released_def ok(3) fun_eq_iff)
  ultimately show ?thesis
    using ok(1,2) by (simp add: parser_ready_def fresh_shell_def fresh_params_def)
qed

theorem parseInput_commands_witness:
  "\<exists>st' qs. parseInput spaced_wordexp ''ll /tmp | wc > out'' fresh_params fresh_shell = Inr st' \<and>
    queue_contents st' qs \<and> map argv qs =
      [Some [Some ''ls'', Some ''-l'', Some ''/tmp'', None], Some [Some ''wc'', None]]"
proof -
  let ?input = "''ll /tmp | wc > out''"
  let ?rs = "[\<lparr>raw_text = ''ll /tmp '', raw_in = [], raw_out = [], raw_conn = commandConnectionPipe\<rparr>,
    \<lparr>raw_text = ''wc '', raw_in = [], raw_out = ''out'', raw_conn = commandConnectionNone\<rparr>]"
  have "parse_line (cstr ?input) = Inr ?rs" by code_simp
  moreover have "list_all (fine spaced_wordexp ll_alias) ?rs" by code_simp
  moreover have "length ?input < 2 ^ 62" by simp
  ultimately obtain st' qs where r: "parseInput spaced_wordexp ?input fresh_params fresh_shell = Inr st'"
    "queue_contents st' qs" "map Some qs = map (build spaced_wordexp ll_alias) ?rs"
    using parseInput_commands [OF fresh_shell_ready, of ?input ?rs spaced_wordexp] by blast
  have b: "map_option argv (build spaced_wordexp ll_alias (?rs ! 0)) = Some (Some [Some ''ls'', Some ''-l'', Some ''/tmp'', None])"
    "map_option argv (build spaced_wordexp ll_alias (?rs ! 1)) = Some (Some [Some ''wc'', None])"
    by code_simp+
  have "map argv qs = [Some [Some ''ls'', Some ''-l'', Some ''/tmp'', None], Some [Some ''wc'', None]]"
    using r(3) b by (auto simp: map_eq_Cons_conv)
  with r(1,2) show ?thesis by (intro exI conjI)
qed

theorem parseInput_print_line_witness:
  "\<exists>st' qs. parseInput spaced_wordexp ''ls -l<in;pwd&'' fresh_params fresh_shell = Inr st' \<and>
    queue_contents st' qs \<and> length qs = 2"
proof -
  let ?rs = "[\<lparr>raw_text = ''ls -l'', raw_in = ''in'', raw_out = [], raw_conn = commandConnectionSequential\<rparr>,
    \<lparr>raw_text = ''pwd'', raw_in = [], raw_out = [], raw_conn = commandConnectionBackground\<rparr>]"
  have "wf_line ?rs" "list_all (fine spaced_wordexp ll_alias) ?rs" by code_simp+
  moreover have line: "print_line ?rs = ''ls -l<in;pwd&''" by code_simp
  moreover have "length (print_line ?rs) < 2 ^ 62" unfolding line by simp
  ultimately obtain st' qs where "parseInput spaced_wordexp ''ls -l<in;pwd&'' fresh_params fresh_shell = Inr st'"
    "queue_contents st' qs" "map Some qs = map (build spaced_wordexp ll_alias) ?rs"
    using parseInput_print_line [OF fresh_shell_ready, of ?rs spaced_wordexp] by auto
  moreover from this(3) have "length qs = 2" by (metis length_map length_Cons list.size(3) numeral_2_eq_2)
  ultimately show ?thesis by blast
qed


theorem parseInput_first_byte_witness:
  "parseInput spaced_wordexp ''|ls'' fresh_params fresh_shell = Inl OutOfBounds"
proof -
  have "parse_line (cstr ''|ls'') = Inl 0" by code_simp
  moreover have "length ''|ls'' < 2 ^ 62" by simp
  ultimately show ?thesis using parseInput_first_byte [OF fresh_shell_ready, of "''|ls''"] by blast
qed



end
