(* ===== verification/Prompt.thy ===== *)
theory Prompt
  imports Helper
begin

text \<open>
  prompt.c: the prompt text. A \<open>char *\<close> is a block that is on the heap or not; freeing one that is
  not is a fault. The passwd entry and the host name come from the C library and are parameters:
  for the entry, the block of its \<open>pw_name\<close> (\<open>None\<close> when the user is unknown), for the host its
  name. \<open>prompt\<close> is the static variable.
\<close>

section \<open>Data and operations\<close>

datatype block = On_Heap string | Not_On_Heap string

fun block_text :: "block \<Rightarrow> string" where
  "block_text (On_Heap s) = s"
| "block_text (Not_On_Heap s) = s"

fun free_block :: "block \<Rightarrow> strheap \<Rightarrow> fault + strheap" where
  "free_block (On_Heap s) strings = str_free s strings"
| "free_block (Not_On_Heap s) strings = Inl BadPointer"

record prompt_state =
  prompt :: "block option"
  pr_strings :: strheap
  pr_oom :: "bool list"

definition RED :: string where
  "RED = CHR 0x1B # ''[1;31m''"

definition CLEAR :: string where
  "CLEAR = CHR 0x1B # ''[0m''"

definition getusername :: "block option \<Rightarrow> fault + block" where
  "getusername user = (case user of None \<Rightarrow> Inl NullPointer | Some name \<Rightarrow> Inr name)"

text \<open>A host name that fills the buffer is left without its NUL.\<close>

definition gethostname :: "string \<Rightarrow> nat \<Rightarrow> fault + string" where
  "gethostname host len = (if length host < len then Inr host else Inl OutOfBounds)"

definition snprintf :: "nat \<Rightarrow> string \<Rightarrow> string" where
  "snprintf n s = take (n - 1) s"

definition prompt_text :: "string \<Rightarrow> string \<Rightarrow> string" where
  "prompt_text username hostname = RED @ username @ ''@'' @ hostname @ '' > '' @ CLEAR"

definition setPrompt ::
    "block option \<Rightarrow> string \<Rightarrow> block option \<Rightarrow> prompt_state \<Rightarrow> fault + (int \<times> prompt_state)" where
  "setPrompt user host fmt st =
     (case fmt of
        None \<Rightarrow>
          rbind (getusername user) (\<lambda>username.
          let (ok, oom) = alloc_ok (pr_oom st) in
          rbind (gethostname host BUFSIZE) (\<lambda>hostname.
          if \<not> ok then Inl NullPointer
          else
            let tmp = snprintf BUFSIZE (prompt_text (cstr (block_text username)) hostname);
                strings1 = str_new tmp (pr_strings st) in
            rbind (case prompt st of None \<Rightarrow> Inr strings1 | Some p \<Rightarrow> free_block p strings1) (\<lambda>strings2.
            rbind (free_block username strings2) (\<lambda>strings3.
              Inr (0, \<lparr>prompt = Some (On_Heap tmp), pr_strings = strings3, pr_oom = oom\<rparr>)))))
      | Some f \<Rightarrow> Inr (0, st\<lparr>prompt := Some f\<rparr>))"

definition getPrompt :: "prompt_state \<Rightarrow> block option" where
  "getPrompt st = prompt st"

section \<open>Properties\<close>

text \<open>The text is cut so that it fits the \<open>BUFSIZE + 1\<close> bytes of its block with the NUL.\<close>

lemma snprintf_length: "0 < n \<Longrightarrow> length (snprintf n s) < n"
  by (auto simp: snprintf_def)

lemma setPrompt_run:
  assumes "prompt st = map_option On_Heap old" "False \<notin> set (pr_oom st)" "length host < BUFSIZE"
    and "pr_strings st = mset (case old of None \<Rightarrow> [] | Some p \<Rightarrow> [p]) + add_mset name others"
  shows "\<exists>st'. setPrompt (Some (On_Heap name)) host None st = Inr (0, st') \<and>
    getPrompt st' = Some (On_Heap (snprintf BUFSIZE (prompt_text (cstr name) host))) \<and>
    pr_strings st' = add_mset (snprintf BUFSIZE (prompt_text (cstr name) host)) others"
proof -
  have ok: "fst (alloc_ok (pr_oom st))" using assms(2) alloc_ok_False by blast
  show ?thesis
    using assms ok
    by (cases old)
      (simp_all add: setPrompt_def getPrompt_def getusername_def gethostname_def case_prod_beta Let_def
        str_new_def str_free_def)
qed

lemma setPrompt_passwd_run:
  assumes "prompt st = None" "False \<notin> set (pr_oom st)" "length host < BUFSIZE"
  shows "setPrompt (Some (Not_On_Heap name)) host None st = Inl BadPointer \<and>
    setPrompt None host None st = Inl NullPointer"
proof -
  have "fst (alloc_ok (pr_oom st))" using assms(2) alloc_ok_False by blast
  with assms show ?thesis
    by (simp_all add: setPrompt_def getusername_def gethostname_def case_prod_beta Let_def)
qed

text \<open>The default prompt: where the storage of the passwd entry is a heap block of its own, the
  prompt becomes the coloured \<open>user@host >\<close>, cut to fit its block, the block of the previous prompt
  is freed, and so is the user name.\<close>

theorem setPrompt_default:
  assumes "prompt st = map_option On_Heap old" "False \<notin> set (pr_oom st)" "length host < BUFSIZE"
    and "pr_strings st = mset (case old of None \<Rightarrow> [] | Some p \<Rightarrow> [p]) + add_mset name others"
  shows "\<exists>st'. setPrompt (Some (On_Heap name)) host None st = Inr (0, st') \<and>
    getPrompt st' = Some (On_Heap (snprintf BUFSIZE (prompt_text (cstr name) host))) \<and>
    pr_strings st' = add_mset (snprintf BUFSIZE (prompt_text (cstr name) host)) others \<and>
    length (snprintf BUFSIZE (prompt_text (cstr name) host)) < BUFSIZE"
  using setPrompt_run [OF assms] snprintf_length [of BUFSIZE] by (auto simp: BUFSIZE_def)

theorem setPrompt_default_witness:
  "\<exists>st'. setPrompt (Some (On_Heap ''root'')) ''box'' None
      \<lparr>prompt = Some (On_Heap ''old''), pr_strings = {#''old'', ''root'', ''x''#}, pr_oom = []\<rparr> = Inr (0, st') \<and>
    getPrompt st' = Some (On_Heap (prompt_text ''root'' ''box''))"
proof -
  let ?st = "\<lparr>prompt = Some (On_Heap ''old''), pr_strings = {#''old'', ''root'', ''x''#}, pr_oom = []\<rparr>"
  have "snprintf BUFSIZE (prompt_text (cstr ''root'') ''box'') = prompt_text ''root'' ''box''"
    by code_simp
  moreover have "length ''box'' < BUFSIZE" by (simp add: BUFSIZE_def)
  ultimately show ?thesis
    using setPrompt_default [of ?st "Some ''old''" "''box''" "''root''" "{#''x''#}"] by auto
qed

text \<open>The entry that \<open>getpwuid\<close> returns lies in storage of the library that a program must not
  free: with such an entry the call \<open>setPrompt(NULL)\<close> of \<open>main\<close> frees a block that is not its own,
  and with an unknown user it reads through NULL.\<close>

theorem setPrompt_frees_passwd:
  assumes "prompt st = None" "False \<notin> set (pr_oom st)" "length host < BUFSIZE"
  shows "setPrompt (Some (Not_On_Heap name)) host None st = Inl BadPointer \<and>
    setPrompt None host None st = Inl NullPointer"
  using setPrompt_passwd_run [OF assms] .

theorem setPrompt_frees_passwd_witness:
  "setPrompt (Some (Not_On_Heap ''root'')) ''box'' None \<lparr>prompt = None, pr_strings = {#}, pr_oom = []\<rparr> =
    Inl BadPointer"
  by (rule setPrompt_frees_passwd [THEN conjunct1]) (simp_all add: BUFSIZE_def)

end
