(* ===== verification/Main_Loop.thy ===== *)
theory Main_Loop
  imports Pipelines Parse_Input Prompt
begin

text \<open>
  main.c: start, the read loop, the signal handler and the exit handler. The libraries answer
  through parameters: \<open>readline\<close> gives the line (\<open>None\<close> at the end of the input), the history
  expansion gives, for the lines of the history, its result code and the expanded line, both on
  the heap. A round of the loop
  puts together the parser and the execution of the queue; \<open>world\<close> is the state of the process
  and of its kernel objects, \<open>repl\<close> adds the history and the prompt.
\<close>

section \<open>Signals\<close>

definition SIGINT :: int where
  "SIGINT = 2"

definition SIGCHLD :: int where
  "SIGCHLD = 17"

definition put_out_world :: "string \<Rightarrow> world \<Rightarrow> world" where
  "put_out_world s w = w\<lparr>w_shell := put_out s (w_shell w)\<rparr>"

definition put_err_world :: "string \<Rightarrow> world \<Rightarrow> world" where
  "put_err_world s w = w\<lparr>w_shell := put_err s (w_shell w)\<rparr>"

text \<open>\<open>%d\<close>\<close>

fun decimal :: "nat \<Rightarrow> string" where
  "decimal n = (if n < 10 then [] else decimal (n div 10)) @ [char_of (48 + n mod 10)]"

declare decimal.simps [simp del]

definition signed_decimal :: "int \<Rightarrow> string" where
  "signed_decimal i = (if i < 0 then ''-'' @ decimal (nat (- i)) else decimal (nat i))"

definition signalHandler :: "int \<Rightarrow> world \<Rightarrow> world" where
  "signalHandler sig w =
     (if sig = SIGINT then
        put_out_world newline
          (if w_fg_pid w \<noteq> 0
           then (waitpid (w_fg_pid w) (add_event (Killed (w_fg_pid w) sig) w))\<lparr>w_fg_pid := 0\<rparr>
           else w)
      else if sig = SIGCHLD then add_event Polled w
      else put_err_world (''Caught unexpected signal '' @ signed_decimal sig @ newline) w)"

text \<open>\<open>sigaction\<close> is a parameter: whether it succeeds for a signal.\<close>

definition setupSignalHandler :: "(int \<Rightarrow> bool) \<Rightarrow> int" where
  "setupSignalHandler sigaction = (if \<not> sigaction SIGINT \<or> \<not> sigaction SIGCHLD then 1 else 0)"

section \<open>The exit handler\<close>

definition cleanup :: "world \<Rightarrow> fault + world" where
  "cleanup w =
     rbind (exit_handler (w_shell w)) (\<lambda>sh. Inr (w\<lparr>w_shell := sh\<rparr>))"

section \<open>One round of the loop\<close>

text \<open>Two variables of the readline library; what they hold at the start is a parameter.\<close>

record readline_vars =
  rl_readline_name :: "string option"
  rl_attempted_completion_function :: ptr

record libraries =
  lib_kernel :: kernel
  lib_wordexp :: "string \<Rightarrow> string list option"
  lib_history_expand :: "string list \<Rightarrow> string \<Rightarrow> int \<times> string"
  lib_params :: params
  lib_stack :: "int \<Rightarrow> int"
  lib_launched :: "nat \<Rightarrow> int"
  lib_readline :: readline_vars

record repl =
  r_world :: world
  r_history :: "string list"
  r_readline :: readline_vars

datatype round = Again repl | Exited int world

definition new_string :: "string \<Rightarrow> world \<Rightarrow> world" where
  "new_string s w =
     w\<lparr>w_shell := (w_shell w)\<lparr>sh_aliases := (sh_aliases (w_shell w))\<lparr>al_strings :=
       str_new s (al_strings (sh_aliases (w_shell w)))\<rparr>\<rparr>\<rparr>"

definition free_string :: "string \<Rightarrow> world \<Rightarrow> fault + world" where
  "free_string s w =
     rbind (str_free s (al_strings (sh_aliases (w_shell w)))) (\<lambda>strings.
       Inr (w\<lparr>w_shell := (w_shell w)\<lparr>sh_aliases := (sh_aliases (w_shell w))\<lparr>al_strings := strings\<rparr>\<rparr>\<rparr>))"

text \<open>The parser works on the aliases, commands and nodes of the world.\<close>

definition to_parser :: "params \<Rightarrow> world \<Rightarrow> parse_state" where
  "to_parser f w = \<lparr>fsm = f, queue = None, nodes = w_nodes w, command = None, commands = w_commands w,
     aliases = sh_aliases (w_shell w), messages = []\<rparr>"

definition from_parser :: "parse_state \<Rightarrow> world \<Rightarrow> world" where
  "from_parser st w =
     w\<lparr>w_nodes := nodes st, w_commands := commands st,
       w_shell := put_err (messages st) ((w_shell w)\<lparr>sh_aliases := aliases st\<rparr>)\<rparr>"

definition free_queue :: "queue_t \<Rightarrow> world \<Rightarrow> fault + world" where
  "free_queue q w =
     rbind (queueFree (Some q) (w_nodes w) (w_commands w, al_strings (sh_aliases (w_shell w))))
       (\<lambda>(ns, cmds, strings).
         Inr (w\<lparr>w_nodes := ns, w_commands := cmds,
                w_shell := (w_shell w)\<lparr>sh_aliases := (sh_aliases (w_shell w))\<lparr>al_strings := strings\<rparr>\<rparr>\<rparr>))"

definition free_lines :: "string \<Rightarrow> string \<Rightarrow> repl \<Rightarrow> fault + round" where
  "free_lines expansion line r =
     rbind (free_string expansion (r_world r)) (\<lambda>w1.
     rbind (free_string line w1) (\<lambda>w2. Inr (Again (r\<lparr>r_world := w2\<rparr>))))"

text \<open>Running the queue of a line. A process that ends runs the exit handler.\<close>

definition run_queue :: "libraries \<Rightarrow> queue_t option \<Rightarrow> string \<Rightarrow> string \<Rightarrow> repl \<Rightarrow> fault + round" where
  "run_queue lib q expansion line r =
     (case q of
        None \<Rightarrow> Inl NullPointer
      | Some cq \<Rightarrow>
          let r1 = (if queue_count cq > 0 then r\<lparr>r_history := r_history r @ [expansion]\<rparr> else r) in
          rbind (executeCommandsInQueue (lib_kernel lib) (lib_stack lib) (lib_launched lib) q (r_world r1)) (\<lambda>f.
            case f of
              Return s q1 w1 \<Rightarrow>
                rbind (free_queue q1 w1) (\<lambda>w2. free_lines expansion line (r1\<lparr>r_world := w2\<rparr>))
            | Gone w1 \<Rightarrow> rbind (cleanup w1) (\<lambda>w2. Inr (Exited 0 w2))
            | Continue l w1 \<Rightarrow> Inl AssertFailed))"

definition run_round :: "libraries \<Rightarrow> string option \<Rightarrow> repl \<Rightarrow> fault + round" where
  "run_round lib readline r =
     (case readline of
        None \<Rightarrow> Inl NullPointer
      | Some line \<Rightarrow>
          let (result, expansion) = lib_history_expand lib (r_history r) line;
              w1 = new_string expansion (new_string line (r_world r)) in
          if result < 0 \<or> result = 2
          then free_lines expansion line (r\<lparr>r_world := put_err_world (expansion @ newline) w1\<rparr>)
          else
            rbind (parseInput (lib_wordexp lib) expansion (lib_params lib) (to_parser (lib_params lib) w1)) (\<lambda>st.
              run_queue lib (queue st) expansion line (r\<lparr>r_world := from_parser st w1\<rparr>)))"

text \<open>The loop over the lines that are typed; it goes on as long as there are lines.\<close>

fun run :: "libraries \<Rightarrow> string option list \<Rightarrow> repl \<Rightarrow> fault + round" where
  "run lib [] r = Inr (Again r)"
| "run lib (l # ls) r =
     rbind (run_round lib l r) (\<lambda>x.
       case x of Again r1 \<Rightarrow> run lib ls r1 | Exited s w \<Rightarrow> Inr (Exited s w))"

section \<open>The program\<close>

definition EXIT_FAILURE :: int where
  "EXIT_FAILURE = 1"

definition signal_failure :: string where
  "signal_failure = ''Failed setting up signals, exiting...'' @ newline"

definition initializeReadline :: "readline_vars \<Rightarrow> readline_vars" where
  "initializeReadline v = v\<lparr>rl_readline_name := Some ''redshell'', rl_attempted_completion_function := None\<rparr>"

definition fresh_repl :: "libraries \<Rightarrow> world \<Rightarrow> repl" where
  "fresh_repl lib w = \<lparr>r_world = w, r_history = [], r_readline = initializeReadline (lib_readline lib)\<rparr>"

lemma fresh_repl_sel [simp]:
  "r_world (fresh_repl lib w) = w" "r_history (fresh_repl lib w) = []"
  by (simp_all add: fresh_repl_def)

text \<open>\<open>user\<close> and \<open>host\<close> are what \<open>setPrompt\<close> asks the system for. After an early return the exit handler
  runs as well, on a table that was never made.\<close>

definition main ::
    "libraries \<Rightarrow> (int \<Rightarrow> bool) \<Rightarrow> block option \<Rightarrow> string \<Rightarrow> string option list \<Rightarrow> world \<Rightarrow>
     prompt_state \<Rightarrow> fault + (prompt_state \<times> round)" where
  "main lib sigaction user host input w pr =
     (if setupSignalHandler sigaction \<noteq> 0
      then rbind (cleanup (put_err_world signal_failure w)) (\<lambda>w1. Inr (pr, Exited EXIT_FAILURE w1))
      else
        rbind (setPrompt user host None pr) (\<lambda>(s, pr1).
        rbind (initializeAliases (sh_aliases (w_shell w))) (\<lambda>al.
        rbind (run lib input (fresh_repl lib (w\<lparr>w_shell := (w_shell w)\<lparr>sh_aliases := al\<rparr>\<rparr>))) (\<lambda>x.
          Inr (pr1, x)))))"

end
