(* ===== verification/Sessions.thy ===== *)
theory Sessions
  imports Main_Loop
begin

text \<open>
  Whole sessions of the shell. A round of the read loop is put together from the theorems on the
  parser, the aliases, the queue and the execution of its commands, and the rounds are put
  together to a run over the lines that are typed. \<open>session\<close> is the abstract view of a session:
  the programs that were started, the history, the error output and the number of descriptors
  that are open; \<open>session_step\<close> says what a line does to it.
\<close>

section \<open>Running the commands of a line\<close>

text \<open>The lines of external commands without redirections that the execution treats correctly: no
  pipes, or one pipeline.\<close>

definition clean_line :: "kernel \<Rightarrow> command_t list \<Rightarrow> bool" where
  "clean_line k cl \<longleftrightarrow>
     list_all (\<lambda>c. external k c \<and> no_redirect c) cl \<and>
     (list_all (\<lambda>c. connectionMask c \<noteq> commandConnectionPipe) cl \<or> pipe_chain cl \<and> 2 \<le> length cl)"

definition started :: "command_t \<Rightarrow> fault + child_end" where
  "started c = Inr (Runs (path c) (words_of c))"

lemma job_children_ends: "map child_end (job_children p cl t) = map started cl"
  by (induction cl arbitrary: p) (simp_all add: started_def)

lemma execute_clean_run:
  assumes q: "queue_holds_commands w q as ps S" and fds: "enough_fds k (w_fds w) (length ps)"
    and cl: "cl = map (object_at (w_commands w)) ps" "clean_line k cl"
    and stack: "\<forall>j. stack j < 0" and forks: "False \<notin> set (w_forks w)" "0 < w_next_pid w"
  shows "\<exists>q' w'. executeCommandsInQueue k stack junk (Some q) w = Inr (Return 0 q' w') \<and>
    holds_nodes q' (w_nodes w') [] \<and> w_nodes w' = release_nodes as (w_nodes w) \<and>
    w_commands w' = release_nodes ps (w_commands w) \<and> w_strings w' = S \<and> w_fg_pid w' = 0 \<and>
    (\<forall>fd. fd_channel (w_fds w') fd = fd_channel (with_copies k (w_fds w)) fd) \<and>
    map child_end (w_children w') = map child_end (w_children w) @ map started cl \<and> carries_on w w' \<and>
    (\<exists>chs. w_children w' = w_children w @ chs)"
proof -
  have ext: "\<forall>c \<in> set cl. external k c \<and> no_redirect c"
    using cl(2) by (simp add: clean_line_def list_all_iff)
  consider "list_all (\<lambda>c. connectionMask c \<noteq> commandConnectionPipe) cl" | "pipe_chain cl" "2 \<le> length ps"
    using cl by (auto simp: clean_line_def)
  then show ?thesis
  proof cases
    case 1
    have junk: "\<forall>j < 2 * (length ps - 1). fd_channel (with_copies k (w_fds w)) (stack (int j)) = None"
      using stack by (simp add: fd_channel_def) (metis linorder_not_le)
    from executeCommands_plain_run [OF q _ cl(1) _ junk forks, where junk = junk] 1 ext fds show ?thesis
      by (fastforce simp: list_all_iff enough_fds_def job_children_ends)
  next
    case 2
    have low: "stack (- 2) < 0" using stack by blast
    obtain q' w' chs where r: "executeCommandsInQueue k stack junk (Some q) w = Inr (Return 0 q' w')"
      "holds_nodes q' (w_nodes w') []" "w_nodes w' = release_nodes as (w_nodes w)"
      "w_commands w' = release_nodes ps (w_commands w)" "w_strings w' = S" "w_fg_pid w' = 0"
      "\<forall>fd. fd_channel (w_fds w') fd = fd_channel (with_copies k (w_fds w)) fd"
      "w_children w' = w_children w @ chs" "length chs = length ps"
      "\<forall>i < length ps. child_end (chs ! i) = Inr (Runs (path (cl ! i)) (words_of (cl ! i)))"
      "carries_on w w'"
      using executeCommands_pipeline_run [where stack = stack and junk = junk, OF q fds cl(1) 2 ext low forks] by blast
    have "map child_end chs = map started cl"
      using r(9,10) cl(1) by (intro nth_equalityI) (simp_all add: started_def)
    with r show ?thesis by (intro exI [of _ q'] exI [of _ w']) simp
  qed
qed

section \<open>Descriptors of a session\<close>

lemma open_count_card: "open_count t = card {fd. fd_channel t fd \<noteq> None}"
proof -
  have "{fd. fd_channel t fd \<noteq> None} = int ` {i. i < length t \<and> t ! i \<noteq> None}"
    by (auto simp: fd_channel_def image_iff split: if_splits) (metis int_nat_eq)
  then show ?thesis by (simp add: open_count_def length_filter_conv_card card_image)
qed

lemma open_count_cong:
  "\<forall>fd. fd_channel t fd = fd_channel t' fd \<Longrightarrow> open_count t = open_count t'"
  by (simp add: open_count_card)

lemma copies_keep:
  assumes "standard_fds k t" "\<forall>fd. fd_channel t' fd = fd_channel (with_copies k t) fd"
  shows "fd_channel t' 0 = fd_channel t 0" "fd_channel t' 1 = fd_channel t 1" "open_count t' = open_count t + 2"
proof -
  have "fd_channel (with_copies k t) 0 = fd_channel t 0" "fd_channel (with_copies k t) 1 = fd_channel t 1"
    using assms(1) by (rule copies_run; auto simp: standard_fds_def)+
  then show "fd_channel t' 0 = fd_channel t 0" "fd_channel t' 1 = fd_channel t 1" using assms(2) by simp_all
  show "open_count t' = open_count t + 2"
    using open_count_cong [OF assms(2)] open_count_copies [OF assms(1)] by simp
qed

section \<open>Heap strings of a round\<close>

lemma set_strings_aliases [simp]:
  "available (st\<lparr>al_strings := S\<rparr>) = available st"
  "released (st\<lparr>al_strings := S\<rparr>) = released st"
  by (simp_all add: alias_lookup_def available_def released_def fun_eq_iff)

lemma describes_strings [simp]: "describes defs (st\<lparr>al_strings := S\<rparr>) = describes defs st"
  by (simp add: describes_def)

lemma alias_ok_new: "alias_ok st others \<Longrightarrow> alias_ok (st\<lparr>al_strings := add_mset s (al_strings st)\<rparr>) (add_mset s others)"
  by (auto simp: alias_ok_def split: option.splits)

lemma alias_ok_without:
  "alias_ok st (A + others) \<Longrightarrow> alias_ok (st\<lparr>al_strings := al_strings st - A\<rparr>) others"
  using alias_ok_swap(2) [where st = st and A = A and others = others and B = "{#}" and oom = "al_oom st"] by simp

lemma new_string_heap: "new_string s w = set_heap (w_commands w) (add_mset s (w_strings w)) w"
  by (simp add: new_string_def set_heap_def str_new_def)

lemma free_string_run:
  "w_strings w = add_mset s S \<Longrightarrow> free_string s w = Inr (set_heap (w_commands w) S w)"
  by (simp add: free_string_def set_heap_def str_free_def)

lemma set_heap_twice [simp]: "set_heap h S (set_heap h' S' w) = set_heap h S w"
  by (simp add: set_heap_def)

lemma free_lines_run:
  assumes "w_strings (r_world r) = add_mset e (add_mset l S)"
  shows "free_lines e l r = Inr (Again (r\<lparr>r_world := set_heap (w_commands (r_world r)) S (r_world r)\<rparr>))"
  using assms by (simp add: free_lines_def free_string_run)

lemma free_queue_empty:
  "holds_nodes q (w_nodes w) [] \<Longrightarrow> free_queue q w = Inr w"
  by (simp add: free_queue_def queueFree_run pending_def)

lemma put_err_sel [simp]:
  "put_err [] sh = sh" "sh_aliases (put_err e sh) = sh_aliases sh" "sh_env (put_err e sh) = sh_env sh"
  "sh_cwd (put_err e sh) = sh_cwd sh" "sh_out (put_err e sh) = sh_out sh" "sh_err (put_err e sh) = sh_err sh @ e"
  by (simp_all add: put_err_def)

section \<open>The shell between two rounds\<close>

text \<open>The shell is ready for a line: the parser's contract holds for the aliases, whose table
  describes \<open>defs\<close> and owns every string but \<open>others\<close>; no fork fails; stdin and stdout are open;
  nothing runs in the foreground.\<close>

definition shell_ready :: "(string \<times> string) list \<Rightarrow> strheap \<Rightarrow> libraries \<Rightarrow> world \<Rightarrow> bool" where
  "shell_ready defs others lib w \<longleftrightarrow>
     parser_ready defs others (lib_params lib) (to_parser (lib_params lib) w) \<and>
     False \<notin> set (w_forks w) \<and> 0 < w_next_pid w \<and> w_fg_pid w = 0 \<and>
     fd_channel (w_fds w) 0 \<noteq> None \<and> fd_channel (w_fds w) 1 \<noteq> None"

text \<open>What a round may not touch (the channels of stdin and stdout and the earlier children among it; the
  counter of pipes, if it starts no child), and that the commands and nodes it made are gone.\<close>

definition tidy :: "world \<Rightarrow> world \<Rightarrow> bool" where
  "tidy w w' \<longleftrightarrow>
     cells_grew (w_commands w) (w_commands w') {} \<and> cells_grew (w_nodes w) (w_nodes w') {} \<and>
     sh_env (w_shell w') = sh_env (w_shell w) \<and> sh_cwd (w_shell w') = sh_cwd (w_shell w) \<and>
     sh_out (w_shell w') = sh_out (w_shell w) \<and> kills (w_events w') = kills (w_events w) \<and>
     fd_channel (w_fds w') 0 = fd_channel (w_fds w) 0 \<and> fd_channel (w_fds w') 1 = fd_channel (w_fds w) 1 \<and>
     (\<exists>chs. w_children w' = w_children w @ chs) \<and> (w_children w' = w_children w \<longrightarrow> w_pipes w' = w_pipes w)"

lemma tidy_refl [simp]: "tidy w w"
  by (simp add: tidy_def cells_grew_def)

lemma tidy_trans: "tidy w w1 \<Longrightarrow> tidy w1 w2 \<Longrightarrow> tidy w w2"
  by (auto simp: tidy_def cells_grew_def)

lemma parser_ready_new_string:
  assumes "parser_ready defs others j (to_parser j w)"
  shows "parser_ready defs (add_mset s others) j (to_parser j (new_string s w))"
  using assms alias_ok_new [of "sh_aliases (w_shell w)" others s]
  by (simp add: parser_ready_def to_parser_def new_string_heap) (simp add: set_heap_def)

text \<open>The world after the parser.\<close>

lemma from_parser_sel [simp]:
  "w_nodes (from_parser st w) = nodes st" "w_commands (from_parser st w) = commands st"
  "w_strings (from_parser st w) = al_strings (aliases st)" "w_fds (from_parser st w) = w_fds w"
  "w_forks (from_parser st w) = w_forks w" "w_next_pid (from_parser st w) = w_next_pid w"
  "w_children (from_parser st w) = w_children w" "w_fg_pid (from_parser st w) = w_fg_pid w"
  "w_events (from_parser st w) = w_events w" "w_pipes (from_parser st w) = w_pipes w"
  "w_shell (from_parser st w) = put_err (messages st) ((w_shell w)\<lparr>sh_aliases := aliases st\<rparr>)"
  by (simp_all add: from_parser_def)

lemma queued_world:
  assumes "queued wordexp defs others st rs st'"
  obtains q as ptrs S where "queue st' = Some q" "holds_nodes q (nodes st') as"
    "items (nodes st') as = map Some ptrs" "held (from_parser st' w) ptrs S"
    "list_all2 (\<lambda>a x. built wordexp defs x (object_at (commands st') a)) ptrs rs"
    "alias_ok ((aliases st')\<lparr>al_strings := S\<rparr>) others" "describes defs (aliases st')"
    "released (aliases st') = alias_lookup (aliases st')" "False \<notin> set (al_oom (aliases st'))"
    "cells_grew (nodes st) (release_nodes as (nodes st')) {}"
    "cells_grew (commands st) (release_nodes ptrs (commands st')) {}"
proof -
  obtain ptrs where p: "queue_ok wordexp defs (nodes st) st' rs ptrs"
    "alias_ok (aliases st') (strings_of (commands st') ptrs + others)" "describes defs (aliases st')"
    "released (aliases st') = alias_lookup (aliases st')" "False \<notin> set (al_oom (aliases st'))"
    "cells_grew (commands st) (commands st') (set ptrs)"
    using assms by (auto simp: queued_def)
  obtain q as where q: "queue st' = Some q" "holds_nodes q (nodes st') as" "items (nodes st') as = map Some ptrs"
    "cells_grew (nodes st) (nodes st') (set as)"
    using p(1) by (auto simp: queue_ok_def)
  let ?A = "strings_of (commands st') ptrs"
  have "?A \<subseteq># al_strings (aliases st')" using alias_ok_swap(1) [OF p(2)] .
  then have "al_strings (aliases st') = ?A + (al_strings (aliases st') - ?A)" by simp
  then have held: "held (from_parser st' w) ptrs (al_strings (aliases st') - ?A)"
    using p(1) by (auto simp: held_def queue_ok_def list_all2_conv_all_nth in_set_conv_nth)
  have built: "list_all2 (\<lambda>a x. built wordexp defs x (object_at (commands st') a)) ptrs rs"
    using p(1) by (auto simp: queue_ok_def elim: list_all2_mono)
  have "\<forall>a \<in> set as. \<not> live_at (nodes st) a" "\<forall>a \<in> set ptrs. \<not> live_at (commands st) a"
    using q(4) p(6) by (auto simp: cells_grew_def)
  then have "cells_grew (nodes st) (release_nodes as (nodes st')) {}"
    "cells_grew (commands st) (release_nodes ptrs (commands st')) {}"
    using cells_grew_release_all [of "nodes st" "nodes st'" as "{}"] q(4)
      cells_grew_release_all [of "commands st" "commands st'" ptrs "{}"] p(6) by simp_all
  with that q held built alias_ok_without [OF p(2)] p(3-5) show thesis by blast
qed

section \<open>The abstract session\<close>

text \<open>What a typed line turns out to be: rejected by the history expansion, wrong (the two bytes of
  the report), or a list of commands.\<close>

datatype line_kind = Rejected string | Wrong char char | Listed string "command_t list"

definition line_kind :: "(string \<times> string) list \<Rightarrow> libraries \<Rightarrow> string list \<Rightarrow> string \<Rightarrow> line_kind" where
  "line_kind defs lib past line =
     (case lib_history_expand lib past line of (result, e) \<Rightarrow>
        if result < 0 \<or> result = 2 then Rejected e
        else
          case parse_line (cstr e) of
            Inl p \<Rightarrow> Wrong ((cstr e @ [NUL]) ! (p - 1)) ((cstr e @ [NUL]) ! p)
          | Inr rs \<Rightarrow> Listed e (map (\<lambda>r. the (build (lib_wordexp lib) defs r)) rs))"

record session =
  programs :: "(fault + child_end) list"
  past_lines :: "string list"
  error_output :: string
  open_fds :: nat

text \<open>A list of commands starts its programs, goes to the history and costs two descriptors.\<close>

fun session_step :: "line_kind \<Rightarrow> session \<Rightarrow> session" where
  "session_step (Rejected e) s = s\<lparr>error_output := error_output s @ e @ newline\<rparr>"
| "session_step (Wrong c d) s = s\<lparr>error_output := error_output s @ error_message c d\<rparr>"
| "session_step (Listed e cl) s =
     (if cl = [] then s
      else s\<lparr>programs := programs s @ map started cl, past_lines := past_lines s @ [e],
             open_fds := open_fds s + 2\<rparr>)"

definition session_of :: "repl \<Rightarrow> session" where
  "session_of r =
     \<lparr>programs = map child_end (w_children (r_world r)), past_lines = r_history r,
      error_output = sh_err (w_shell (r_world r)), open_fds = open_count (w_fds (r_world r))\<rparr>"

text \<open>The lines that the specification covers: the expansions succeed, the first byte is not wrong, the
  commands can be run cleanly, and there are descriptors left for them.\<close>

definition line_ok :: "(string \<times> string) list \<Rightarrow> libraries \<Rightarrow> string list \<Rightarrow> string \<Rightarrow> bool" where
  "line_ok defs lib past line \<longleftrightarrow>
     (case lib_history_expand lib past line of (result, e) \<Rightarrow>
        result < 0 \<or> result = 2 \<or>
        int (length e) < 2 ^ 62 \<and> all_fine (lib_wordexp lib) defs (cstr e) \<and> parse_line (cstr e) \<noteq> Inl 0 \<and>
        (case line_kind defs lib past line of Listed e cl \<Rightarrow> clean_line (lib_kernel lib) cl | _ \<Rightarrow> True))"

definition line_size :: "(string \<times> string) list \<Rightarrow> libraries \<Rightarrow> string list \<Rightarrow> string \<Rightarrow> nat" where
  "line_size defs lib past line = (case line_kind defs lib past line of Listed e cl \<Rightarrow> length cl | _ \<Rightarrow> 0)"

definition type_line :: "(string \<times> string) list \<Rightarrow> libraries \<Rightarrow> string \<Rightarrow> session \<Rightarrow> session" where
  "type_line defs lib line s = session_step (line_kind defs lib (past_lines s) line) s"

fun session_ok :: "(string \<times> string) list \<Rightarrow> libraries \<Rightarrow> string list \<Rightarrow> session \<Rightarrow> bool" where
  "session_ok defs lib [] s = True"
| "session_ok defs lib (l # ls) s =
     (line_ok defs lib (past_lines s) l \<and>
      open_fds s + 2 * line_size defs lib (past_lines s) l \<le> fd_limit (lib_kernel lib) \<and>
      session_ok defs lib ls (type_line defs lib l s))"

section \<open>One round\<close>

lemma built_objects:
  assumes "list_all2 (\<lambda>a x. built wordexp defs x (object_at h a)) ptrs rs" "list_all (fine wordexp defs) rs"
  shows "map (object_at h) ptrs = map (\<lambda>x. the (build wordexp defs x)) rs"
  using assms by (induction rule: list_all2_induct) (auto simp: built_def)

lemma carries_on_set_strings:
  assumes "carries_on w w'"
  shows "w_shell (set_heap h S w') = (w_shell w)\<lparr>sh_aliases := (sh_aliases (w_shell w))\<lparr>al_strings := S\<rparr>\<rparr>"
    "carries_on w (set_heap h S w')"
proof -
  obtain X where "w_shell w' = (w_shell w)\<lparr>sh_aliases := (sh_aliases (w_shell w))\<lparr>al_strings := X\<rparr>\<rparr>"
    using assms by (auto simp: carries_on_def)
  then show *: "w_shell (set_heap h S w') = (w_shell w)\<lparr>sh_aliases := (sh_aliases (w_shell w))\<lparr>al_strings := S\<rparr>\<rparr>"
    by (simp add: set_heap_def)
  then show "carries_on w (set_heap h S w')" using assms by (simp add: carries_on_def)
qed

lemma run_queue_clean:
  assumes parsed: "queued (lib_wordexp lib) defs (add_mset e (add_mset l others)) (to_parser f w1) rs st'"
    and fine: "list_all (fine (lib_wordexp lib) defs) rs"
    and r: "r_world r = from_parser st' w1"
    and cl: "cl = map (\<lambda>x. the (build (lib_wordexp lib) defs x)) rs" "clean_line (lib_kernel lib) cl"
    and fds: "fd_channel (w_fds w1) 0 \<noteq> None" "fd_channel (w_fds w1) 1 \<noteq> None"
      "open_count (w_fds w1) + 2 * length cl \<le> fd_limit (lib_kernel lib)" "fd_limit (lib_kernel lib) < 2 ^ 31"
    and stack: "\<forall>j. lib_stack lib j < 0"
    and w1: "False \<notin> set (w_forks w1)" "0 < w_next_pid w1" "w_fg_pid w1 = 0"
  shows "\<exists>r' w'. run_queue lib (queue st') e l r = Inr (Again r') \<and> w' = r_world r' \<and>
    session_of r' = session_step (Listed e cl) (session_of r) \<and>
    cells_grew (w_commands w1) (w_commands w') {} \<and> cells_grew (w_nodes w1) (w_nodes w') {} \<and>
    carries_on (r_world r) w' \<and> w_fg_pid w' = 0 \<and>
    alias_ok (sh_aliases (w_shell w')) others \<and>
    fd_channel (w_fds w') 0 = fd_channel (w_fds w1) 0 \<and> fd_channel (w_fds w') 1 = fd_channel (w_fds w1) 1 \<and>
    (\<exists>chs. w_children w' = w_children w1 @ chs) \<and> (w_children w' = w_children w1 \<longrightarrow> w_pipes w' = w_pipes w1)"
proof -
  let ?W = "from_parser st' w1"
  obtain q as ptrs S where q: "queue st' = Some q" "holds_nodes q (nodes st') as"
    "items (nodes st') as = map Some ptrs" "held ?W ptrs S"
    "list_all2 (\<lambda>a x. built (lib_wordexp lib) defs x (object_at (commands st') a)) ptrs rs"
    "alias_ok ((aliases st')\<lparr>al_strings := S\<rparr>) (add_mset e (add_mset l others))"
    "cells_grew (w_nodes w1) (release_nodes as (nodes st')) {}"
    "cells_grew (w_commands w1) (release_nodes ptrs (commands st')) {}"
    by (rule queued_world [OF parsed, of w1]) (rule that; simp add: to_parser_def)
  have obj: "cl = map (object_at (w_commands ?W)) ptrs"
    using built_objects [OF q(5) fine] cl(1) by simp
  have len: "length ptrs = length cl" "length as = length ptrs"
    using obj q(3) by (auto simp: items_def dest: map_eq_imp_length_eq)
  let ?S0 = "S - {#e, l#}"
  have owns: "alias_ok ((aliases st')\<lparr>al_strings := S\<rparr>) ({#e, l#} + others)" using q(6) by simp
  then have "{#e, l#} \<subseteq># S" using alias_ok_swap(1) [OF owns] by simp
  then have S2: "S = add_mset e (add_mset l ?S0)"
    using subset_mset.add_diff_inverse [of "{#e, l#}" S] by simp
  have S1: "alias_ok ((aliases st')\<lparr>al_strings := ?S0\<rparr>) others"
    using alias_ok_without [OF owns] by simp
  show ?thesis
  proof (cases "cl = []")
    case True
    then have empty: "ptrs = []" "as = []" using len by simp_all
    have count: "queue_count q = 0" using q(2) empty(2) by (simp add: holds_nodes_def)
    let ?r = "r\<lparr>r_world := set_heap (w_commands ?W) ?S0 ?W\<rparr>"
    have "w_strings ?W = S" using q(4) empty(1) by (simp add: held_def)
    then have "free_lines e l (r\<lparr>r_world := ?W\<rparr>) = Inr (Again ?r)"
      using free_lines_run [of "r\<lparr>r_world := ?W\<rparr>" e l ?S0] S2 by simp
    then have "run_queue lib (queue st') e l r = Inr (Again ?r)"
      using q(1,2) empty(2) count r
      by (simp add: run_queue_def executeCommandsInQueue_def free_queue_empty Let_def)
    then show ?thesis using True empty q(7,8) S1 fds(1,2) w1 r
      by (intro exI [of _ ?r] exI [of _ "r_world ?r"]; simp add: session_of_def; simp add: set_heap_def)
  next
    case False
    then have "ptrs \<noteq> []" "as \<noteq> []" using len by auto
    moreover have lim: "enough_fds (lib_kernel lib) (w_fds ?W) (length ptrs)" "length ptrs < 2 ^ 31"
    proof -
      have "0 < length cl" using False by simp
      then have "open_count (w_fds w1) + 2 \<le> fd_limit (lib_kernel lib)" "length cl < 2 ^ 31" using fds(3,4) by linarith+
      then show "enough_fds (lib_kernel lib) (w_fds ?W) (length ptrs)" "length ptrs < 2 ^ 31"
        using fds(1-3) len by (simp_all add: enough_fds_def standard_fds_def)
    qed
    ultimately have hold: "queue_holds_commands ?W q as ptrs S" using q(2-4) by (simp add: queue_holds_commands_def)
    have count: "queue_count q > 0"
    proof -
      have "command_count q = int (length as)"
        using q(2) lim(2) len(2) by (intro command_count_small) (simp_all add: holds_nodes_def)
      then show ?thesis using \<open>as \<noteq> []\<close> by (auto simp: command_count_def word_gt_0)
    qed
    have forks: "False \<notin> set (w_forks ?W)" "0 < w_next_pid ?W" using w1 by simp_all
    obtain q' w' where x: "executeCommandsInQueue (lib_kernel lib) (lib_stack lib) (lib_launched lib) (Some q) ?W = Inr (Return 0 q' w')"
      "holds_nodes q' (w_nodes w') []" "w_nodes w' = release_nodes as (w_nodes ?W)"
      "w_commands w' = release_nodes ptrs (w_commands ?W)" "w_strings w' = S" "w_fg_pid w' = 0"
      "\<forall>fd. fd_channel (w_fds w') fd = fd_channel (with_copies (lib_kernel lib) (w_fds ?W)) fd"
      "map child_end (w_children w') = map child_end (w_children ?W) @ map started cl" "carries_on ?W w'"
      "\<exists>chs. w_children w' = w_children ?W @ chs"
      using execute_clean_run [OF hold lim(1) obj cl(2) stack forks] by blast
    let ?r1 = "r\<lparr>r_history := r_history r @ [e]\<rparr>"
    let ?w2 = "set_heap (w_commands w') ?S0 w'"
    let ?r = "?r1\<lparr>r_world := ?w2\<rparr>"
    have "free_lines e l (?r1\<lparr>r_world := w'\<rparr>) = Inr (Again ?r)"
      using free_lines_run [of "?r1\<lparr>r_world := w'\<rparr>" e l ?S0] S2 x(5) by simp
    then have run: "run_queue lib (queue st') e l r = Inr (Again ?r)"
      using q(1) count r x(1,2) by (simp add: run_queue_def free_queue_empty Let_def)
    have std: "standard_fds (lib_kernel lib) (w_fds ?W)" using lim(1) by (simp add: enough_fds_def)
    note keep = copies_keep [OF std x(7)]
    have shell: "w_shell ?w2 = (w_shell ?W)\<lparr>sh_aliases := (aliases st')\<lparr>al_strings := ?S0\<rparr>\<rparr>"
      "carries_on ?W ?w2"
      using carries_on_set_strings [OF x(9)] by simp_all
    have "length (w_children w') = length (w_children w1) + length cl"
      using arg_cong [OF x(8), of length] by simp
    then have grew: "w_children w' \<noteq> w_children w1" using False by auto
    have "session_of ?r = session_step (Listed e cl) (session_of r)"
      using x(8) keep(3) shell(1) False r by (simp add: session_of_def)
    then show ?thesis using run shell q(7,8) x(3,4,6,10) keep(1,2) fds(1,2) S1 r grew
      by (intro exI [of _ ?r] exI [of _ ?w2] conjI) simp_all
  qed
qed

lemma parser_ready_after:
  assumes "parser_ready defs others j st0" "queued wordexp defs others' st rs st'"
    and "carries_on (from_parser st' w1) w'" "alias_ok (sh_aliases (w_shell w')) others"
  shows "parser_ready defs others j (to_parser j w')"
proof -
  obtain X where "w_shell w' = (w_shell (from_parser st' w1))\<lparr>sh_aliases := (aliases st')\<lparr>al_strings := X\<rparr>\<rparr>"
    using assms(3) by (auto simp: carries_on_def)
  moreover have "describes defs (aliases st')" "released (aliases st') = alias_lookup (aliases st')"
    "False \<notin> set (al_oom (aliases st'))"
    using assms(2) by (auto simp: queued_def)
  ultimately show ?thesis using assms(1,4) by (simp add: parser_ready_def to_parser_def)
qed

text \<open>The two lines of a round are on the heap while it runs.\<close>

lemma new_lines:
  assumes "shell_ready defs others lib w"
  shows "parser_ready defs (add_mset e (add_mset l others)) (lib_params lib)
      (to_parser (lib_params lib) (new_string e (new_string l w)))"
    "new_string e (new_string l w) = set_heap (w_commands w) (add_mset e (add_mset l (w_strings w))) w"
  using assms parser_ready_new_string [of defs others "lib_params lib" w l]
    parser_ready_new_string [of defs "add_mset l others" "lib_params lib" "new_string l w" e]
  by (simp add: shell_ready_def) (simp add: new_string_heap)

lemma round_parsed:
  assumes ready: "shell_ready defs others lib (r_world r)"
    and hist: "lib_history_expand lib (r_history r) l = (result, e)" "\<not> (result < 0 \<or> result = 2)"
    and w1: "w1 = new_string e (new_string l (r_world r))"
    and parse: "parseInput (lib_wordexp lib) e (lib_params lib) (to_parser (lib_params lib) w1) = Inr st'"
      "queued (lib_wordexp lib) defs (add_mset e (add_mset l others)) (to_parser (lib_params lib) w1) rs st'"
    and fine: "list_all (fine (lib_wordexp lib) defs) rs"
    and cl: "cl = map (\<lambda>x. the (build (lib_wordexp lib) defs x)) rs" "clean_line (lib_kernel lib) cl"
    and fds: "open_count (w_fds (r_world r)) + 2 * length cl \<le> fd_limit (lib_kernel lib)"
      "fd_limit (lib_kernel lib) < 2 ^ 31" "\<forall>j. lib_stack lib j < 0"
  shows "\<exists>r'. run_round lib (Some l) r = Inr (Again r') \<and> shell_ready defs others lib (r_world r') \<and>
    tidy (r_world r) (r_world r') \<and> session_of r' = session_step (Listed e cl)
      ((session_of r)\<lparr>error_output := error_output (session_of r) @ messages st'\<rparr>)"
proof -
  let ?w = "r_world r"
  let ?r2 = "r\<lparr>r_world := from_parser st' w1\<rparr>"
  have heap: "w1 = set_heap (w_commands ?w) (add_mset e (add_mset l (w_strings ?w))) ?w"
    using new_lines(2) [OF ready] w1 by simp
  have r: "parser_ready defs others (lib_params lib) (to_parser (lib_params lib) ?w)"
    "fd_channel (w_fds w1) 0 \<noteq> None" "fd_channel (w_fds w1) 1 \<noteq> None" "False \<notin> set (w_forks w1)"
    "0 < w_next_pid w1" "w_fg_pid w1 = 0" "open_count (w_fds w1) + 2 * length cl \<le> fd_limit (lib_kernel lib)"
    using ready fds(1) by (simp_all add: shell_ready_def heap)
  have w2: "r_world ?r2 = from_parser st' w1" by simp
  obtain r' where x: "run_queue lib (queue st') e l ?r2 = Inr (Again r')"
    "session_of r' = session_step (Listed e cl) (session_of ?r2)"
    "cells_grew (w_commands w1) (w_commands (r_world r')) {}" "cells_grew (w_nodes w1) (w_nodes (r_world r')) {}"
    "carries_on (from_parser st' w1) (r_world r')" "w_fg_pid (r_world r') = 0"
    "alias_ok (sh_aliases (w_shell (r_world r'))) others"
    "fd_channel (w_fds (r_world r')) 0 = fd_channel (w_fds w1) 0" "fd_channel (w_fds (r_world r')) 1 = fd_channel (w_fds w1) 1"
    "\<exists>chs. w_children (r_world r') = w_children w1 @ chs"
    "w_children (r_world r') = w_children w1 \<longrightarrow> w_pipes (r_world r') = w_pipes w1"
    using run_queue_clean [OF parse(2) fine w2 cl r(2,3,7) fds(2,3) r(4-6)] unfolding w2 by blast
  have "run_round lib (Some l) r = Inr (Again r')"
    using hist parse(1) x(1) by (simp add: run_round_def w1 Let_def)
  moreover have "shell_ready defs others lib (r_world r')"
    using parser_ready_after [OF r(1) parse(2) x(5,7)] x(5,6,8,9) r(2-5)
    by (auto simp: shell_ready_def carries_on_def)
  moreover have "session_of ?r2 = (session_of r)\<lparr>error_output := error_output (session_of r) @ messages st'\<rparr>"
    by (simp add: session_of_def heap) (simp add: set_heap_def)
  moreover obtain X where X: "w_shell (r_world r') =
      (w_shell (from_parser st' w1))\<lparr>sh_aliases := (aliases st')\<lparr>al_strings := X\<rparr>\<rparr>"
    using x(5) by (auto simp: carries_on_def)
  have "kills (w_events (r_world r')) = kills (w_events ?w)" using x(5) by (simp add: carries_on_def heap)
  then have "tidy ?w (r_world r')"
    using x(3,4,8-11) unfolding tidy_def by (simp add: X heap) (simp add: set_heap_def)
  with calculation show ?thesis using x(2) by auto
qed

lemma round_run:
  assumes ready: "shell_ready defs others lib (r_world r)" and ok: "line_ok defs lib (r_history r) l"
    and fds: "open_count (w_fds (r_world r)) + 2 * line_size defs lib (r_history r) l \<le> fd_limit (lib_kernel lib)"
      "fd_limit (lib_kernel lib) < 2 ^ 31" "\<forall>j. lib_stack lib j < 0"
  shows "\<exists>r'. run_round lib (Some l) r = Inr (Again r') \<and> shell_ready defs others lib (r_world r') \<and>
    tidy (r_world r) (r_world r') \<and> session_of r' = session_step (line_kind defs lib (r_history r) l) (session_of r)"
proof -
  obtain result e where hist: "lib_history_expand lib (r_history r) l = (result, e)" by fastforce
  let ?w = "r_world r"
  let ?w1 = "new_string e (new_string l ?w)"
  have heap: "?w1 = set_heap (w_commands ?w) (add_mset e (add_mset l (w_strings ?w))) ?w"
    using new_lines(2) [OF ready] .
  show ?thesis
  proof (cases "result < 0 \<or> result = 2")
    case True
    let ?w2 = "put_err_world (e @ newline) ?w1"
    let ?r = "r\<lparr>r_world := set_heap (w_commands ?w2) (w_strings ?w) ?w2\<rparr>"
    have "free_lines e l (r\<lparr>r_world := ?w2\<rparr>) = Inr (Again ?r)"
      using free_lines_run [of "r\<lparr>r_world := ?w2\<rparr>" e l "w_strings ?w"]
      by (simp add: put_err_world_def heap set_heap_def)
    then have "run_round lib (Some l) r = Inr (Again ?r)"
      using hist True by (simp add: run_round_def Let_def)
    moreover have "r_world ?r = put_err_world (e @ newline) ?w"
      unfolding heap by (simp add: put_err_world_def set_heap_def put_err_def)
    ultimately show ?thesis using True hist ready
      by (intro exI [of _ ?r])
        (simp add: put_err_world_def put_err_def shell_ready_def to_parser_def tidy_def cells_grew_def
          session_of_def line_kind_def)
  next
    case False
    then have ok': "length e < 2 ^ 62" "all_fine (lib_wordexp lib) defs (cstr e)" "parse_line (cstr e) \<noteq> Inl 0"
      "case line_kind defs lib (r_history r) l of Listed e cl \<Rightarrow> clean_line (lib_kernel lib) cl | _ \<Rightarrow> True"
      using ok hist by (auto simp: line_ok_def)
    note ready1 = new_lines(1) [OF ready, of e l]
    show ?thesis
    proof (cases "parse_line (cstr e)")
      case (Inl p)
      then obtain st' where st': "parseInput (lib_wordexp lib) e (lib_params lib) (to_parser (lib_params lib) ?w1) = Inr st'"
        "queued (lib_wordexp lib) defs (add_mset e (add_mset l others)) (to_parser (lib_params lib) ?w1) [] st'"
        "messages st' = error_message ((cstr e @ [NUL]) ! (p - 1)) ((cstr e @ [NUL]) ! p)"
        using parseInput_error_run [OF ready1 ok'(1) Inl ok'(2)] ok'(3) by (auto simp: to_parser_def)
      have "clean_line (lib_kernel lib) []" by (simp add: clean_line_def)
      with round_parsed [OF ready hist False refl st'(1,2), of "[]"] fds Inl st'(3) hist False show ?thesis
        by (simp add: line_kind_def line_size_def)
    next
      case (Inr rs)
      let ?cl = "map (\<lambda>x. the (build (lib_wordexp lib) defs x)) rs"
      have fine: "list_all (fine (lib_wordexp lib) defs) rs"
        using ok'(2) parse_line_attempted [OF Inr] by (simp add: all_fine_def)
      obtain st' where st': "parseInput (lib_wordexp lib) e (lib_params lib) (to_parser (lib_params lib) ?w1) = Inr st'"
        "queued (lib_wordexp lib) defs (add_mset e (add_mset l others)) (to_parser (lib_params lib) ?w1) rs st'"
        "messages st' = []"
        using parseInput_run [OF ready1 ok'(1) Inr ok'(2)] by (auto simp: to_parser_def)
      have kind: "line_kind defs lib (r_history r) l = Listed e ?cl" using hist False Inr by (simp add: line_kind_def)
      have "clean_line (lib_kernel lib) ?cl" using ok'(4) by (simp add: kind)
      with round_parsed [OF ready hist False refl st'(1,2) fine refl] fds st'(3) show ?thesis
        by (simp add: kind line_size_def)
    qed
  qed
qed

section \<open>The whole session\<close>

text \<open>What the model relies on of the environment, besides \<open>session_ok\<close>: the limit of descriptors fits
  an int, and the ints that the uninitialised array of pipes holds are not descriptors.\<close>

definition environment_ok :: "libraries \<Rightarrow> bool" where
  "environment_ok lib \<longleftrightarrow> fd_limit (lib_kernel lib) < 2 ^ 31 \<and> (\<forall>j. lib_stack lib j < 0)"

lemma run_session:
  assumes "shell_ready defs others lib (r_world r)" "environment_ok lib" "session_ok defs lib ls (session_of r)"
  shows "\<exists>r'. run lib (map Some ls) r = Inr (Again r') \<and> shell_ready defs others lib (r_world r') \<and>
    tidy (r_world r) (r_world r') \<and> session_of r' = fold (type_line defs lib) ls (session_of r)"
  using assms
proof (induction ls arbitrary: r)
  case Nil
  then show ?case by simp
next
  case (Cons l ls)
  have past: "past_lines (session_of r) = r_history r" "open_fds (session_of r) = open_count (w_fds (r_world r))"
    by (simp_all add: session_of_def)
  obtain r1 where r1: "run_round lib (Some l) r = Inr (Again r1)" "shell_ready defs others lib (r_world r1)"
    "tidy (r_world r) (r_world r1)" "session_of r1 = type_line defs lib l (session_of r)"
    using round_run [of defs others lib r l] Cons.prems by (auto simp: environment_ok_def type_line_def past)
  obtain r' where "run lib (map Some ls) r1 = Inr (Again r')" "shell_ready defs others lib (r_world r')"
    "tidy (r_world r1) (r_world r')" "session_of r' = fold (type_line defs lib) ls (session_of r1)"
    using Cons.IH [OF r1(2)] Cons.prems(2,3) r1(4) by auto
  with r1 tidy_trans show ?case by auto
qed

section \<open>Properties\<close>

text \<open>Refinement of whole sessions. From a shell that waits for input, every list of typed lines
  that \<open>session_ok\<close> admits is read, expanded, parsed and executed without a fault, and what one
  sees of the shell (the programs that it started, its history, its error output, the number of
  open descriptors) is what the abstract session gives. The shell then waits for input again: all
  commands, nodes and strings of the lines have been freed, environment and directory and output
  are as before, and no signal was sent.\<close>

theorem session_refines:
  assumes "shell_ready defs others lib (r_world r)" "environment_ok lib" "session_ok defs lib ls (session_of r)"
  shows "\<exists>r'. run lib (map Some ls) r = Inr (Again r') \<and>
    session_of r' = fold (type_line defs lib) ls (session_of r) \<and>
    shell_ready defs others lib (r_world r') \<and> tidy (r_world r) (r_world r')"
  using run_session [OF assms] by blast

lemma session_step_leak:
  "int (open_fds (type_line defs lib l s)) - int (open_fds s) =
   2 * (int (length (past_lines (type_line defs lib l s))) - int (length (past_lines s)))"
  by (cases "line_kind defs lib (past_lines s) l") (simp_all add: type_line_def)

lemma session_leak:
  "int (open_fds (fold (type_line defs lib) ls s)) - int (open_fds s) =
   2 * (int (length (past_lines (fold (type_line defs lib) ls s))) - int (length (past_lines s)))"
proof (induction ls arbitrary: s)
  case (Cons l ls)
  from Cons.IH [of "type_line defs lib l s"] session_step_leak [of defs lib l s] show ?case by simp
qed simp

text \<open>C31. The shell runs out of descriptors. Every line that starts a program leaves two more
  descriptors open for good, the copies of stdin and stdout that \<open>executeCommandsInQueue\<close> makes:
  after any such session there are twice as many new descriptors as new lines in the history.\<close>

theorem session_leaks_descriptors:
  assumes "shell_ready defs others lib (r_world r)" "environment_ok lib" "session_ok defs lib ls (session_of r)"
  shows "\<exists>r'. run lib (map Some ls) r = Inr (Again r') \<and>
    int (open_count (w_fds (r_world r'))) - int (open_count (w_fds (r_world r))) =
      2 * (int (length (r_history r')) - int (length (r_history r)))"
proof -
  obtain r' where r': "run lib (map Some ls) r = Inr (Again r')"
    "session_of r' = fold (type_line defs lib) ls (session_of r)"
    using run_session [OF assms] by blast
  have "open_fds (session_of x) = open_count (w_fds (r_world x))" "past_lines (session_of x) = r_history x" for x
    by (simp_all add: session_of_def)
  with r' session_leak [of defs lib ls "session_of r"] show ?thesis by metis
qed

section \<open>Witnesses\<close>

text \<open>History expansion with \<open>!!\<close> for the last line.\<close>

definition small_history :: "string list \<Rightarrow> string \<Rightarrow> int \<times> string" where
  "small_history past line =
     (if line = ''!!'' then if past = [] then (- 1, ''!!: event not found'') else (1, last past)
      else (0, line))"

definition small_libraries :: libraries where
  "small_libraries = \<lparr>lib_kernel = small_kernel, lib_wordexp = spaced_wordexp, lib_history_expand = small_history,
     lib_params = fresh_params, lib_stack = (\<lambda>_. - 1), lib_launched = (\<lambda>_. 0),
     lib_readline = \<lparr>rl_readline_name = None, rl_attempted_completion_function = None\<rparr>\<rparr>"

definition small_repl :: repl where
  "small_repl = \<lparr>r_world = world_with (home_shell\<lparr>sh_aliases := aliases fresh_shell\<rparr>) [], r_history = [],
     r_readline = initializeReadline (lib_readline small_libraries)\<rparr>"

lemma small_repl_ready: "shell_ready ll_alias {#} small_libraries (r_world small_repl)"
  using fresh_shell_ready
  by (simp add: shell_ready_def parser_ready_def small_libraries_def small_repl_def to_parser_def)
    (simp add: world_with_def fd_channel_def)

lemma small_environment: "environment_ok small_libraries"
  by (simp add: environment_ok_def small_libraries_def small_kernel_def)

lemma small_session: "session_of small_repl = \<lparr>programs = [], past_lines = [], error_output = [], open_fds = 3\<rparr>"
  by (simp add: session_of_def small_repl_def) (simp add: world_with_def home_shell_def open_count_def)

abbreviation small_lines :: "string list" where
  "small_lines \<equiv> [''!!'', ''ll /tmp | wc'', ''ls | | wc'', ''sleep 5 &; ps'', ''!!'']"

lemma small_session_ok: "session_ok ll_alias small_libraries small_lines (session_of small_repl)"
  unfolding small_session by code_simp

lemma small_result:
  "fold (type_line ll_alias small_libraries) small_lines (session_of small_repl) =
    \<lparr>programs = [Inr (Runs (Some ''ls'') [''ls'', ''-l'', ''/tmp'']), Inr (Runs (Some ''wc'') [''wc'']),
       Inr (Runs (Some ''sleep'') [''sleep'', ''5'']), Inr (Runs (Some ''ps'') [''ps'']),
       Inr (Runs (Some ''sleep'') [''sleep'', ''5'']), Inr (Runs (Some ''ps'') [''ps''])],
     past_lines = [''ll /tmp | wc'', ''sleep 5 &; ps'', ''sleep 5 &; ps''],
     error_output = ''!!: event not found'' @ newline @ error_message (CHR 0x20) (CHR ''|''), open_fds = 9\<rparr>"
  unfolding small_session by code_simp

theorem session_refines_witness:
  "\<exists>r'. run small_libraries (map Some small_lines) small_repl = Inr (Again r') \<and>
    map child_end (w_children (r_world r')) =
      [Inr (Runs (Some ''ls'') [''ls'', ''-l'', ''/tmp'']), Inr (Runs (Some ''wc'') [''wc'']),
       Inr (Runs (Some ''sleep'') [''sleep'', ''5'']), Inr (Runs (Some ''ps'') [''ps'']),
       Inr (Runs (Some ''sleep'') [''sleep'', ''5'']), Inr (Runs (Some ''ps'') [''ps''])] \<and>
    r_history r' = [''ll /tmp | wc'', ''sleep 5 &; ps'', ''sleep 5 &; ps''] \<and> open_count (w_fds (r_world r')) = 9"
proof -
  obtain r' where "run small_libraries (map Some small_lines) small_repl = Inr (Again r')"
    "session_of r' = fold (type_line ll_alias small_libraries) small_lines (session_of small_repl)"
    using session_refines [OF small_repl_ready small_environment small_session_ok] by blast
  then show ?thesis unfolding small_result by (simp add: session_of_def)
qed

theorem session_leaks_descriptors_witness:
  "\<exists>r'. run small_libraries (map Some small_lines) small_repl = Inr (Again r') \<and>
    int (open_count (w_fds (r_world r'))) - int (open_count (w_fds (r_world small_repl))) =
      2 * (int (length (r_history r')) - int (length (r_history small_repl)))"
  by (rule session_leaks_descriptors [OF small_repl_ready small_environment small_session_ok])

end
