(* ===== verification/Lifecycle.thy ===== *)
theory Lifecycle
  imports Sessions
begin

text \<open>
  The life of the shell around its sessions: how it starts (and how the start fails), signals that
  arrive between two lines, the foreground process that the signal handler knows of, and the end
  through the builtin \<open>exit\<close> with the exit handler.
\<close>

section \<open>Signals\<close>

lemma signalHandler_sel [simp]:
  "w_nodes (signalHandler s w) = w_nodes w" "w_commands (signalHandler s w) = w_commands w"
  "w_fds (signalHandler s w) = w_fds w" "w_forks (signalHandler s w) = w_forks w"
  "w_next_pid (signalHandler s w) = w_next_pid w" "w_children (signalHandler s w) = w_children w"
  "sh_aliases (w_shell (signalHandler s w)) = sh_aliases (w_shell w)"
  by (simp_all add: signalHandler_def put_out_world_def put_err_world_def put_out_def put_err_def
      waitpid_def add_event_def)

lemma signalHandler_idle:
  assumes "w_fg_pid w = 0"
  shows "w_fg_pid (signalHandler s w) = 0" "kills (w_events (signalHandler s w)) = kills (w_events w)"
  using assms
  by (simp_all add: signalHandler_def put_out_world_def put_err_world_def add_event_def)

lemma signalHandler_foreground:
  assumes "w_fg_pid w \<noteq> 0"
  shows "kills (w_events (signalHandler SIGINT w)) = kills (w_events w) @ [Killed (w_fg_pid w) SIGINT]"
    "w_fg_pid (signalHandler SIGINT w) = 0"
  using assms
  by (simp_all add: signalHandler_def put_out_world_def waitpid_def add_event_def)

section \<open>Lines and signals\<close>

text \<open>What happens to a shell that waits for input. The handler may run at any time before the next
  line is complete.\<close>

datatype happening = Typed string | Signalled int

inductive shell_step :: "(string \<times> string) list \<Rightarrow> libraries \<Rightarrow> repl \<Rightarrow> happening \<Rightarrow> repl \<Rightarrow> bool"
  for defs :: "(string \<times> string) list" and lib :: libraries where
  typed: "line_ok defs lib (r_history r) l \<Longrightarrow>
    open_count (w_fds (r_world r)) + 2 * line_size defs lib (r_history r) l \<le> fd_limit (lib_kernel lib) \<Longrightarrow>
    run_round lib (Some l) r = Inr (Again r') \<Longrightarrow> shell_step defs lib r (Typed l) r'"
| signalled: "shell_step defs lib r (Signalled s) (r\<lparr>r_world := signalHandler s (r_world r)\<rparr>)"

inductive_cases typedE: "shell_step defs lib r (Typed l) r'"
inductive_cases signalledE: "shell_step defs lib r (Signalled s) r'"

inductive shell_run :: "(string \<times> string) list \<Rightarrow> libraries \<Rightarrow> repl \<Rightarrow> happening list \<Rightarrow> repl \<Rightarrow> bool"
  for defs :: "(string \<times> string) list" and lib :: libraries where
  idle: "shell_run defs lib r [] r"
| happens: "shell_step defs lib r h r1 \<Longrightarrow> shell_run defs lib r1 hs r' \<Longrightarrow> shell_run defs lib r (h # hs) r'"

fun typed_lines :: "happening list \<Rightarrow> string list" where
  "typed_lines [] = []"
| "typed_lines (Typed l # hs) = l # typed_lines hs"
| "typed_lines (Signalled s # hs) = typed_lines hs"

text \<open>The parts of a session that signals do not reach.\<close>

definition effects :: "session \<Rightarrow> (fault + child_end) list \<times> string list \<times> nat" where
  "effects s = (programs s, past_lines s, open_fds s)"

lemma effects_step: "effects s = effects s' \<Longrightarrow> effects (type_line defs lib l s) = effects (type_line defs lib l s')"
  by (cases "line_kind defs lib (past_lines s') l") (simp_all add: effects_def type_line_def)

lemma effects_fold:
  "effects s = effects s' \<Longrightarrow> effects (fold (type_line defs lib) ls s) = effects (fold (type_line defs lib) ls s')"
proof (induction ls arbitrary: s s')
  case (Cons l ls)
  from Cons.IH [OF effects_step [OF Cons.prems]] show ?case by simp
qed simp

lemma signalled_step:
  assumes "shell_ready defs others lib (r_world r)" "r' = r\<lparr>r_world := signalHandler s (r_world r)\<rparr>"
  shows "shell_ready defs others lib (r_world r')" "effects (session_of r') = effects (session_of r)"
    "kills (w_events (r_world r')) = kills (w_events (r_world r))"
  using assms signalHandler_idle [of "r_world r" s]
  by (simp_all add: shell_ready_def to_parser_def parser_ready_def effects_def session_of_def)

lemma shell_run_invariant:
  assumes "shell_run defs lib r hs r'" "shell_ready defs others lib (r_world r)" "environment_ok lib"
  shows "shell_ready defs others lib (r_world r') \<and>
    effects (session_of r') = effects (fold (type_line defs lib) (typed_lines hs) (session_of r)) \<and>
    kills (w_events (r_world r')) = kills (w_events (r_world r))"
  using assms
proof (induction rule: shell_run.induct)
  case (idle r)
  then show ?case by simp
next
  case (happens r h r1 hs r')
  show ?case
  proof (cases h)
    case (Typed l)
    with happens.hyps(1) have l: "line_ok defs lib (r_history r) l"
      "open_count (w_fds (r_world r)) + 2 * line_size defs lib (r_history r) l \<le> fd_limit (lib_kernel lib)"
      "run_round lib (Some l) r = Inr (Again r1)"
      by (auto elim: typedE)
    have past: "past_lines (session_of r) = r_history r" by (simp add: session_of_def)
    have "shell_ready defs others lib (r_world r1)" "tidy (r_world r) (r_world r1)"
      "session_of r1 = type_line defs lib l (session_of r)"
      using round_run [of defs others lib r l] l happens.prems by (auto simp: environment_ok_def type_line_def past)
    with happens.IH happens.prems Typed show ?thesis by (auto simp: tidy_def)
  next
    case (Signalled s)
    with happens.hyps(1) have "r1 = r\<lparr>r_world := signalHandler s (r_world r)\<rparr>" by (auto elim: signalledE)
    note signal = signalled_step [OF happens.prems(1) this]
    from happens.IH [OF signal(1) happens.prems(2)] effects_fold [OF signal(2)] signal(3) Signalled
    show ?thesis by simp
  qed
qed

section \<open>The foreground process\<close>

lemma make_pipes_sel:
  "make_pipes k m j pipes w = (P, w') \<Longrightarrow> w_forks w' = w_forks w \<and> w_events w' = w_events w"
proof (induction m arbitrary: j pipes w)
  case (Suc m)
  obtain x w1 where x: "make_pipe k w = (x, w1)" by fastforce
  then have "w_forks w1 = w_forks w" "w_events w1 = w_events w"
    by (auto simp: make_pipe_def Let_def split: prod.splits if_splits)
  with Suc x show ?case by (cases x) auto
qed simp

lemma run_piped_no_fork:
  assumes "\<not> fst (alloc_ok (w_forks w))"
  shows "\<exists>l' w'. run_piped k stack n i m p c l w = Continue l' w' \<and> w_fg_pid w' = - 1 \<and>
    w_events w' = w_events w"
proof -
  let ?first = "m \<noteq> Some commandConnectionPipe"
  obtain P w1 where "(if ?first then make_pipes k (n - 1) 0 (l_pipes l) w else (l_pipes l, w)) = (P, w1)"
    by fastforce
  moreover from this have "w_forks w1 = w_forks w" "w_events w1 = w_events w"
    using make_pipes_sel [of k "n - 1" 0 "l_pipes l" w] by (auto split: if_splits)
  ultimately show ?thesis using assms
    by (auto simp: run_piped_def fork_child_def case_prod_beta Let_def)
qed

lemma free_command_fg: "free_command p w = Inr w' \<Longrightarrow> w_fg_pid w' = w_fg_pid w"
  by (auto simp: free_command_def rbind_eq_Inr_iff)

lemma run_plain_fg:
  "run_plain k ic oc m p c l w = Inr (Continue l' w') \<Longrightarrow> w_fg_pid w' = w_fg_pid w"
  by (auto simp: run_plain_def rbind_eq_Inr_iff fork_child_def restore_std_def dup_onto_def add_event_def
      case_prod_beta Let_def split: if_splits outcome.splits) (metis outcome.exhaust)+

section \<open>The end\<close>

text \<open>\<open>exit\<close> alone on its line: the process is gone, with the command, the queue and its node as they are.\<close>

definition exit_command :: "command_t \<Rightarrow> bool" where
  "exit_command c \<longleftrightarrow>
     (case argv c of Some (Some name # args) \<Rightarrow> path c = Some name \<and> cstr name = ''exit'' | _ \<Rightarrow> False) \<and>
     no_redirect c \<and> connectionMask c = commandConnectionNone"

lemma execute_exit_run:
  assumes q: "queue_holds_commands w q as [p] S" and fds: "standard_fds k (w_fds w)"
    and c: "exit_command (object_at (w_commands w) p)"
  shows "\<exists>w'. executeCommandsInQueue k stack junk (Some q) w = Inr (Gone w') \<and>
    w_shell w' = put_out (''Bye!'' @ newline) (w_shell w) \<and> w_commands w' = w_commands w \<and>
    w_children w' = w_children w \<and> w_events w' = w_events w"
proof -
  let ?c = "object_at (w_commands w) p"
  let ?w = "w\<lparr>w_fds := with_copies k (w_fds w)\<rparr>"
  let ?l = "\<lparr>l_queue = q, l_fd_in = - 1, l_fd_out = - 1, l_pid = - 1,
    l_pipes = map (\<lambda>j. stack (int j)) [0..<2 * (length [p] - 1)], l_launched = map junk [0..<length [p]], l_last = None\<rparr>"
  obtain ic oc where run: "executeCommandsInQueue k stack junk (Some q) w =
      rbind (job_loop k stack ic oc (length [p]) (length [p]) 0 ?l ?w) (\<lambda>f.
        case f of Continue l1 w1 \<Rightarrow> finish_jobs ic oc l1 w1 | _ \<Rightarrow> Inr f)"
    using q fds by (rule execute_start)
  obtain a where as: "as = [a]" using queue_holds_commands_length [OF q] by (auto simp: length_Suc_conv)
  have h: "holds_nodes (l_queue ?l) (w_nodes ?w) [a]" "items (w_nodes ?w) [a] = map Some [p]" "live_at (w_commands ?w) p"
    using q as by (auto simp: queue_holds_commands_def held_def)
  obtain name args where b: "argv ?c = Some (Some name # args)" "path ?c = Some name" "cstr name = ''exit''"
    "redirectFromPath ?c = None" "redirectToPath ?c = None" "connectionMask ?c = commandConnectionNone"
    using c by (auto simp: exit_command_def no_redirect_def split: option.splits list.splits)
  let ?w2 = "?w\<lparr>w_nodes := (w_nodes w)[a := None]\<rparr>"
  let ?w3 = "?w2\<lparr>w_shell := put_out (''Bye!'' @ newline) (w_shell w)\<rparr>"
  have exec: "executeCommand k ?c sh = Inr (Process_Exit, put_out (''Bye!'' @ newline) sh)" for sh
    using b(1,3) by (simp add: executeCommand_def executeBuiltin_run builtin_table_def cmd_exit_def)
  have "isBuiltin (chdir k) (path ?c) = Inr 1" using b(2,3) by (simp add: isBuiltin_run builtin_names_def)
  then have plain: "run_plain k ic oc None (Some p) ?c l' ?w2 = Inr (Gone ?w3)" if "queue_count (l_queue l') = 0" for l'
    using that b(6) exec by (simp add: run_plain_def)
  obtain q' where q': "holds_nodes q' ((w_nodes w)[a := None]) []"
    "job_step k stack ic oc (length [p]) 0 ?l ?w =
      rbind (run_plain k ic oc None (Some p) ?c (?l\<lparr>l_queue := q', l_fd_in := - 1, l_fd_out := - 1\<rparr>) ?w2) (\<lambda>f.
         case f of
           Continue l2 w7 \<Rightarrow>
             rbind (if l_last l2 \<noteq> None then free_command (l_last l2) w7 else Inr w7) (\<lambda>w8.
               Inr (Continue (l2\<lparr>l_last := Some p\<rparr>) w8))
         | _ \<Rightarrow> Inr f)"
    using job_step_pop [of ?l ?w a "[]" p "[]" k stack ic oc "length [p]" 0] h b(4-6)
    by (auto simp: redirect_in_def redirect_out_def)
  have "queue_count q' = 0" using q'(1) by (simp add: holds_nodes_def)
  with q'(2) plain have "job_step k stack ic oc (length [p]) 0 ?l ?w = Inr (Gone ?w3)" by simp
  then have "executeCommandsInQueue k stack junk (Some q) w = Inr (Gone ?w3)" using run by simp
  then show ?thesis by (intro exI [of _ ?w3]) simp
qed

lemma exit_round:
  assumes ready: "shell_ready defs others lib (r_world r)"
    and hist: "lib_history_expand lib (r_history r) l = (result, e)" "\<not> (result < 0 \<or> result = 2)" "length e < 2 ^ 62"
    and parse: "parse_line (cstr e) = Inr [x]" "fine (lib_wordexp lib) defs x"
    and c: "build (lib_wordexp lib) defs x = Some c" "exit_command c"
    and fds: "standard_fds (lib_kernel lib) (w_fds (r_world r))"
  shows "\<exists>w'. run_round lib (Some l) r = Inr (Exited 0 w') \<and> al_table (sh_aliases (w_shell w')) = None \<and>
    w_strings w' = command_strings c + add_mset e (add_mset l others) \<and>
    sh_out (w_shell w') = sh_out (w_shell (r_world r)) @ ''Bye!'' @ newline \<and>
    w_children w' = w_children (r_world r)"
proof -
  let ?w = "r_world r"
  let ?w1 = "new_string e (new_string l ?w)"
  have heap: "?w1 = set_heap (w_commands ?w) (add_mset e (add_mset l (w_strings ?w))) ?w"
    using new_lines(2) [OF ready] .
  have all: "all_fine (lib_wordexp lib) defs (cstr e)"
    using parse(2) parse_line_attempted [OF parse(1)] by (simp add: all_fine_def)
  obtain st' where st': "parseInput (lib_wordexp lib) e (lib_params lib) (to_parser (lib_params lib) ?w1) = Inr st'"
    "queued (lib_wordexp lib) defs (add_mset e (add_mset l others)) (to_parser (lib_params lib) ?w1) [x] st'"
    "messages st' = []"
    using parseInput_run [OF new_lines(1) [OF ready] hist(3) parse(1) all] by (auto simp: to_parser_def)
  let ?W = "from_parser st' ?w1"
  obtain q as ptrs S where q: "queue st' = Some q" "holds_nodes q (nodes st') as"
    "items (nodes st') as = map Some ptrs" "held ?W ptrs S"
    "list_all2 (\<lambda>a x. built (lib_wordexp lib) defs x (object_at (commands st') a)) ptrs [x]"
    "alias_ok ((aliases st')\<lparr>al_strings := S\<rparr>) (add_mset e (add_mset l others))"
    by (rule queued_world [OF st'(2), of ?w1]) (rule that; simp)
  obtain p where p: "ptrs = [p]" "object_at (commands st') p = c"
    using q(5) parse(2) c(1) by (auto simp: list_all2_Cons2 built_def)
  have as: "as \<noteq> []" using q(3) p(1) by (auto simp: items_def)
  have hold: "queue_holds_commands ?W q as [p] S" using q(2-4) p(1) by (simp add: queue_holds_commands_def)
  have "standard_fds (lib_kernel lib) (w_fds ?W)" using fds by (simp add: heap)
  from execute_exit_run [OF hold this, of "lib_stack lib" "lib_launched lib"] p(2) c(2)
  obtain w2 where w2: "executeCommandsInQueue (lib_kernel lib) (lib_stack lib) (lib_launched lib) (Some q) ?W = Inr (Gone w2)"
    "w_shell w2 = put_out (''Bye!'' @ newline) (w_shell ?W)" "w_children w2 = w_children ?W"
    by auto
  have strings: "al_strings (aliases st') = command_strings c + S"
    using q(4) p by (simp add: held_def)
  have "alias_ok (aliases st') (command_strings c + add_mset e (add_mset l others))"
    using q(6) strings by (auto simp: alias_ok_def split: option.splits)
  then obtain al where al: "destroyAliases (aliases st') = Inr al" "al_table al = None"
    "al_strings al = command_strings c + add_mset e (add_mset l others)"
    using destroyAliases_run by blast
  have shell: "sh_aliases (w_shell w2) = aliases st'" by (simp add: w2(2) put_out_def)
  let ?w3 = "w2\<lparr>w_shell := (w_shell w2)\<lparr>sh_aliases := al\<rparr>\<rparr>"
  have "cleanup w2 = Inr ?w3" using al(1) by (simp add: cleanup_def exit_handler_def shell)
  then have "run_round lib (Some l) r = Inr (Exited 0 ?w3)"
    using hist(1,2) st'(1) q(1) w2(1) by (simp add: run_round_def run_queue_def Let_def)
  moreover have "sh_out (w_shell ?w3) = sh_out (w_shell ?w) @ ''Bye!'' @ newline" "w_children ?w3 = w_children ?w"
    using w2(2,3) st'(3) by (simp_all add: put_out_def heap) (simp add: set_heap_def)
  ultimately show ?thesis using al(2,3) by (intro exI [of _ ?w3]) simp
qed

section \<open>The start\<close>

text \<open>A process that has just been started, with memory, descriptors and forks to spare, and with the
  static variables at zero.\<close>

definition fresh_process :: "libraries \<Rightarrow> world \<Rightarrow> bool" where
  "fresh_process lib w \<longleftrightarrow>
     length (buffer (lib_params lib)) = Suc BUFSIZE \<and> length (fsm_stdin (lib_params lib)) = Suc BUFSIZE \<and>
     length (fsm_stdout (lib_params lib)) = Suc BUFSIZE \<and>
     al_table (sh_aliases (w_shell w)) = None \<and> False \<notin> set (al_oom (sh_aliases (w_shell w))) \<and>
     False \<notin> set (w_forks w) \<and> 0 < w_next_pid w \<and> w_fg_pid w = 0 \<and>
     fd_channel (w_fds w) 0 \<noteq> None \<and> fd_channel (w_fds w) 1 \<noteq> None"

lemma main_run:
  assumes sig: "sigaction SIGINT" "sigaction SIGCHLD" and w: "fresh_process lib w"
    and pr: "prompt pr = None" "False \<notin> set (pr_oom pr)" "pr_strings pr = {#name#}" "length host < BUFSIZE"
  shows "\<exists>pr' al. (\<forall>input. main lib sigaction (Some (On_Heap name)) host input w pr =
      rbind (run lib input (fresh_repl lib (w\<lparr>w_shell := (w_shell w)\<lparr>sh_aliases := al\<rparr>\<rparr>)))
        (\<lambda>x. Inr (pr', x))) \<and>
    getPrompt pr' = Some (On_Heap (snprintf BUFSIZE (prompt_text (cstr name) host))) \<and>
    pr_strings pr' = {#snprintf BUFSIZE (prompt_text (cstr name) host)#} \<and>
    shell_ready [] (w_strings w) lib (w\<lparr>w_shell := (w_shell w)\<lparr>sh_aliases := al\<rparr>\<rparr>)"
proof -
  have mem: "False \<notin> set (al_oom (sh_aliases (w_shell w)))" using w by (simp add: fresh_process_def)
  obtain al where al: "initializeAliases (sh_aliases (w_shell w)) = Inr al" "alias_ok al (w_strings w)"
    "alias_lookup al = (\<lambda>_. None)" "False \<notin> set (al_oom al)"
    using mem by (rule session_start)
  obtain pr' where pr': "setPrompt (Some (On_Heap name)) host None pr = Inr (0, pr')"
    "getPrompt pr' = Some (On_Heap (snprintf BUFSIZE (prompt_text (cstr name) host)))"
    "pr_strings pr' = {#snprintf BUFSIZE (prompt_text (cstr name) host)#}"
    using setPrompt_run [of pr None host name "{#}"] pr by auto
  have "main lib sigaction (Some (On_Heap name)) host input w pr =
      rbind (run lib input (fresh_repl lib (w\<lparr>w_shell := (w_shell w)\<lparr>sh_aliases := al\<rparr>\<rparr>)))
        (\<lambda>x. Inr (pr', x))" for input
    using sig al(1) pr'(1) by (simp add: main_def setupSignalHandler_def)
  moreover have "shell_ready [] (w_strings w) lib (w\<lparr>w_shell := (w_shell w)\<lparr>sh_aliases := al\<rparr>\<rparr>)"
    using w al(2-4)
    by (simp add: shell_ready_def parser_ready_def to_parser_def fresh_process_def describes_def
        available_def released_def fun_eq_iff)
  ultimately show ?thesis using pr'(2,3) by blast
qed

section \<open>Properties\<close>

text \<open>From the start of the process: \<open>main\<close> sets the prompt, makes the alias table and runs the
  lines, and what one sees of the shell afterwards is what the abstract session without aliases
  gives. (The user name has to lie in a heap block of its own, see \<open>main_start_fails\<close>.)\<close>

theorem main_session:
  assumes "sigaction SIGINT" "sigaction SIGCHLD" "fresh_process lib w"
    and "prompt pr = None" "False \<notin> set (pr_oom pr)" "pr_strings pr = {#name#}" "length host < BUFSIZE"
    and "environment_ok lib" "session_ok [] lib ls (session_of (fresh_repl lib w))"
  shows "\<exists>pr' r'. main lib sigaction (Some (On_Heap name)) host (map Some ls) w pr = Inr (pr', Again r') \<and>
    getPrompt pr' = Some (On_Heap (snprintf BUFSIZE (prompt_text (cstr name) host))) \<and>
    pr_strings pr' = {#snprintf BUFSIZE (prompt_text (cstr name) host)#} \<and>
    session_of r' = fold (type_line [] lib) ls (session_of (fresh_repl lib w)) \<and>
    shell_ready [] (w_strings w) lib (r_world r')"
proof -
  obtain pr' al where m: "main lib sigaction (Some (On_Heap name)) host (map Some ls) w pr =
      rbind (run lib (map Some ls) (fresh_repl lib (w\<lparr>w_shell := (w_shell w)\<lparr>sh_aliases := al\<rparr>\<rparr>)))
        (\<lambda>x. Inr (pr', x))"
    "getPrompt pr' = Some (On_Heap (snprintf BUFSIZE (prompt_text (cstr name) host)))"
    "pr_strings pr' = {#snprintf BUFSIZE (prompt_text (cstr name) host)#}"
    "shell_ready [] (w_strings w) lib (w\<lparr>w_shell := (w_shell w)\<lparr>sh_aliases := al\<rparr>\<rparr>)"
    using main_run [OF assms(1-7)] by blast
  let ?r = "fresh_repl lib (w\<lparr>w_shell := (w_shell w)\<lparr>sh_aliases := al\<rparr>\<rparr>)"
  have same: "session_of ?r = session_of (fresh_repl lib w)" by (simp add: session_of_def)
  from run_session [of "[]" "w_strings w" lib ?r ls] m assms(8,9) show ?thesis
    unfolding same by auto
qed

text \<open>C36. The ways the start goes wrong: if a handler cannot be installed, the exit handler frees an
  alias table that was never made; if the user name lies in the library's own storage, as POSIX
  allows, \<open>setPrompt\<close> frees a block that is not its own; an unknown user is read through NULL.\<close>

theorem main_start_fails:
  assumes "prompt pr = None" "False \<notin> set (pr_oom pr)" "length host < BUFSIZE"
    and "al_table (sh_aliases (w_shell w)) = None"
  shows "main lib sigaction user host input w pr =
      (if \<not> (sigaction SIGINT \<and> sigaction SIGCHLD) then Inl NullPointer
       else main lib (\<lambda>_. True) user host input w pr) \<and>
    main lib (\<lambda>_. True) (Some (Not_On_Heap name)) host input w pr = Inl BadPointer \<and>
    main lib (\<lambda>_. True) None host input w pr = Inl NullPointer"
  using setPrompt_passwd_run [OF assms(1-3), of name] assms(4)
  by (auto simp: main_def setupSignalHandler_def cleanup_def exit_handler_def destroyAliases_def the_table_def put_err_world_def)

text \<open>C17. Signals between lines. Whatever signals arrive while the shell waits for its lines, in any
  order with them: the handler sends no signal to any process, the shell stays ready, and the
  programs, the history and the descriptors are those of the session of the typed lines alone.\<close>

theorem signals_between_lines:
  assumes "shell_run defs lib r hs r'" "shell_ready defs others lib (r_world r)" "environment_ok lib"
  shows "shell_ready defs others lib (r_world r') \<and>
    effects (session_of r') = effects (fold (type_line defs lib) (typed_lines hs) (session_of r)) \<and>
    kills (w_events (r_world r')) = kills (w_events (r_world r))"
  using shell_run_invariant [OF assms] .

text \<open>C35. The foreground process of the signal handler. For a command outside a pipeline \<open>fg_pid\<close> is
  not set, so SIGINT is sent to no process; when a fork fails inside a pipeline, \<open>fg_pid\<close> becomes
  -1, and SIGINT is sent to every process that the shell may signal.\<close>

theorem interrupt_targets:
  assumes "\<not> fst (alloc_ok (w_forks w))"
  shows "(\<exists>l' w'. run_piped k stack n i m p c l w = Continue l' w' \<and>
      kills (w_events (signalHandler SIGINT w')) = kills (w_events w) @ [Killed (- 1) SIGINT]) \<and>
    (\<forall>v l' w'. run_plain k ic oc m p c l v = Inr (Continue l' w') \<and> w_fg_pid v = 0 \<longrightarrow>
      kills (w_events (signalHandler SIGINT w')) = kills (w_events w'))"
  using run_piped_no_fork [OF assms, of k stack n i m p c l] signalHandler_foreground(1) signalHandler_idle(2)
    run_plain_fg [of k ic oc m p c l]
  by fastforce

text \<open>The line \<open>exit\<close>: the shell says so and ends with status 0, after the exit handler has freed
  the alias table with every key and value; no process is started. Of the heap strings only the
  line, its expansion and the words of the command itself are left.\<close>

theorem exit_runs_cleanup:
  assumes "shell_ready defs others lib (r_world r)"
    and "lib_history_expand lib (r_history r) l = (result, e)" "\<not> (result < 0 \<or> result = 2)" "length e < 2 ^ 62"
    and "parse_line (cstr e) = Inr [x]" "fine (lib_wordexp lib) defs x"
    and "build (lib_wordexp lib) defs x = Some c" "exit_command c"
    and "standard_fds (lib_kernel lib) (w_fds (r_world r))"
  shows "\<exists>w'. run_round lib (Some l) r = Inr (Exited 0 w') \<and> al_table (sh_aliases (w_shell w')) = None \<and>
    w_strings w' = command_strings c + add_mset e (add_mset l others) \<and>
    sh_out (w_shell w') = sh_out (w_shell (r_world r)) @ ''Bye!'' @ newline \<and>
    w_children w' = w_children (r_world r)"
  using exit_round [OF assms] .

section \<open>Witnesses\<close>

definition small_world :: world where
  "small_world = world_with (home_shell\<lparr>sh_aliases := no_aliases\<rparr>) []"

definition small_prompt :: prompt_state where
  "small_prompt = \<lparr>prompt = None, pr_strings = {#''root''#}, pr_oom = []\<rparr>"

lemma small_world_fresh: "fresh_process small_libraries small_world"
  by (simp add: fresh_process_def small_libraries_def fresh_params_def small_world_def)
    (simp add: world_with_def no_aliases_def fd_channel_def)

lemma small_world_session:
  "session_of (fresh_repl small_libraries small_world) =
    \<lparr>programs = [], past_lines = [], error_output = [], open_fds = 3\<rparr>"
  by (simp add: session_of_def small_world_def) (simp add: world_with_def home_shell_def open_count_def)

theorem main_session_witness:
  "\<exists>pr' r'. main small_libraries (\<lambda>_. True) (Some (On_Heap ''root'')) ''box'' (map Some [''ls | wc'', ''!!'']) small_world
      small_prompt = Inr (pr', Again r') \<and>
    r_history r' = [''ls | wc'', ''ls | wc''] \<and> length (w_children (r_world r')) = 4"
proof -
  let ?s = "\<lparr>programs = [], past_lines = [], error_output = [], open_fds = 3\<rparr>"
  have ok: "session_ok [] small_libraries [''ls | wc'', ''!!''] (session_of (fresh_repl small_libraries small_world))"
    unfolding small_world_session by code_simp
  have result: "fold (type_line [] small_libraries) [''ls | wc'', ''!!''] ?s =
    \<lparr>programs = [Inr (Runs (Some ''ls'') [''ls'']), Inr (Runs (Some ''wc'') [''wc'']),
       Inr (Runs (Some ''ls'') [''ls'']), Inr (Runs (Some ''wc'') [''wc''])],
     past_lines = [''ls | wc'', ''ls | wc''], error_output = [], open_fds = 7\<rparr>"
    by code_simp
  have pr: "prompt small_prompt = None" "False \<notin> set (pr_oom small_prompt)" "pr_strings small_prompt = {#''root''#}"
    "length ''box'' < BUFSIZE"
    by (simp_all add: small_prompt_def BUFSIZE_def)
  obtain pr' r' where r: "main small_libraries (\<lambda>_. True) (Some (On_Heap ''root'')) ''box'' (map Some [''ls | wc'', ''!!''])
      small_world small_prompt = Inr (pr', Again r')"
    "session_of r' = fold (type_line [] small_libraries) [''ls | wc'', ''!!'']
      (session_of (fresh_repl small_libraries small_world))"
    using main_session [where sigaction = "\<lambda>_. True", OF TrueI TrueI small_world_fresh pr small_environment ok]
    by blast
  have "r_history r' = [''ls | wc'', ''ls | wc'']" "length (map child_end (w_children (r_world r'))) = 4"
    using r(2) unfolding small_world_session result by (simp_all add: session_of_def)
  with r(1) show ?thesis by auto
qed

theorem main_start_fails_witness:
  "main small_libraries (\<lambda>_. True) (Some (Not_On_Heap ''root'')) ''box'' [Some ''ls''] small_world
    \<lparr>prompt = None, pr_strings = {#}, pr_oom = []\<rparr> = Inl BadPointer"
  by (rule main_start_fails [THEN conjunct2, THEN conjunct1])
    (simp_all add: BUFSIZE_def small_world_def world_with_def no_aliases_def)

lemma small_ls: "\<exists>r'. run_round small_libraries (Some ''ls'') small_repl = Inr (Again r') \<and>
    shell_step ll_alias small_libraries small_repl (Typed ''ls'') r'"
proof -
  have past: "r_history small_repl = []" "open_count (w_fds (r_world small_repl)) = 3"
    by (simp_all add: small_repl_def open_count_def)
  have ok: "line_ok ll_alias small_libraries (r_history small_repl) ''ls''"
    "3 + 2 * line_size ll_alias small_libraries (r_history small_repl) ''ls'' \<le> fd_limit (lib_kernel small_libraries)"
    unfolding past by code_simp+
  from round_run [OF small_repl_ready ok(1)] ok small_environment past(2) show ?thesis
    by (auto simp: environment_ok_def intro!: shell_step.typed)
qed

theorem signals_between_lines_witness:
  "\<exists>r1 r2. run_round small_libraries (Some ''ls'') small_repl = Inr (Again r1) \<and>
    r2 = r1\<lparr>r_world := signalHandler SIGINT (r_world r1)\<rparr> \<and>
    kills (w_events (r_world r2)) = kills (w_events (r_world small_repl))"
proof -
  obtain r1 where r1: "run_round small_libraries (Some ''ls'') small_repl = Inr (Again r1)"
    "shell_step ll_alias small_libraries small_repl (Typed ''ls'') r1"
    using small_ls by blast
  let ?r2 = "r1\<lparr>r_world := signalHandler SIGINT (r_world r1)\<rparr>"
  have "shell_run ll_alias small_libraries small_repl [Typed ''ls'', Signalled SIGINT] ?r2"
    using r1(2) shell_step.signalled by (blast intro: shell_run.intros)
  from signals_between_lines [OF this small_repl_ready small_environment] r1(1) show ?thesis by blast
qed

theorem interrupt_targets_witness:
  "\<exists>l' w'. run_piped small_kernel (\<lambda>_. - 1) 2 0 None (Some 0) (simple_command [''ls''] commandConnectionPipe)
      \<lparr>l_queue = listed_queue 1, l_fd_in = - 1, l_fd_out = - 1, l_pid = - 1, l_pipes = [0, 0], l_launched = [0, 0],
       l_last = None\<rparr> (small_world\<lparr>w_forks := [False]\<rparr>) = Continue l' w' \<and>
    kills (w_events (signalHandler SIGINT w')) = [Killed (- 1) SIGINT]"
proof -
  have "\<not> fst (alloc_ok (w_forks (small_world\<lparr>w_forks := [False]\<rparr>)))" by simp
  moreover have "kills (w_events (small_world\<lparr>w_forks := [False]\<rparr>)) = []" by (simp add: small_world_def)
  ultimately show ?thesis using interrupt_targets by (metis append_Nil)
qed

theorem exit_runs_cleanup_witness:
  "\<exists>w'. run_round small_libraries (Some ''exit'') small_repl = Inr (Exited 0 w') \<and>
    al_table (sh_aliases (w_shell w')) = None \<and> w_children w' = []"
proof -
  let ?x = "\<lparr>raw_text = ''exit'', raw_in = [], raw_out = [], raw_conn = commandConnectionNone\<rparr>"
  let ?c = "command_of spaced_wordexp ?x [''exit'']"
  have lib: "lib_wordexp small_libraries = spaced_wordexp" "lib_kernel small_libraries = small_kernel"
    "r_history small_repl = []"
    by (simp_all add: small_libraries_def small_repl_def)
  have hist: "lib_history_expand small_libraries (r_history small_repl) ''exit'' = (0, ''exit'')"
    by (simp add: small_libraries_def small_history_def)
  have parse: "parse_line (cstr ''exit'') = Inr [?x]" "fine (lib_wordexp small_libraries) ll_alias ?x"
    unfolding lib by code_simp+
  have c: "build (lib_wordexp small_libraries) ll_alias ?x = Some ?c" unfolding lib by code_simp
  have exit: "exit_command ?c" by code_simp
  have std: "standard_fds (lib_kernel small_libraries) (w_fds (r_world small_repl))"
    unfolding lib using small_kernel_fds by (simp add: small_repl_def)
  have len: "length ''exit'' < 2 ^ 62" by simp
  from exit_runs_cleanup [OF small_repl_ready hist _ len parse c exit std] show ?thesis
    by (auto simp: small_repl_def)
qed

end
