(* ===== verification/Jobs_Safe.thy ===== *)
theory Jobs_Safe
  imports Pipelines Parse_Input
begin

text \<open>
  The execution of any queue of runnable commands: pipes, lists, background, redirections, builtins
  and exits in any mixture, with files that cannot be opened, forks that fail and a table of
  descriptors that is full. \<open>sane\<close> is the invariant of the loop: the commands that are still to be
  freed are alive and own their strings, the aliases own theirs, and no child has faulted. Every
  step keeps it (preservation) and does not fault (progress); both are lifted to the loop by
  induction over the commands that are left.
\<close>

section \<open>The invariant\<close>

text \<open>A command has a name, and \<open>export\<close> an argument.\<close>

definition runnable :: "command_t \<Rightarrow> bool" where
  "runnable c \<longleftrightarrow>
     (case argv c of
        Some (Some name # args) \<Rightarrow>
          path c = Some name \<and> argv_ok args \<and> (cstr name = ''export'' \<longrightarrow> hd args \<noteq> None)
      | _ \<Rightarrow> False)"

lemma runnableE:
  assumes "runnable c"
  obtains name args where "argv c = Some (Some name # args)" "path c = Some name" "argv_ok args"
    "cstr name = ''export'' \<longrightarrow> hd args \<noteq> None" "command_ok c"
  using assms by (auto simp: runnable_def command_ok_def argv_ok_def split: option.splits list.splits)

definition sane :: "nat \<Rightarrow> strheap \<Rightarrow> world \<Rightarrow> nat list \<Rightarrow> bool" where
  "sane room S w ptrs \<longleftrightarrow>
     distinct ptrs \<and>
     (\<forall>a \<in> set ptrs. live_at (w_commands w) a \<and> runnable (object_at (w_commands w) a)) \<and>
     alias_ok (sh_aliases (w_shell w)) (strings_of (w_commands w) ptrs + S) \<and>
     False \<notin> set (al_oom (sh_aliases (w_shell w))) \<and> alias_count (sh_aliases (w_shell w)) \<le> room \<and>
     unmarked (sh_aliases (w_shell w)) \<and> length (sh_cwd (w_shell w)) < BUFSIZE \<and>
     list_all (\<lambda>c. \<not> isl (child_end c)) (w_children w)"

definition queue_sane :: "queue_t \<Rightarrow> world \<Rightarrow> nat list \<Rightarrow> bool" where
  "queue_sane q w ps \<longleftrightarrow>
     (\<exists>as. holds_nodes q (w_nodes w) as \<and> items (w_nodes w) as = map Some ps \<and>
        (\<forall>a \<in> set as. freeFunction (object_at (w_nodes w) a) = commandFree))"

text \<open>Steps that touch descriptors, events and messages only.\<close>

definition core :: "world \<Rightarrow> world \<Rightarrow> bool" where
  "core w w' \<longleftrightarrow>
     w_commands w' = w_commands w \<and> w_nodes w' = w_nodes w \<and> w_children w' = w_children w \<and>
     sh_aliases (w_shell w') = sh_aliases (w_shell w) \<and> sh_env (w_shell w') = sh_env (w_shell w) \<and>
     sh_cwd (w_shell w') = sh_cwd (w_shell w) \<and> sh_out (w_shell w') = sh_out (w_shell w)"

text \<open>Steps that leave the aliases, the environment, the directory and the output of the shell alone.\<close>

definition same_shell :: "world \<Rightarrow> world \<Rightarrow> bool" where
  "same_shell w w' \<longleftrightarrow>
     alias_lookup (sh_aliases (w_shell w')) = alias_lookup (sh_aliases (w_shell w)) \<and>
     sh_env (w_shell w') = sh_env (w_shell w) \<and> sh_cwd (w_shell w') = sh_cwd (w_shell w) \<and>
     sh_out (w_shell w') = sh_out (w_shell w)"

lemma same_shell_refl [simp]: "same_shell w w"
  by (simp add: same_shell_def)

lemma same_shell_trans [trans]: "same_shell w w1 \<Longrightarrow> same_shell w1 w2 \<Longrightarrow> same_shell w w2"
  by (simp add: same_shell_def)

lemma core_same_shell: "core w w' \<Longrightarrow> same_shell w w'"
  by (simp add: core_def same_shell_def)

text \<open>The commands that the shell runs itself when they end a line.\<close>

definition runs_in_shell :: "command_t \<Rightarrow> bool" where
  "runs_in_shell c \<longleftrightarrow>
     connectionMask c \<noteq> commandConnectionBackground \<and>
     (case path c of None \<Rightarrow> False | Some name \<Rightarrow> cstr name \<in> set builtin_names)"

lemma core_refl [simp]: "core w w"
  by (simp add: core_def)

lemma core_trans [trans]: "core w w1 \<Longrightarrow> core w1 w2 \<Longrightarrow> core w w2"
  by (simp add: core_def)

lemma sane_core: "core w w' \<Longrightarrow> sane room S w' ptrs = sane room S w ptrs"
  by (simp add: core_def sane_def)

lemma queue_sane_core: "core w w' \<Longrightarrow> queue_sane q w' ps = queue_sane q w ps"
  by (simp add: core_def queue_sane_def)

lemma sane_nodes [simp]: "sane room S (w\<lparr>w_nodes := ns\<rparr>) ptrs = sane room S w ptrs"
  by (simp add: sane_def)

lemma core_ops [intro]:
  "core w (wait_if b pid w)" "core w (close_fd fd w)" "core w (dup_onto fd j w)" "core w (complain f msg w)"
  "core w (restore_std ic oc w)" "core w (w\<lparr>w_fds := t\<rparr>)" "core w (w\<lparr>w_fg_pid := pid\<rparr>)" "core w (w\<lparr>w_forks := fs\<rparr>)"
  "core w (fold waitpid pids w)"
  using fold_waitpid [of pids w]
  by (simp_all add: core_def close_fd_def dup_onto_def complain_def restore_std_def perror_def put_err_def)

lemma core_sys_open: "sys_open k answer ch f w = (fd, msg, w') \<Longrightarrow> core w w'"
  by (auto simp: sys_open_def Let_def core_def split: option.splits prod.splits)

lemma core_redirect_in:
  "case redirect_in k c w of Inl w' \<Rightarrow> core w w' | Inr (fd, w') \<Rightarrow> core w w'"
proof (cases "redirectFromPath c")
  case (Some f)
  obtain fd msg w1 where o: "sys_open k (open_read k) Read_File f w = (fd, msg, w1)" by (metis prod_cases3)
  show ?thesis using Some o core_sys_open [OF o] core_trans core_ops(4) by (auto simp: redirect_in_def)
qed (simp add: redirect_in_def)

lemma core_redirect_out:
  "case redirect_out k c fd_in w of Inl w' \<Rightarrow> core w w' | Inr (fd, w') \<Rightarrow> core w w'"
proof (cases "redirectToPath c")
  case (Some f)
  obtain fd msg w1 where o: "sys_open k (open_write k) Write_File f w = (fd, msg, w1)" by (metis prod_cases3)
  have "core w (complain f msg w1)" using core_sys_open [OF o] core_trans core_ops(4) by blast
  moreover from this have "core w ((complain f msg w1)\<lparr>w_fds := t\<rparr>)" for t using core_trans core_ops(6) by blast
  ultimately show ?thesis using Some o core_sys_open [OF o] by (auto simp: redirect_out_def Let_def)
qed (simp add: redirect_out_def)

lemma core_make_pipes: "make_pipes k m j pipes w = (P, w') \<Longrightarrow> core w w'"
proof (induction m arbitrary: j pipes w)
  case (Suc m)
  obtain x w1 where x: "make_pipe k w = (x, w1)" by fastforce
  then have "core w w1" by (auto simp: make_pipe_def Let_def core_def split: prod.splits if_splits)
  with Suc x show ?case by (cases x) (auto intro: core_trans)
qed simp

section \<open>Executing one command\<close>

lemma strings_of_append: "strings_of h (as @ bs) = strings_of h as + strings_of h bs"
  by (simp add: strings_of_def)

lemma kept_refl: "shell_ok others sh \<Longrightarrow> sh_aliases sh' = sh_aliases sh \<Longrightarrow> kept others sh sh'"
  by (simp add: kept_def shell_ok_def)

lemma executeCommand_safe:
  assumes "runnable c" "shell_ok others sh" "length (sh_cwd sh) < BUFSIZE"
  shows "\<exists>r sh'. executeCommand k c sh = Inr (r, sh') \<and> kept others sh sh' \<and>
    (sh_cwd sh' = sh_cwd sh \<or> (\<exists>d p. chdir k d p = Inr (sh_cwd sh')))"
proof -
  obtain name args where c: "argv c = Some (Some name # args)" "path c = Some name" "argv_ok args"
    "cstr name = ''export'' \<longrightarrow> hd args \<noteq> None"
    using assms(1) by (rule runnableE)
  show ?thesis
  proof (cases "map_of (builtin_table (chdir k)) (cstr name)")
    case None
    have "kept others sh (put_err m sh)" "kept others sh (perror f m sh)" "kept others sh sh" for m f
      using assms(2) by (auto intro!: kept_refl simp: put_err_def perror_def)
    with None c(1) show ?thesis
      by (auto simp: executeCommand_def executeBuiltin_run split: exec_result.splits)
  next
    case (Some f)
    obtain r sh' where r: "f args sh = Inr (r, sh')" "kept others sh sh'"
      using builtin_kept [OF assms(2) c(3) Some _ assms(3)] c(4) by blast
    from r builtin_cwd [OF Some r(1)] Some c(1) show ?thesis
      by (cases r) (auto simp: executeCommand_def executeBuiltin_run)
  qed
qed

lemma sane_shell_ok:
  "sane room S w ptrs \<Longrightarrow> room < 536870914 \<Longrightarrow>
   shell_ok (strings_of (w_commands w) ptrs + S) (w_shell w) \<and> length (sh_cwd (w_shell w)) < BUFSIZE"
  by (simp add: sane_def shell_ok_def)

lemma exit_child_safe: "alias_ok (sh_aliases sh) others \<Longrightarrow> \<exists>e. exit_child parent s sh = Inr e"
  using destroyAliases_run [of "sh_aliases sh" others] by (auto simp: exit_child_def exit_handler_def)

lemma run_in_child_safe:
  assumes "sane room S w ptrs" "room < 536870914" "runnable c"
    and copies: "\<And>sh. alias_ok (sh_aliases sh) (strings_of (w_commands w) ptrs + S) \<Longrightarrow>
      \<exists>sh' others. copies sh = Inr sh' \<and> alias_ok (sh_aliases sh') others"
  shows "\<exists>e. run_in_child k c copies w = Inr e"
proof -
  obtain r sh where r: "executeCommand k c (w_shell w) = Inr (r, sh)"
    "kept (strings_of (w_commands w) ptrs + S) (w_shell w) sh"
    using executeCommand_safe [OF assms(3)] sane_shell_ok [OF assms(1,2)] by blast
  then have ok: "alias_ok (sh_aliases sh) (strings_of (w_commands w) ptrs + S)" by (simp add: kept_def)
  obtain sh' others where sh': "copies sh = Inr sh'" "alias_ok (sh_aliases sh') others"
    using copies [OF ok] by blast
  have "\<exists>e. end_child (w_shell w) r copies sh = Inr e"
    using exit_child_safe [OF ok] exit_child_safe [OF sh'(2)] sh'(1) by (cases r) (auto simp: end_child_def)
  then show ?thesis using r(1) by (simp add: run_in_child_def)
qed

text \<open>A piped child frees its copies of its own command and of the queue.\<close>

lemma free_copies_safe:
  assumes "sane room S w (lasts @ p # ps)" "queue_sane q w ps"
    and "alias_ok (sh_aliases sh) (strings_of (w_commands w) (lasts @ p # ps) + S)"
  shows "\<exists>sh' others. free_copies (Some p) q w sh = Inr sh' \<and> alias_ok (sh_aliases sh') others"
proof -
  let ?h = "w_commands w"
  have d: "p \<notin> set ps" "distinct ps" "live_at ?h p" "command_ok (object_at ?h p)"
    "\<forall>a \<in> set ps. live_at ?h a \<and> command_ok (object_at ?h a)"
    using assms(1) by (auto simp: sane_def elim: runnableE)
  obtain as where as: "holds_nodes q (w_nodes w) as" "items (w_nodes w) as = map Some ps"
    "\<forall>a \<in> set as. freeFunction (object_at (w_nodes w) a) = commandFree"
    using assms(2) by (auto simp: queue_sane_def)
  let ?A = "command_strings (object_at ?h p) + strings_of ?h ps"
  let ?X = "al_strings (sh_aliases sh) - ?A"
  have ok: "alias_ok (sh_aliases sh) (?A + (strings_of ?h lasts + S))"
    using assms(3) by (simp add: strings_of_append ac_simps)
  have strs: "al_strings (sh_aliases sh) = command_strings (object_at ?h p) + (strings_of ?h ps + ?X)"
    using alias_ok_swap(1) [OF ok] by (metis add.assoc subset_mset.add_diff_inverse)
  let ?h' = "?h[p := None]"
  have free: "commandFree (Some p) (?h, al_strings (sh_aliases sh)) = Inr (?h', strings_of ?h' ps + ?X)"
    using commandFree_run [OF d(3,4), of "strings_of ?h ps + ?X"] strs d(1) by (simp add: strings_of_release)
  have live: "\<forall>a \<in> set ps. live_at ?h' a \<and> command_ok (object_at ?h' a)"
    using d(1,5) by (metis live_at_release object_at_release)
  have "map (\<lambda>a. (commandFree, data (object_at (w_nodes w) a))) as =
      map (\<lambda>x. (commandFree, x)) (items (w_nodes w) as)"
    by (simp add: items_def)
  then have "pending (w_nodes w) as = map (\<lambda>a. (commandFree, Some a)) ps"
    using as(2,3) by (simp add: pending_def cong: map_cong)
  with free queueFree_run [OF as(1)] run_frees_commands [OF d(2) live]
  have "free_copies (Some p) q w sh = Inr (sh\<lparr>sh_aliases := (sh_aliases sh)\<lparr>al_strings := ?X\<rparr>\<rparr>)"
    by (simp add: free_copies_def)
  moreover have "alias_ok ((sh_aliases sh)\<lparr>al_strings := ?X\<rparr>) (strings_of ?h lasts + S)"
    using alias_ok_swap(2) [where st = "sh_aliases sh" and B = "{#}" and oom = "al_oom (sh_aliases sh)", OF ok] by simp
  ultimately show ?thesis by auto
qed

section \<open>The two kinds of commands\<close>

lemma fork_safe:
  assumes "sane room S w ptrs" "queue_sane q w ps" "snd (body w) = Inr e"
  shows "case fork_child body w of (pid, w') \<Rightarrow>
    sane room S w' ptrs \<and> queue_sane q w' ps \<and> w_commands w' = w_commands w \<and> same_shell w w'"
proof (cases "fst (alloc_ok (w_forks w))")
  case True
  with assms show ?thesis
    by (simp add: fork_child_run) (simp add: spawn_def sane_def queue_sane_def same_shell_def)
next
  case False
  have "core w (w\<lparr>w_forks := snd (alloc_ok (w_forks w))\<rparr>)" by (simp add: core_def)
  with False assms(1,2) show ?thesis
    by (simp add: fork_child_def case_prod_beta sane_core queue_sane_core core_same_shell)
qed

lemma run_piped_safe:
  assumes s: "sane room S w (lasts @ p # ps)" "room < 536870914" and q: "queue_sane (l_queue l) w ps"
    and c: "object_at (w_commands w) p = c"
  shows "\<exists>l' w'. run_piped k stack n i m (Some p) c l w = Continue l' w' \<and> l_queue l' = l_queue l \<and>
    l_last l' = l_last l \<and> sane room S w' (lasts @ p # ps) \<and> queue_sane (l_queue l) w' ps \<and>
    w_commands w' = w_commands w \<and> same_shell w w'"
proof -
  let ?first = "m \<noteq> Some commandConnectionPipe"
  obtain P w1 where w1: "(if ?first then make_pipes k (n - 1) 0 (l_pipes l) w else (l_pipes l, w)) = (P, w1)"
    by fastforce
  then have c1: "core w w1" using core_make_pipes [of k "n - 1" 0 "l_pipes l" w P w1] by (auto split: if_splits)
  then have s1: "sane room S w1 (lasts @ p # ps)" "queue_sane (l_queue l) w1 ps" "w_commands w1 = w_commands w"
    using s(1) q by (simp_all add: sane_core queue_sane_core) (simp add: core_def)
  have run: "runnable c" using s(1) c by (simp add: sane_def)
  let ?body = "\<lambda>w0. (wire_child stack P n (int i) ?first (connectionMask c = commandConnectionPipe) (w_fds w0),
      run_in_child k c (free_copies (Some p) (l_queue l) w0) w0)"
  obtain e where e: "run_in_child k c (free_copies (Some p) (l_queue l) w1) w1 = Inr e"
    using run_in_child_safe [where copies = "free_copies (Some p) (l_queue l) w1", OF s1(1) s(2) run]
      free_copies_safe [OF s1(1,2)] by blast
  obtain pid w2 where f: "fork_child ?body w1 = (pid, w2)" by fastforce
  then have s2: "sane room S w2 (lasts @ p # ps)" "queue_sane (l_queue l) w2 ps" "w_commands w2 = w_commands w"
    "same_shell w1 w2"
    using fork_safe [OF s1(1,2), of ?body e] e s1(3) by simp_all
  have c3: "core w2 (w2\<lparr>w_fg_pid := pid\<rparr>)" by (rule core_ops)
  have "same_shell w (w2\<lparr>w_fg_pid := pid\<rparr>)"
    using core_same_shell [OF c1] s2(4) core_same_shell [OF c3] same_shell_trans by blast
  with s2 w1 f c3 show ?thesis
    by (simp add: run_piped_def Let_def sane_core queue_sane_core)
qed

lemma free_command_safe:
  assumes "sane room S w (as @ p # bs)"
  shows "\<exists>w'. free_command (Some p) w = Inr w' \<and> sane room S w' (as @ bs) \<and>
    w_commands w' = (w_commands w)[p := None] \<and> w_nodes w' = w_nodes w \<and> same_shell w w'"
proof -
  let ?h = "w_commands w"
  let ?c = "object_at ?h p"
  have d: "p \<notin> set (as @ bs)" "live_at ?h p" "command_ok ?c" using assms by (auto simp: sane_def elim: runnableE)
  have ok: "alias_ok (sh_aliases (w_shell w)) (command_strings ?c + (strings_of ?h (as @ bs) + S))"
    using assms by (simp add: sane_def strings_of_append ac_simps)
  obtain w' where w': "free_command (Some p) w = Inr w'" "w' = set_heap (?h[p := None]) (w_strings w - command_strings ?c) w"
    "alias_ok (sh_aliases (w_shell w')) (strings_of ?h (as @ bs) + S)"
    "alias_lookup (sh_aliases (w_shell w')) = alias_lookup (sh_aliases (w_shell w))"
    using free_after_builtin [OF d(2,3) ok] by blast
  have same: "al_oom (sh_aliases (w_shell w')) = al_oom (sh_aliases (w_shell w))"
    "alias_count (sh_aliases (w_shell w')) = alias_count (sh_aliases (w_shell w))"
    "sh_cwd (w_shell w') = sh_cwd (w_shell w)" "w_children w' = w_children w" "same_shell w w'"
    unfolding w'(2) by (simp_all add: set_heap_def alias_count_def same_shell_def alias_lookup_def)
  have others: "live_at (?h[p := None]) a = live_at ?h a" "object_at (?h[p := None]) a = object_at ?h a"
    if "a \<in> set (as @ bs)" for a
    using that d(1) by (metis live_at_release, metis object_at_release)
  have "strings_of (?h[p := None]) (as @ bs) = strings_of ?h (as @ bs)" using d(1) by (rule strings_of_release)
  then have "sane room S w' (as @ bs)"
    using assms w'(3,4) same(1-4) others by (auto simp: sane_def unmarked_def w'(2) ball_Un)
  with w'(1,2) same(5) show ?thesis by simp
qed

text \<open>The kernel gives directories that fit the buffer of \<open>pwd\<close>.\<close>

definition short_dirs :: "kernel \<Rightarrow> bool" where
  "short_dirs k \<longleftrightarrow> (\<forall>d p dir. chdir k d p = Inr dir \<longrightarrow> length dir < BUFSIZE)"

lemma sane_after:
  assumes "sane room S w ptrs" "kept (strings_of (w_commands w) ptrs + S) (w_shell w) sh"
    and "sh_cwd sh = sh_cwd (w_shell w) \<or> (\<exists>d p. chdir k d p = Inr (sh_cwd sh))" "short_dirs k"
  shows "sane (Suc room) S (w\<lparr>w_shell := sh\<rparr>) ptrs"
proof -
  have "length (sh_cwd sh) < BUFSIZE" using assms(1,3,4) by (auto simp: sane_def short_dirs_def)
  then show ?thesis using assms(1,2) by (auto simp: sane_def kept_def)
qed

lemma queue_sane_empty: "queue_sane q w ps \<Longrightarrow> queue_count q = 0 \<longleftrightarrow> ps = []"
proof -
  assume "queue_sane q w ps"
  then obtain as where as: "holds_nodes q (w_nodes w) as" "items (w_nodes w) as = map Some ps"
    by (auto simp: queue_sane_def)
  show ?thesis
  proof (cases as)
    case Nil
    then show ?thesis using as by (simp add: holds_nodes_def items_def)
  next
    case (Cons a as')
    then show ?thesis using holds_nodes_tail(1) [of q "w_nodes w" a as'] as by (auto simp: items_def)
  qed
qed

lemma run_plain_safe:
  assumes s: "sane room S w (lasts @ p # ps)" "room < 536870914" and q: "queue_sane (l_queue l) w ps"
    and c: "object_at (w_commands w) p = c" and k: "short_dirs k"
  shows "\<exists>f. run_plain k ic oc m (Some p) c l w = Inr f \<and>
    (case f of
       Continue l' w' \<Rightarrow> l_queue l' = l_queue l \<and> l_last l' = l_last l \<and> sane room S w' (lasts @ p # ps) \<and>
         queue_sane (l_queue l) w' ps \<and> w_commands w' = w_commands w \<and> same_shell w w'
     | Return s q' w' \<Rightarrow> runs_in_shell c \<and> s = 0 \<and> q' = l_queue l \<and> ps = [] \<and> queue_sane q' w' ps \<and>
         sane (Suc room) S w' lasts \<and> w_commands w' = (w_commands w)[p := None]
     | Gone w' \<Rightarrow> runs_in_shell c \<and> ps = [] \<and> (\<exists>others. alias_ok (sh_aliases (w_shell w')) others))"
proof -
  have run: "runnable c" using s(1) c by (simp add: sane_def)
  obtain name where name: "path c = Some name" using run by (rule runnableE)
  let ?asked = "connectionMask c \<noteq> commandConnectionBackground \<and> queue_count (l_queue l) = 0"
  obtain b where b: "(if ?asked then isBuiltin (chdir k) (path c) else Inr 0) = Inr b"
    by (cases ?asked) (auto simp: isBuiltin_run name)
  show ?thesis
  proof (cases "b = 0")
    case True
    let ?fork = "connectionMask c \<noteq> commandConnectionPipe \<and> m \<noteq> Some commandConnectionPipe"
    let ?body = "\<lambda>w0. (w_fds w0, run_in_child k c Inr w0)"
    obtain pid w1 where w1: "(if ?fork then fork_child ?body w else (l_pid l, w)) = (pid, w1)" by fastforce
    have "\<exists>e. run_in_child k c Inr w = Inr e" by (rule run_in_child_safe [OF s run]) auto
    then obtain e where e: "run_in_child k c Inr w = Inr e" by blast
    have forked: "case fork_child ?body w of (pid, w') \<Rightarrow>
        sane room S w' (lasts @ p # ps) \<and> queue_sane (l_queue l) w' ps \<and> w_commands w' = w_commands w \<and> same_shell w w'"
      by (rule fork_safe [OF s(1) q]) (simp add: e)
    have "sane room S w1 (lasts @ p # ps) \<and> queue_sane (l_queue l) w1 ps \<and> w_commands w1 = w_commands w \<and> same_shell w w1"
      using forked w1 s(1) q by (cases ?fork) simp_all
    then have s1: "sane room S w1 (lasts @ p # ps)" "queue_sane (l_queue l) w1 ps" "w_commands w1 = w_commands w" "same_shell w w1"
      by blast+
    have core: "core w1 (restore_std ic oc w1)" by (rule core_ops)
    note same = same_shell_trans [OF s1(4) core_same_shell [OF core]]
    have "run_plain k ic oc m (Some p) c l w = Inr (Continue (l\<lparr>l_pid := pid\<rparr>) (restore_std ic oc w1))"
      using b w1 True by (simp add: run_plain_def)
    with s1 core same show ?thesis by (simp add: sane_core queue_sane_core) (simp add: core_def)
  next
    case False
    then have "queue_count (l_queue l) = 0" using b by (auto split: if_splits)
    then have last: "ps = []" using queue_sane_empty [OF q] by simp
    have shell: "runs_in_shell c"
      using b False by (auto simp: runs_in_shell_def name isBuiltin_run split: if_splits)
    obtain r sh where r: "executeCommand k c (w_shell w) = Inr (r, sh)"
      "kept (strings_of (w_commands w) (lasts @ p # ps) + S) (w_shell w) sh"
      "sh_cwd sh = sh_cwd (w_shell w) \<or> (\<exists>d p. chdir k d p = Inr (sh_cwd sh))"
      using executeCommand_safe [OF run] sane_shell_ok [OF s] by blast
    show ?thesis
    proof (cases r)
      case (Status st)
      have "sane (Suc room) S (w\<lparr>w_shell := sh\<rparr>) (lasts @ p # [])"
        using sane_after [OF s(1) r(2,3) k] last by simp
      from free_command_safe [OF this] obtain w' where w': "free_command (Some p) (w\<lparr>w_shell := sh\<rparr>) = Inr w'"
        "sane (Suc room) S w' lasts" "w_commands w' = (w_commands w)[p := None]" "w_nodes w' = w_nodes w"
        by auto
      have "run_plain k ic oc m (Some p) c l w = Inr (Return 0 (l_queue l) w')"
        using b False r(1) Status w'(1) by (simp add: run_plain_def)
      moreover have "queue_sane (l_queue l) w' ps" using q w'(4) by (simp add: queue_sane_def)
      ultimately show ?thesis using w'(2,3) last shell by simp
    qed (use b False r last shell in \<open>auto simp: run_plain_def kept_def\<close>)
  qed
qed

section \<open>One round\<close>

lemma queue_sane_pop:
  assumes "queue_sane q w (p # ps)"
  obtains q' ns where "queuePop (Some q) (w_nodes w) = Inr (Some (Some p), q', ns)"
    "queue_sane q' (w\<lparr>w_nodes := ns\<rparr>) ps"
    "\<forall>a as. holds_nodes q (w_nodes w) (a # as) \<longrightarrow> ns = (w_nodes w)[a := None] \<and> holds_nodes q' ns as"
proof -
  obtain as where as: "holds_nodes q (w_nodes w) as" "items (w_nodes w) as = map Some (p # ps)"
    "\<forall>a \<in> set as. freeFunction (object_at (w_nodes w) a) = commandFree"
    using assms by (auto simp: queue_sane_def)
  then obtain a as' where a: "as = a # as'" by (cases as) (auto simp: items_def)
  let ?ns = "(w_nodes w)[a := None]"
  obtain q' where q': "queuePop (Some q) (w_nodes w) = Inr (Some (Some p), q', ?ns)" "holds_nodes q' ?ns as'"
    "items ?ns as' = map Some ps"
    using pop_item [of q "w_nodes w" a as' p ps] as(1,2) a by blast
  have "a \<notin> set as'" using as(1) a by (simp add: holds_nodes_def)
  then have "\<forall>b \<in> set as'. object_at ?ns b = object_at (w_nodes w) b" by (metis object_at_release)
  then have "\<forall>b \<in> set as'. freeFunction (object_at ?ns b) = commandFree" using as(3) a by simp
  with q'(2,3) have sane: "queue_sane q' (w\<lparr>w_nodes := ?ns\<rparr>) ps" by (auto simp: queue_sane_def)
  have "\<forall>b bs. holds_nodes q (w_nodes w) (b # bs) \<longrightarrow> ?ns = (w_nodes w)[b := None] \<and> holds_nodes q' ?ns bs"
    using queuePop_run [of q "w_nodes w"] q'(1) by fastforce
  from that [OF q'(1) sane this] show thesis .
qed

lemma mask_of_sane:
  assumes "sane room S w (lasts @ ps)" "w_commands w' = w_commands w"
  shows "\<exists>m. mask_of (last_ptr lasts) w' = Inr m"
  using assms by (cases lasts) (auto simp: mask_of_def sane_def load_live)

lemma wait_last_safe:
  "mask_of p w = Inr m \<Longrightarrow> \<exists>w'. wait_last p pid w = Inr w' \<and> core w w'"
  using wait_last_run [of p w m pid] core_ops(1) by blast

definition step_safe :: "nat \<Rightarrow> strheap \<Rightarrow> world \<Rightarrow> nat list \<Rightarrow> nat \<Rightarrow> nat list \<Rightarrow> flow \<Rightarrow> bool" where
  "step_safe room S w lasts p ps f \<longleftrightarrow>
     (case f of
        Continue l' w' \<Rightarrow> l_last l' = Some p \<and> sane room S w' (p # ps) \<and> queue_sane (l_queue l') w' ps \<and>
          w_commands w' = release_nodes lasts (w_commands w) \<and> same_shell w w'
      | Return s q' w' \<Rightarrow> queue_sane q' w' ps \<and>
          (s = 0 \<and> ps = [] \<and> sane (Suc room) S w' lasts \<and> w_commands w' = (w_commands w)[p := None] \<and>
             runs_in_shell (object_at (w_commands w) p) \<or>
           s = - 1 \<and> sane (Suc room) S w' (lasts @ p # ps) \<and> w_commands w' = w_commands w \<and> same_shell w w')
      | Gone w' \<Rightarrow> ps = [] \<and> runs_in_shell (object_at (w_commands w) p) \<and>
          (\<exists>others. alias_ok (sh_aliases (w_shell w')) others))"

lemma sane_mono: "sane room S w ptrs \<Longrightarrow> sane (Suc room) S w ptrs"
  by (simp add: sane_def)

text \<open>The second half of a round: the command is launched, the one before it is freed.\<close>

definition launch ::
    "kernel \<Rightarrow> (int \<Rightarrow> int) \<Rightarrow> int \<Rightarrow> int \<Rightarrow> nat \<Rightarrow> nat \<Rightarrow> connection option \<Rightarrow> nat \<Rightarrow> command_t \<Rightarrow> locals \<Rightarrow> world \<Rightarrow>
     fault + flow" where
  "launch k stack ic oc n i m p c l w =
     rbind (if m = Some commandConnectionPipe \<or> connectionMask c = commandConnectionPipe
            then Inr (run_piped k stack n i m (Some p) c l w) else run_plain k ic oc m (Some p) c l w) (\<lambda>f.
       case f of
         Continue l2 w7 \<Rightarrow>
           rbind (if l_last l2 \<noteq> None then free_command (l_last l2) w7 else Inr w7) (\<lambda>w8.
             Inr (Continue (l2\<lparr>l_last := Some p\<rparr>) w8))
       | _ \<Rightarrow> Inr f)"

lemma launch_safe:
  assumes s: "sane room S w (lasts @ p # ps)" "room < 536870914" and q: "queue_sane (l_queue l) w ps"
    and c: "object_at (w_commands w) p = c" and k: "short_dirs k" and l: "l_last l = last_ptr lasts" "length lasts \<le> 1"
  shows "\<exists>f. launch k stack ic oc n i m p c l w = Inr f \<and> step_safe room S w lasts p ps f"
proof -
  have free: "\<exists>w8. (if l_last l2 \<noteq> None then free_command (l_last l2) w7 else Inr w7) = Inr w8 \<and>
      sane room S w8 (p # ps) \<and> queue_sane (l_queue l) w8 ps \<and> w_commands w8 = release_nodes lasts (w_commands w) \<and> same_shell w w8"
    if x: "l_last l2 = l_last l" "sane room S w7 (lasts @ p # ps)" "queue_sane (l_queue l) w7 ps"
      "w_commands w7 = w_commands w" "same_shell w w7" for l2 w7
  proof (cases lasts)
    case Nil
    then show ?thesis using x l(1) by simp
  next
    case (Cons b bs)
    then have b: "lasts = [b]" using l(2) by simp
    have "sane room S w7 ([] @ b # p # ps)" using x(2) b by simp
    from free_command_safe [OF this] obtain w8 where "free_command (Some b) w7 = Inr w8" "sane room S w8 (p # ps)"
      "w_commands w8 = (w_commands w7)[b := None]" "w_nodes w8 = w_nodes w7"
      "same_shell w7 w8"
      by auto
    with x l(1) b same_shell_trans [OF x(5)] show ?thesis by (simp add: queue_sane_def)
  qed
  show ?thesis
  proof (cases "m = Some commandConnectionPipe \<or> connectionMask c = commandConnectionPipe")
    case True
    obtain l' w' where r: "run_piped k stack n i m (Some p) c l w = Continue l' w'" "l_queue l' = l_queue l"
      "l_last l' = l_last l" "sane room S w' (lasts @ p # ps)" "queue_sane (l_queue l) w' ps" "w_commands w' = w_commands w"
      "same_shell w w'"
      using run_piped_safe [OF s q c] by blast
    from free [OF r(3-7)] r(1,2) True show ?thesis by (auto simp: launch_def step_safe_def)
  next
    case False
    obtain f where f: "run_plain k ic oc m (Some p) c l w = Inr f"
      "case f of
         Continue l' w' \<Rightarrow> l_queue l' = l_queue l \<and> l_last l' = l_last l \<and> sane room S w' (lasts @ p # ps) \<and>
           queue_sane (l_queue l) w' ps \<and> w_commands w' = w_commands w \<and> same_shell w w'
       | Return s q' w' \<Rightarrow> runs_in_shell c \<and> s = 0 \<and> q' = l_queue l \<and> ps = [] \<and> queue_sane q' w' ps \<and>
           sane (Suc room) S w' lasts \<and> w_commands w' = (w_commands w)[p := None]
       | Gone w' \<Rightarrow> runs_in_shell c \<and> ps = [] \<and> (\<exists>others. alias_ok (sh_aliases (w_shell w')) others)"
      using run_plain_safe [OF s q c k] by blast
    show ?thesis
    proof (cases f)
      case (Continue l' w')
      with f(2) have r: "l_queue l' = l_queue l" "l_last l' = l_last l" "sane room S w' (lasts @ p # ps)"
        "queue_sane (l_queue l) w' ps" "w_commands w' = w_commands w" "same_shell w w'"
        by simp_all
      from free [OF r(2-6)] r(1) f(1) Continue False show ?thesis by (auto simp: launch_def step_safe_def)
    next
      case (Return s q' w')
      with f False c show ?thesis by (auto simp: launch_def step_safe_def)
    next
      case (Gone w')
      with f False c show ?thesis by (simp add: launch_def step_safe_def)
    qed
  qed
qed

definition onto_std :: "int \<Rightarrow> int \<Rightarrow> world \<Rightarrow> world" where
  "onto_std fd_in fd_out w =
     (let w5 = (if fd_in \<noteq> - 1 then dup_onto fd_in 0 w else w) in if fd_out \<noteq> - 1 then dup_onto fd_out 1 w5 else w5)"

lemma core_onto_std: "core w (onto_std fd_in fd_out w)"
  using core_trans core_ops(3) core_refl by (auto simp: onto_std_def Let_def split: if_splits)

text \<open>A round up to the redirections.\<close>

abbreviation closed_last :: "locals \<Rightarrow> connection option \<Rightarrow> world \<Rightarrow> world" where
  "closed_last l m w \<equiv>
     close_fd (l_fd_out l) (close_fd (l_fd_in l) (wait_if (to_be_waited m (l_pid l)) (l_pid l) w))"

lemma core_closed_last: "core w (closed_last l m w)"
  using core_trans core_ops(1,2) by blast

lemma job_step_start:
  assumes s: "sane room S w (lasts @ p # ps)" and q: "queue_sane (l_queue l) w (p # ps)" and l: "l_last l = last_ptr lasts"
  obtains q' ns m where "queue_sane q' (w\<lparr>w_nodes := ns\<rparr>) ps" "mask_of (l_last l) w = Inr m"
    "\<forall>a as. holds_nodes (l_queue l) (w_nodes w) (a # as) \<longrightarrow> ns = (w_nodes w)[a := None] \<and> holds_nodes q' ns as"
    "job_step k stack ic oc n i l w =
      (case redirect_in k (object_at (w_commands w) p) (closed_last l m (w\<lparr>w_nodes := ns\<rparr>)) of
         Inl w3 \<Rightarrow> Inr (Return (- 1) q' w3)
       | Inr (fd_in, w3) \<Rightarrow>
       case redirect_out k (object_at (w_commands w) p) fd_in w3 of
         Inl w4 \<Rightarrow> Inr (Return (- 1) q' w4)
       | Inr (fd_out, w4) \<Rightarrow>
           launch k stack ic oc n i m p (object_at (w_commands w) p)
             (l\<lparr>l_queue := q', l_fd_in := fd_in, l_fd_out := fd_out\<rparr>) (onto_std fd_in fd_out w4))"
proof -
  obtain q' ns where pop: "queuePop (Some (l_queue l)) (w_nodes w) = Inr (Some (Some p), q', ns)"
    "queue_sane q' (w\<lparr>w_nodes := ns\<rparr>) ps"
    "\<forall>a as. holds_nodes (l_queue l) (w_nodes w) (a # as) \<longrightarrow> ns = (w_nodes w)[a := None] \<and> holds_nodes q' ns as"
    using q by (rule queue_sane_pop)
  let ?w0 = "w\<lparr>w_nodes := ns\<rparr>"
  let ?c = "object_at (w_commands w) p"
  obtain m where m: "mask_of (l_last l) w = Inr m" using mask_of_sane [OF s, of w] l by auto
  have mask: "mask_of (l_last l) v = Inr m" if "w_commands v = w_commands w" for v
    using m mask_of_cong [OF that] by simp
  let ?w2 = "closed_last l m ?w0"
  have w2: "w_commands ?w2 = w_commands w" using core_closed_last [of ?w0 l m] by (simp add: core_def)
  have wait: "wait_last (l_last l) (l_pid l) ?w0 = Inr (wait_if (to_be_waited m (l_pid l)) (l_pid l) ?w0)"
    by (rule wait_last_run [OF mask]) simp
  have load: "load (w_commands ?w2) (Some p) = Inr ?c" using s w2 by (simp add: sane_def load_live)
  note start = pop(1) wait load
  have run: "job_step k stack ic oc n i l w =
      (case redirect_in k ?c ?w2 of
         Inl w3 \<Rightarrow> Inr (Return (- 1) q' w3)
       | Inr (fd_in, w3) \<Rightarrow>
       case redirect_out k ?c fd_in w3 of
         Inl w4 \<Rightarrow> Inr (Return (- 1) q' w4)
       | Inr (fd_out, w4) \<Rightarrow>
           launch k stack ic oc n i m p ?c
             (l\<lparr>l_queue := q', l_fd_in := fd_in, l_fd_out := fd_out\<rparr>) (onto_std fd_in fd_out w4))"
  proof (cases "redirect_in k ?c ?w2")
    case (Inl w3)
    then show ?thesis using start by (simp add: job_step_def Let_def)
  next
    case in_ok: (Inr x)
    obtain fd_in w3 where x: "x = (fd_in, w3)" by fastforce
    show ?thesis
    proof (cases "redirect_out k ?c fd_in w3")
      case (Inl w4)
      then show ?thesis using start in_ok x by (simp add: job_step_def Let_def)
    next
      case (Inr y)
      obtain fd_out w4 where y: "y = (fd_out, w4)" by fastforce
      have "core ?w2 w3" using core_redirect_in [where k = k and c = ?c and w = ?w2] in_ok x by simp
      moreover have "core w3 w4"
        using core_redirect_out [where k = k and c = ?c and fd_in = fd_in and w = w3] Inr y by simp
      ultimately have "w_commands (onto_std fd_in fd_out w4) = w_commands w"
        using core_onto_std [of w4 fd_in fd_out] w2 by (simp add: core_def)
      note m6 = mask [OF this, unfolded onto_std_def Let_def]
      from start in_ok x Inr y m6 show ?thesis
        by (simp add: job_step_def launch_def onto_std_def Let_def cong: if_cong flow.case_cong split del: if_split)
    qed
  qed
  from that [OF pop(2) m pop(3) run] show thesis .
qed

lemma job_step_safe:
  assumes s: "sane room S w (lasts @ p # ps)" "room < 536870914" and q: "queue_sane (l_queue l) w (p # ps)"
    and k: "short_dirs k" and l: "l_last l = last_ptr lasts" "length lasts \<le> 1"
  shows "\<exists>f. job_step k stack ic oc n i l w = Inr f \<and> step_safe room S w lasts p ps f"
proof -
  let ?c = "object_at (w_commands w) p"
  obtain q' ns m where q': "queue_sane q' (w\<lparr>w_nodes := ns\<rparr>) ps"
    and "mask_of (l_last l) w = Inr m"
    and "\<forall>a as. holds_nodes (l_queue l) (w_nodes w) (a # as) \<longrightarrow> ns = (w_nodes w)[a := None] \<and> holds_nodes q' ns as"
    and run: "job_step k stack ic oc n i l w =
      (case redirect_in k ?c (closed_last l m (w\<lparr>w_nodes := ns\<rparr>)) of
         Inl w3 \<Rightarrow> Inr (Return (- 1) q' w3)
       | Inr (fd_in, w3) \<Rightarrow>
       case redirect_out k ?c fd_in w3 of
         Inl w4 \<Rightarrow> Inr (Return (- 1) q' w4)
       | Inr (fd_out, w4) \<Rightarrow>
           launch k stack ic oc n i m p ?c
             (l\<lparr>l_queue := q', l_fd_in := fd_in, l_fd_out := fd_out\<rparr>) (onto_std fd_in fd_out w4))"
    by (rule job_step_start [where k = k and stack = stack and ic = ic and oc = oc and n = n and i = i, OF s(1) q l(1)])
  let ?w0 = "w\<lparr>w_nodes := ns\<rparr>"
  let ?w2 = "closed_last l m ?w0"
  have w2: "core ?w0 ?w2" by (rule core_closed_last)
  have fail: "step_safe room S w lasts p ps (Return (- 1) q' w3)" if "core ?w0 w3" for w3
  proof -
    have "sane room S w3 (lasts @ p # ps)" "queue_sane q' w3 ps" "w_commands w3 = w_commands w"
      using that s(1) q' by (simp_all add: sane_core queue_sane_core) (simp add: core_def)
    moreover have "same_shell w w3" using core_same_shell [OF that] by (simp add: same_shell_def)
    ultimately show ?thesis by (simp add: step_safe_def sane_mono)
  qed
  show ?thesis
  proof (cases "redirect_in k ?c ?w2")
    case (Inl w3)
    then have "core ?w0 w3" using core_redirect_in [where k = k and c = ?c and w = ?w2] w2 core_trans by auto
    from fail [OF this] Inl show ?thesis unfolding run by simp
  next
    case in_ok: (Inr x)
    obtain fd_in w3 where x: "x = (fd_in, w3)" by fastforce
    then have w3: "core ?w0 w3" using core_redirect_in [where k = k and c = ?c and w = ?w2] in_ok w2 core_trans by auto
    note in_ok = in_ok [unfolded x]
    show ?thesis
    proof (cases "redirect_out k ?c fd_in w3")
      case (Inl w4)
      then have "core ?w0 w4" using core_redirect_out [where k = k and c = ?c and fd_in = fd_in and w = w3] w3 core_trans by auto
      from fail [OF this] in_ok Inl show ?thesis unfolding run by simp
    next
      case (Inr y)
      obtain fd_out w4 where y: "y = (fd_out, w4)" by fastforce
      then have w4: "core ?w0 w4" using core_redirect_out [where k = k and c = ?c and fd_in = fd_in and w = w3] Inr w3 core_trans by auto
      let ?w6 = "onto_std fd_in fd_out w4"
      have w6: "core ?w0 ?w6" using core_trans [OF w4 core_onto_std] .
      let ?l1 = "l\<lparr>l_queue := q', l_fd_in := fd_in, l_fd_out := fd_out\<rparr>"
      have cmds: "w_commands ?w6 = w_commands w" using w6 unfolding core_def by simp
      have s6: "sane room S ?w6 (lasts @ p # ps)" "queue_sane (l_queue ?l1) ?w6 ps"
        using sane_core [OF w6] queue_sane_core [OF w6] s(1) q' by simp_all
      have c6: "object_at (w_commands ?w6) p = ?c" using cmds by simp
      obtain f where f: "launch k stack ic oc n i m p ?c ?l1 ?w6 = Inr f" "step_safe room S ?w6 lasts p ps f"
        using launch_safe [where stack = stack and ic = ic and oc = oc and n = n and i = i and m = m,
          OF s6(1) s(2) s6(2) c6 k] l by auto
      have "same_shell w w' \<longleftrightarrow> same_shell ?w6 w'" for w'
        using core_same_shell [OF w6] by (auto simp: same_shell_def)
      then have "step_safe room S w lasts p ps f" using f(2) by (simp only: step_safe_def cmds)
      with in_ok Inr [unfolded y] f(1) show ?thesis unfolding run by simp
    qed
  qed
qed

section \<open>The loop\<close>

text \<open>Where the commands are when the caller gets the queue back: freed, leaked (the command at hand and
  the one before it, after an early return), or still in the queue.\<close>

definition accounted :: "nat \<Rightarrow> strheap \<Rightarrow> nat list \<Rightarrow> command_t cells \<Rightarrow> int \<Rightarrow> queue_t \<Rightarrow> world \<Rightarrow> bool" where
  "accounted room S ps h s q w \<longleftrightarrow>
     (\<exists>freed leaked left. mset ps = mset (freed @ leaked @ left) \<and> w_commands w = release_nodes freed h \<and>
        sane room S w (leaked @ left) \<and> queue_sane q w left \<and>
        (s = 0 \<and> left = [] \<and> length leaked \<le> 1 \<or> s = - 1 \<and> leaked \<noteq> [] \<and> length leaked \<le> 2))"

lemma accounted_freed:
  assumes "accounted room S ps (release_nodes lasts h) s q w"
  shows "accounted room S (lasts @ ps) h s q w"
proof -
  obtain freed leaked left where "mset ps = mset (freed @ leaked @ left)"
    "w_commands w = release_nodes freed (release_nodes lasts h)" "sane room S w (leaked @ left)" "queue_sane q w left"
    "s = 0 \<and> left = [] \<and> length leaked \<le> 1 \<or> s = - 1 \<and> leaked \<noteq> [] \<and> length leaked \<le> 2"
    using assms by (auto simp: accounted_def)
  then show ?thesis unfolding accounted_def
    by (intro exI [of _ "lasts @ freed"] exI [of _ leaked] exI [of _ left]) (simp add: release_nodes_append)
qed

text \<open>Only a builtin at the end of the line changes the shell or ends it.\<close>

definition loop_safe :: "nat \<Rightarrow> strheap \<Rightarrow> nat list \<Rightarrow> world \<Rightarrow> flow \<Rightarrow> bool" where
  "loop_safe room S ps w0 f \<longleftrightarrow>
     (case f of
        Continue l w \<Rightarrow> \<exists>freed p. ps = freed @ [p] \<and> l_last l = Some p \<and> sane room S w [p] \<and>
          queue_sane (l_queue l) w [] \<and> w_commands w = release_nodes freed (w_commands w0) \<and> same_shell w0 w
      | Return s q w \<Rightarrow> accounted (Suc room) S ps (w_commands w0) s q w \<and>
          (same_shell w0 w \<or> s = 0 \<and> runs_in_shell (object_at (w_commands w0) (last ps)))
      | Gone w \<Rightarrow> runs_in_shell (object_at (w_commands w0) (last ps)) \<and>
          (\<exists>others. alias_ok (sh_aliases (w_shell w)) others))"

lemma loop_safe_freed:
  assumes "loop_safe room S ps w1 f" "w_commands w1 = release_nodes lasts (w_commands w)" "same_shell w w1"
    and "ps \<noteq> []" "set lasts \<inter> set ps = {}"
  shows "loop_safe room S (lasts @ ps) w f"
proof -
  have "last ps \<notin> set lasts" using assms(4,5) last_in_set by blast
  then have last: "object_at (w_commands w1) (last ps) = object_at (w_commands w) (last ps)"
    by (simp add: assms(2) release_nodes_object)
  show ?thesis
  proof (cases f)
    case (Continue l w')
    then obtain freed p where "ps = freed @ [p]" "l_last l = Some p" "sane room S w' [p]" "queue_sane (l_queue l) w' []"
      "w_commands w' = release_nodes (lasts @ freed) (w_commands w)" "same_shell w1 w'"
      using assms(1,2) by (auto simp: loop_safe_def release_nodes_append)
    with same_shell_trans [OF assms(3)] show ?thesis
      by (simp add: loop_safe_def Continue)
  next
    case (Return s q w')
    then show ?thesis
      using assms(1,4) accounted_freed [of "Suc room" S ps lasts] same_shell_trans [OF assms(3)]
      by (auto simp: loop_safe_def last [unfolded assms(2)] assms(2))
  next
    case (Gone w')
    then show ?thesis using assms(1,4) by (simp add: loop_safe_def last [unfolded assms(2)] assms(2))
  qed
qed

lemma step_safe_stops:
  assumes "step_safe room S w lasts p ps f" "length lasts \<le> 1" "\<And>l w. f \<noteq> Continue l w"
  shows "loop_safe room S (lasts @ p # ps) w f"
proof (cases f)
  case (Return s q w')
  then have q: "queue_sane q w' ps" and
    "s = 0 \<and> ps = [] \<and> sane (Suc room) S w' lasts \<and> w_commands w' = (w_commands w)[p := None] \<and>
       runs_in_shell (object_at (w_commands w) p) \<or>
     s = - 1 \<and> sane (Suc room) S w' (lasts @ p # ps) \<and> w_commands w' = w_commands w \<and> same_shell w w'"
    using assms(1) by (simp_all add: step_safe_def)
  then consider
    "s = 0" "ps = []" "sane (Suc room) S w' lasts" "w_commands w' = (w_commands w)[p := None]"
      "runs_in_shell (object_at (w_commands w) p)"
    | "s = - 1" "sane (Suc room) S w' (lasts @ p # ps)" "w_commands w' = w_commands w" "same_shell w w'"
    by blast
  then have "accounted (Suc room) S (lasts @ p # ps) (w_commands w) s q w' \<and>
    (same_shell w w' \<or> s = 0 \<and> runs_in_shell (object_at (w_commands w) (last (lasts @ p # ps))))"
  proof cases
    case 1
    then have "accounted (Suc room) S (lasts @ p # ps) (w_commands w) s q w'" using q assms(2) unfolding accounted_def
      by (intro exI [of _ "[p]"] exI [of _ lasts] exI [of _ "[]"]) simp
    with 1 show ?thesis by simp
  next
    case 2
    then have "accounted (Suc room) S (lasts @ p # ps) (w_commands w) s q w'" using q assms(2) unfolding accounted_def
      by (intro exI [of _ "[]"] exI [of _ "lasts @ [p]"] exI [of _ ps]) simp
    with 2 show ?thesis by simp
  qed
  then show ?thesis by (simp add: loop_safe_def Return)
qed (use assms in \<open>auto simp: step_safe_def loop_safe_def\<close>)

lemma job_loop_safe:
  assumes "sane room S w (lasts @ ps)" "room < 536870914" "queue_sane (l_queue l) w ps" "short_dirs k"
    and "l_last l = last_ptr lasts" "length lasts \<le> 1" "lasts @ ps \<noteq> []"
  shows "\<exists>f. job_loop k stack ic oc n (length ps) i l w = Inr f \<and> loop_safe room S (lasts @ ps) w f"
  using assms
proof (induction ps arbitrary: lasts i l w)
  case Nil
  then obtain p where "lasts = [p]" by (cases lasts) auto
  with Nil show ?case by (simp add: loop_safe_def)
next
  case (Cons p ps)
  obtain f where f: "job_step k stack ic oc n i l w = Inr f" "step_safe room S w lasts p ps f"
    using job_step_safe [OF Cons.prems(1-6)] by blast
  show ?case
  proof (cases "\<exists>l1 w1. f = Continue l1 w1")
    case False
    then have stops: "\<And>l w. f \<noteq> Continue l w" by blast
    have "job_loop k stack ic oc n (length (p # ps)) i l w = Inr f"
      using f(1) stops by (cases f) auto
    with step_safe_stops [OF f(2) Cons.prems(6) stops] show ?thesis by blast
  next
    case True
    then obtain l1 w1 where x: "f = Continue l1 w1" by blast
    then have s: "l_last l1 = last_ptr [p]" "sane room S w1 ([p] @ ps)" "queue_sane (l_queue l1) w1 ps"
      "w_commands w1 = release_nodes lasts (w_commands w)" "same_shell w w1"
      using f(2) by (simp_all add: step_safe_def)
    obtain f' where f': "job_loop k stack ic oc n (length ps) (Suc i) l1 w1 = Inr f'"
      "loop_safe room S ([p] @ ps) w1 f'"
      using Cons.IH [OF s(2) Cons.prems(2) s(3) Cons.prems(4) s(1)] by auto
    have "set lasts \<inter> set ([p] @ ps) = {}" using Cons.prems(1) by (auto simp: sane_def)
    from loop_safe_freed [OF f'(2) s(4,5) _ this] have "loop_safe room S (lasts @ p # ps) w f'" by simp
    with f(1) x f'(1) show ?thesis by auto
  qed
qed

lemma finish_jobs_safe:
  assumes "sane room S w [p]" "l_last l = Some p" "queue_sane (l_queue l) w []"
  shows "\<exists>w'. finish_jobs ic oc l w = Inr (Return 0 (l_queue l) w') \<and> sane room S w' [] \<and>
    queue_sane (l_queue l) w' [] \<and> w_commands w' = (w_commands w)[p := None] \<and> same_shell w w'"
proof -
  let ?w0 = "restore_std ic oc (w\<lparr>w_fds := closepipes (l_pipes l) (w_fds w)\<rparr>)"
  have c0: "core w ?w0" using core_trans core_ops(5,6) by blast
  obtain m where "mask_of (Some p) ?w0 = Inr m" using mask_of_sane [where lasts = "[p]" and ps = "[]", OF _ ] assms(1) c0
    by (force simp: core_def)
  then obtain w1 where w1: "wait_last (Some p) (l_pid l) ?w0 = Inr w1" "core ?w0 w1" using wait_last_safe by blast
  have c1: "core w w1" using c0 w1(2) core_trans by blast
  have "sane room S w1 ([] @ p # [])" using assms(1) by (simp add: sane_core [OF c1])
  from free_command_safe [OF this] obtain w2 where w2: "free_command (Some p) w1 = Inr w2" "sane room S w2 []"
    "w_commands w2 = (w_commands w1)[p := None]" "w_nodes w2 = w_nodes w1"
    "same_shell w1 w2"
    by auto
  let ?w3 = "(fold waitpid (l_launched l) w2)\<lparr>w_fg_pid := 0\<rparr>"
  have c3: "core w2 ?w3" using core_trans core_ops(7,9) by blast
  have same: "same_shell w ?w3"
    using core_same_shell [OF c1] w2(5) core_same_shell [OF c3] same_shell_trans by blast
  have "queue_sane (l_queue l) w2 []" using assms(3) w2(4) c1 by (simp add: queue_sane_def core_def)
  with w1(1) w2 c1 c3 assms(2) same show ?thesis
    by (intro exI [of _ ?w3]) (simp add: finish_jobs_def sane_core [OF c3] queue_sane_core [OF c3], simp add: core_def)
qed

lemma executeCommands_safe:
  assumes s: "sane room S w ps" "room < 536870914" and q: "queue_sane q w ps" and k: "short_dirs k"
    and len: "length ps < 2 ^ 31"
  shows "\<exists>f. executeCommandsInQueue k stack junk (Some q) w = Inr f \<and>
    (case f of
       Continue l w' \<Rightarrow> False
     | Return st q' w' \<Rightarrow> accounted (Suc room) S ps (w_commands w) st q' w' \<and>
         (same_shell w w' \<or> st = 0 \<and> ps \<noteq> [] \<and> runs_in_shell (object_at (w_commands w) (last ps)))
     | Gone w' \<Rightarrow> ps \<noteq> [] \<and> runs_in_shell (object_at (w_commands w) (last ps)) \<and>
         (\<exists>others. alias_ok (sh_aliases (w_shell w')) others))"
proof (cases "ps = []")
  case True
  then have "queue_count q = 0" using queue_sane_empty [OF q] by simp
  moreover have "accounted (Suc room) S ps (w_commands w) 0 q w"
    using True s(1) q unfolding accounted_def by (intro exI [of _ "[]"]) (simp add: sane_mono)
  ultimately show ?thesis by (simp add: executeCommandsInQueue_def)
next
  case False
  then have count: "queue_count q \<noteq> 0" using queue_sane_empty [OF q] by simp
  obtain as where as: "holds_nodes q (w_nodes w) as" "length as = length ps"
    using q by (auto simp: queue_sane_def items_def dest: map_eq_imp_length_eq)
  then have n: "nat (command_count q) = length ps"
    using len command_count_small [of q "length ps"] by (simp add: holds_nodes_def)
  obtain ic t1 where t1: "fd_dup (fd_limit k) 0 (w_fds w) = (ic, t1)" by fastforce
  obtain oc t2 where t2: "fd_dup (fd_limit k) 1 t1 = (oc, t2)" by fastforce
  let ?w = "w\<lparr>w_fds := t2\<rparr>"
  let ?l = "\<lparr>l_queue = q, l_fd_in = - 1, l_fd_out = - 1, l_pid = - 1,
      l_pipes = map (\<lambda>j. stack (int j)) [0..<2 * (length ps - 1)], l_launched = map junk [0..<length ps], l_last = None\<rparr>"
  have c: "core w ?w" by (rule core_ops)
  have "sane room S ?w ([] @ ps)" "queue_sane (l_queue ?l) ?w ps"
    using s(1) q by (simp_all add: sane_core [OF c] queue_sane_core [OF c])
  from job_loop_safe [where stack = stack and ic = ic and oc = oc and n = "length ps" and i = 0,
      OF this(1) s(2) this(2) k] False
  obtain f where f: "job_loop k stack ic oc (length ps) (length ps) 0 ?l ?w = Inr f" "loop_safe room S ps ?w f"
    by auto
  have same: "same_shell ?w w' = same_shell w w'" for w' by (simp add: same_shell_def)
  have run: "executeCommandsInQueue k stack junk (Some q) w =
      (case f of Continue l1 w1 \<Rightarrow> finish_jobs ic oc l1 w1 | _ \<Rightarrow> Inr f)"
    using count t1 t2 f(1) by (simp add: executeCommandsInQueue_def n)
  show ?thesis
  proof (cases f)
    case (Continue l1 w1)
    then obtain freed p where p: "ps = freed @ [p]" "l_last l1 = Some p" "sane room S w1 [p]"
      "queue_sane (l_queue l1) w1 []" "w_commands w1 = release_nodes freed (w_commands w)"
      "same_shell w w1"
      using f(2) by (auto simp: loop_safe_def same)
    obtain w' where w': "finish_jobs ic oc l1 w1 = Inr (Return 0 (l_queue l1) w')" "sane room S w' []"
      "queue_sane (l_queue l1) w' []" "w_commands w' = (w_commands w1)[p := None]"
      "same_shell w1 w'"
      using finish_jobs_safe [OF p(3,2,4)] by blast
    have "accounted (Suc room) S ps (w_commands w) 0 (l_queue l1) w'"
      using w'(2-4) p(1,5) unfolding accounted_def
      by (intro exI [of _ ps] exI [of _ "[]"]) (simp add: sane_mono release_nodes_append)
    with run Continue w'(1) same_shell_trans [OF p(6) w'(5)] show ?thesis by simp
  qed (use run f(2) False in \<open>simp_all add: loop_safe_def same\<close>)
qed

lemma executeCommands_sound:
  assumes "sane room S w ps" "room < 536870914" "queue_sane q w ps" "short_dirs k" "length ps < 2 ^ 31"
  shows "\<exists>f. executeCommandsInQueue k stack junk (Some q) w = Inr f \<and>
    (case f of
       Continue l w' \<Rightarrow> False
     | Return st q' w' \<Rightarrow> accounted (Suc room) S ps (w_commands w) st q' w'
     | Gone w' \<Rightarrow> \<exists>others. alias_ok (sh_aliases (w_shell w')) others)"
proof -
  obtain f where f: "executeCommandsInQueue k stack junk (Some q) w = Inr f"
    "case f of
       Continue l w' \<Rightarrow> False
     | Return st q' w' \<Rightarrow> accounted (Suc room) S ps (w_commands w) st q' w' \<and>
         (same_shell w w' \<or> st = 0 \<and> ps \<noteq> [] \<and> runs_in_shell (object_at (w_commands w) (last ps)))
     | Gone w' \<Rightarrow> ps \<noteq> [] \<and> runs_in_shell (object_at (w_commands w) (last ps)) \<and>
         (\<exists>others. alias_ok (sh_aliases (w_shell w')) others)"
    using executeCommands_safe [OF assms, of stack junk] by blast
  then show ?thesis by (cases f) auto
qed

section \<open>Properties\<close>

text \<open>C11. Type soundness of the execution. A queue of any runnable commands (pipes, lists, background,
  redirections and builtins in any mixture) is executed without a fault, in the shell and in every
  child, whether or not descriptors, forks and files are there. When the call returns, each command
  has been freed, is still in the queue, or is one of at most two that were leaked (the command at
  hand and the one before it); the alias table is sound, with at most one definition more. When the
  process ends instead (\<open>exit\<close>), the alias table can be freed.\<close>

theorem any_queue_executes:
  assumes "sane room S w ps" "room < 536870914" "queue_sane q w ps" "short_dirs k" "length ps < 2 ^ 31"
  shows "\<exists>f. executeCommandsInQueue k stack junk (Some q) w = Inr f \<and>
    (case f of
       Continue l w' \<Rightarrow> False
     | Return st q' w' \<Rightarrow> accounted (Suc room) S ps (w_commands w) st q' w'
     | Gone w' \<Rightarrow> \<exists>others. alias_ok (sh_aliases (w_shell w')) others)"
  using executeCommands_sound [OF assms] .

text \<open>C22. Only a builtin that ends the line acts on the shell. In every other queue all builtins run in
  children: the call returns, and aliases, environment, directory and output of the shell are what
  they were, so \<open>cd /tmp; ls\<close> lists the old directory and \<open>exit; ls\<close> does not end the shell.\<close>

theorem only_last_builtin_acts:
  assumes "sane room S w ps" "room < 536870914" "queue_sane q w ps" "short_dirs k" "length ps < 2 ^ 31"
    and "ps = [] \<or> \<not> runs_in_shell (object_at (w_commands w) (last ps))"
  shows "\<exists>s q' w'. executeCommandsInQueue k stack junk (Some q) w = Inr (Return s q' w') \<and> same_shell w w'"
proof -
  obtain f where f: "executeCommandsInQueue k stack junk (Some q) w = Inr f"
    "case f of
       Continue l w' \<Rightarrow> False
     | Return st q' w' \<Rightarrow> accounted (Suc room) S ps (w_commands w) st q' w' \<and>
         (same_shell w w' \<or> st = 0 \<and> ps \<noteq> [] \<and> runs_in_shell (object_at (w_commands w) (last ps)))
     | Gone w' \<Rightarrow> ps \<noteq> [] \<and> runs_in_shell (object_at (w_commands w) (last ps)) \<and>
         (\<exists>others. alias_ok (sh_aliases (w_shell w')) others)"
    using executeCommands_safe [OF assms(1-5), of stack junk] by blast
  then show ?thesis using assms(6) by (cases f) auto
qed

section \<open>Witnesses\<close>

lemma world_with_sane:
  assumes "shell_ok {#} sh" "unmarked (sh_aliases sh)" "length (sh_cwd sh) < BUFSIZE" "\<forall>c \<in> set cl. runnable c"
    and "alias_count (sh_aliases sh) \<le> room"
  shows "sane room {#} (world_with sh cl) [0..<length cl]"
proof -
  let ?al = "sh_aliases sh"
  let ?X = "sum_list (map command_strings cl)"
  have "alias_ok (?al\<lparr>al_strings := al_strings ?al - {#} + ?X, al_oom := al_oom ?al\<rparr>) (?X + {#})"
    using alias_ok_swap(2) [where st = ?al and A = "{#}" and B = ?X and oom = "al_oom ?al" and others = "{#}"] assms(1)
    by (simp add: shell_ok_def)
  moreover have "strings_of (w_commands (world_with sh cl)) [0..<length cl] = ?X"
    by (simp add: world_with_def strings_of_list)
  ultimately have "alias_ok (sh_aliases (w_shell (world_with sh cl))) (strings_of (w_commands (world_with sh cl)) [0..<length cl] + {#})"
    by (simp add: world_with_def)
  with assms show ?thesis
    by (simp add: sane_def shell_ok_def)
      (simp add: world_with_def live_at_def object_at_def unmarked_def alias_lookup_def alias_count_def)
qed

lemma world_with_queue_sane:
  assumes "cl \<noteq> []" "length cl < 2 ^ 31" "\<forall>c \<in> set cl. command_ok c"
  shows "queue_sane (listed_queue (length cl)) (world_with sh cl) [0..<length cl]"
proof -
  have "holds_nodes (listed_queue (length cl)) (w_nodes (world_with sh cl)) [0..<length cl]"
    "items (w_nodes (world_with sh cl)) [0..<length cl] = map Some [0..<length cl]"
    using world_with_queue [OF assms, of sh] by (simp_all add: queue_holds_commands_def)
  moreover have "\<forall>a \<in> set [0..<length cl]. freeFunction (object_at (w_nodes (world_with sh cl)) a) = commandFree"
    by (simp add: world_with_def listed_nodes_def object_at_def)
  ultimately show ?thesis by (auto simp: queue_sane_def)
qed

lemma small_kernel_dirs: "short_dirs small_kernel"
  by (auto simp: short_dirs_def small_kernel_def any_chdir_def split: option.splits if_splits)

lemma home_shell_count: "alias_count (sh_aliases home_shell) = 0"
  by code_simp

lemma home_queue_sane:
  assumes "cl \<noteq> []" "length cl < 2 ^ 31" "\<forall>c \<in> set cl. runnable c"
  shows "sane 0 {#} (world_with home_shell cl) [0..<length cl]"
    "queue_sane (listed_queue (length cl)) (world_with home_shell cl) [0..<length cl]"
proof -
  have home: "unmarked (sh_aliases home_shell)" "length (sh_cwd home_shell) < BUFSIZE"
    using home_shell_count
    by (auto simp: unmarked_def alias_lookup_def alias_count_def ht_map_def ht_find_def home_shell_def BUFSIZE_def
        split: option.splits)
  show "sane 0 {#} (world_with home_shell cl) [0..<length cl]"
    using world_with_sane [OF home_shell_ok home assms(3)] home_shell_count by simp
  have "\<forall>c \<in> set cl. command_ok c" using assms(3) by (blast elim: runnableE)
  from world_with_queue_sane [OF assms(1,2) this]
  show "queue_sane (listed_queue (length cl)) (world_with home_shell cl) [0..<length cl]" .
qed

text \<open>A pipe in a list, an input file that is missing, and no descriptor left.\<close>

abbreviation mixed_queue :: "command_t list" where
  "mixed_queue \<equiv> [simple_command [''ls''] commandConnectionPipe, simple_command [''wc''] commandConnectionSequential,
     (simple_command [''sort''] commandConnectionSequential)\<lparr>redirectFromPath := Some ''missing''\<rparr>,
     simple_command [''cd'', ''/''] commandConnectionNone]"

theorem any_queue_executes_witness:
  "\<exists>f. executeCommandsInQueue (small_kernel\<lparr>fd_limit := 3\<rparr>) (\<lambda>_. 7) (\<lambda>_. 0) (Some (listed_queue 4))
      (world_with home_shell mixed_queue) = Inr f \<and>
    (case f of
       Continue l w' \<Rightarrow> False
     | Return st q' w' \<Rightarrow> accounted (Suc 0) {#} [0..<4] (w_commands (world_with home_shell mixed_queue)) st q' w'
     | Gone w' \<Rightarrow> \<exists>others. alias_ok (sh_aliases (w_shell w')) others)"
proof -
  have n: "length mixed_queue = 4" by simp
  have run: "\<forall>c \<in> set mixed_queue. runnable c" by code_simp
  have s: "sane 0 {#} (world_with home_shell mixed_queue) [0..<4]"
    "queue_sane (listed_queue 4) (world_with home_shell mixed_queue) [0..<4]"
    using home_queue_sane [OF _ _ run] unfolding n by simp_all
  have k: "short_dirs (small_kernel\<lparr>fd_limit := 3\<rparr>)" using small_kernel_dirs by (simp add: short_dirs_def)
  show ?thesis using any_queue_executes [where stack = "\<lambda>_. 7" and junk = "\<lambda>_. 0", OF s(1) _ s(2) k] by simp
qed

text \<open>\<open>cd /tmp; ls\<close>\<close>

abbreviation cd_first :: "command_t list" where
  "cd_first \<equiv> [simple_command [''cd'', ''/tmp''] commandConnectionSequential, simple_command [''ls''] commandConnectionNone]"

theorem only_last_builtin_acts_witness:
  "\<exists>s q' w'. executeCommandsInQueue small_kernel (\<lambda>_. 7) (\<lambda>_. 0) (Some (listed_queue 2))
      (world_with home_shell cd_first) = Inr (Return s q' w') \<and> sh_cwd (w_shell w') = ''/''"
proof -
  have n: "length cd_first = 2" by simp
  have run: "\<forall>c \<in> set cd_first. runnable c" by code_simp
  have s: "sane 0 {#} (world_with home_shell cd_first) [0..<2]"
    "queue_sane (listed_queue 2) (world_with home_shell cd_first) [0..<2]"
    using home_queue_sane [OF _ _ run] unfolding n by simp_all
  have "\<not> runs_in_shell (object_at (w_commands (world_with home_shell cd_first)) (last [0..<2]))"
    by (simp add: world_with_def object_at_def) code_simp
  from only_last_builtin_acts [where stack = "\<lambda>_. 7" and junk = "\<lambda>_. 0", OF s(1) _ s(2) small_kernel_dirs _ disjI2 [OF this]]
  obtain st q' w' where "executeCommandsInQueue small_kernel (\<lambda>_. 7) (\<lambda>_. 0) (Some (listed_queue 2))
      (world_with home_shell cd_first) = Inr (Return st q' w')" "same_shell (world_with home_shell cd_first) w'"
    by auto
  moreover have "sh_cwd (w_shell (world_with home_shell cd_first)) = ''/''" by (simp add: world_with_def home_shell_def)
  ultimately show ?thesis by (auto simp: same_shell_def)
qed

end
