(* ===== verification/Shell_Safe.thy ===== *)
theory Shell_Safe
  imports Lifecycle Jobs_Safe
begin

text \<open>
  Soundness of the whole shell. \<open>shell_safe\<close> is the invariant of the read loop, for any state of
  the aliases, the descriptors and the heap that a session can reach, leaks included. A line that
  satisfies \<open>line_runs\<close> is read, expanded, parsed and executed without a fault and keeps the
  invariant (progress and preservation), whatever it contains: builtins, pipes, redirections,
  lists, background commands. So a session can only stop at a line that does not.
\<close>

section \<open>The definitions an alias table holds\<close>

definition alias_defs :: "alias_state \<Rightarrow> (string \<times> string) list" where
  "alias_defs st =
     (case al_table st of
        None \<Rightarrow> []
      | Some ht \<Rightarrow> map (\<lambda>e. (cstr (fst e), cstr (entry_value (al_cells st) (snd e)))) (ht_entries ht))"

lemma alias_lookup_entries:
  assumes "alias_ok st others" "al_table st = Some ht"
  shows "alias_lookup st k = Some a \<longleftrightarrow>
    (\<exists>e \<in> set (ht_entries ht). cstr (fst e) = cstr k \<and> a = object_at (al_cells st) (the (snd e)))"
proof -
  have "string_table ht" using assms by (simp add: alias_ok_def alias_config_def)
  from string_table_find [OF this] have find: "ht_find ht k = Some e \<longleftrightarrow>
      e \<in> set (ht_entries ht) \<and> cstr (fst e) = cstr k" for e .
  have "alias_lookup st k = Some a \<longleftrightarrow> (\<exists>e. ht_find ht k = Some e \<and> a = object_at (al_cells st) (the (snd e)))"
    using assms(2) by (cases "ht_find ht k") (auto simp: alias_lookup_def ht_map_def)
  then show ?thesis unfolding find by blast
qed

lemma alias_defs_describe:
  assumes "alias_ok st others" "unmarked st"
  shows "describes (alias_defs st) st"
proof -
  obtain ht where ht: "al_table st = Some ht" "string_table ht" "heap_ok (al_cells st) (mset (ht_entries ht))"
    using assms(1) by (auto simp: alias_ok_def alias_config_def split: option.splits)
  have keys: "map fst (alias_defs st) = map (\<lambda>e. cstr (fst e)) (ht_entries ht)"
    by (simp add: alias_defs_def ht(1) comp_def)
  then have dist: "distinct (map fst (alias_defs st))" using string_table_distinct [OF ht(2)] by simp
  have "map_of (alias_defs st) k = available st k" if k: "c_string k" for k
  proof (cases "alias_lookup st k")
    case None
    then have "k \<notin> set (map fst (alias_defs st))"
      using alias_lookup_entries [OF assms(1) ht(1), of k] k unfolding keys by force
    then show ?thesis using None by (simp add: available_def map_of_eq_None_iff)
  next
    case (Some a)
    then obtain e where e: "e \<in> set (ht_entries ht)" "cstr (fst e) = cstr k" "a = object_at (al_cells st) (the (snd e))"
      using alias_lookup_entries [OF assms(1) ht(1)] by blast
    then have "entry_ok (al_cells st) e" using heap_ok_entry [OF ht(3)] by simp
    then obtain v where v: "alias_value a = Some v" "entry_value (al_cells st) (snd e) = v"
      using e(3) by (auto elim!: entry_okE)
    have "(k, cstr v) \<in> set (alias_defs st)" using e(1,2) v(2) k by (force simp: alias_defs_def ht(1))
    then have "map_of (alias_defs st) k = Some (cstr v)" using dist by simp
    moreover have "in_use a = 0" using assms(2) Some by (simp add: unmarked_def)
    ultimately show ?thesis using Some v(1) by (simp add: available_def)
  qed
  then show ?thesis by (simp add: describes_def)
qed

text \<open>The number of aliases can be read off any description of them.\<close>

lemma describes_count:
  assumes "alias_ok st others" "unmarked st" "describes defs st"
  shows "alias_count st = card {k. c_string k \<and> map_of defs k \<noteq> None}"
proof -
  obtain ht where ht: "al_table st = Some ht" "string_table ht"
    using assms(1) by (auto simp: alias_ok_def alias_config_def split: option.splits)
  have d: "map_of (alias_defs st) k = map_of defs k" if "c_string k" for k
    using alias_defs_describe [OF assms(1,2)] assms(3) that by (simp add: describes_def)
  have "set (map fst (alias_defs st)) = {k. c_string k \<and> map_of (alias_defs st) k \<noteq> None}"
    by (auto simp: map_of_eq_None_iff image_iff alias_defs_def ht(1))
  also have "\<dots> = {k. c_string k \<and> map_of defs k \<noteq> None}" using d by auto
  finally have "{k. c_string k \<and> map_of defs k \<noteq> None} = set (map (\<lambda>e. cstr (fst e)) (ht_entries ht))"
    by (simp add: alias_defs_def ht(1) comp_def)
  then show ?thesis
    using distinct_card [OF string_table_distinct [OF ht(2)]] by (simp add: alias_count_def ht(1))
qed

section \<open>The invariant of the read loop\<close>

definition shell_safe :: "nat \<Rightarrow> libraries \<Rightarrow> world \<Rightarrow> bool" where
  "shell_safe room lib w \<longleftrightarrow>
     (\<exists>others. parser_ready (alias_defs (sh_aliases (w_shell w))) others (lib_params lib) (to_parser (lib_params lib) w)) \<and>
     alias_count (sh_aliases (w_shell w)) \<le> room \<and> length (sh_cwd (w_shell w)) < BUFSIZE \<and>
     list_all (\<lambda>c. \<not> isl (child_end c)) (w_children w)"

text \<open>The lines that are run: the history expansion rejects them, or no expansion of a command fails
  or overflows, the first byte is not wrong, and every command has a name (\<open>export\<close> an argument).\<close>

definition line_runs :: "(string \<times> string) list \<Rightarrow> libraries \<Rightarrow> string list \<Rightarrow> string \<Rightarrow> bool" where
  "line_runs defs lib past line \<longleftrightarrow>
     (case lib_history_expand lib past line of (result, e) \<Rightarrow>
        result < 0 \<or> result = 2 \<or>
        int (length e) < 2 ^ 62 \<and> all_fine (lib_wordexp lib) defs (cstr e) \<and> parse_line (cstr e) \<noteq> Inl 0 \<and>
        (case line_kind defs lib past line of
           Listed e cl \<Rightarrow> list_all runnable cl \<and> int (length cl) < 2 ^ 31 | _ \<Rightarrow> True))"

text \<open>Between the steps of a round: \<open>others\<close> are the strings that are neither the table's nor a command's.\<close>

lemma sane_shell_safe:
  assumes "sane room others w []" and "parser_ready defs others0 (lib_params lib) st0"
  shows "shell_safe room lib w"
proof -
  have s: "alias_ok (sh_aliases (w_shell w)) others" "unmarked (sh_aliases (w_shell w))"
    "False \<notin> set (al_oom (sh_aliases (w_shell w)))"
    using assms(1) by (simp_all add: sane_def)
  have "parser_ready (alias_defs (sh_aliases (w_shell w))) others (lib_params lib) (to_parser (lib_params lib) w)"
    using assms(2) s alias_defs_describe [OF s(1,2)] s(2) [unfolded unmarked_released]
    by (simp add: parser_ready_def to_parser_def)
  then show ?thesis using assms(1) by (auto simp: shell_safe_def sane_def)
qed

lemma shell_safe_sane:
  assumes "shell_safe room lib w"
  obtains others where "sane room others w []"
    "parser_ready (alias_defs (sh_aliases (w_shell w))) others (lib_params lib) (to_parser (lib_params lib) w)"
  using assms by (auto simp: shell_safe_def sane_def parser_ready_def to_parser_def unmarked_released)

section \<open>The steps of a round\<close>

lemma sane_new_string: "sane room S w [] \<Longrightarrow> sane room (add_mset s S) (new_string s w) []"
  using alias_ok_new [of "sh_aliases (w_shell w)" S s]
  by (simp add: sane_def new_string_heap) (simp add: set_heap_def unmarked_def alias_lookup_def alias_count_def)

lemma sane_free_string:
  assumes "sane room (add_mset s S) w ps"
  shows "\<exists>w'. free_string s w = Inr w' \<and> sane room S w' ps"
proof -
  let ?O = "strings_of (w_commands w) ps"
  have ok: "alias_ok (sh_aliases (w_shell w)) ({#s#} + (?O + S))" using assms by (simp add: sane_def)
  then have "{#s#} \<subseteq># w_strings w" using alias_ok_swap(1) [OF ok] by simp
  then have "w_strings w = add_mset s (w_strings w - {#s#})" by simp
  then have "free_string s w = Inr (set_heap (w_commands w) (w_strings w - {#s#}) w)" by (rule free_string_run)
  moreover have "sane room S (set_heap (w_commands w) (w_strings w - {#s#}) w) ps"
    using assms alias_ok_without [OF ok]
    by (simp add: sane_def) (simp add: set_heap_def unmarked_def alias_lookup_def alias_count_def)
  ultimately show ?thesis by blast
qed

lemma free_lines_safe:
  assumes "sane room (add_mset e (add_mset l S)) (r_world r) ps"
  shows "\<exists>w'. free_lines e l r = Inr (Again (r\<lparr>r_world := w'\<rparr>)) \<and> sane room S w' ps"
proof -
  obtain w1 where w1: "free_string e (r_world r) = Inr w1" "sane room (add_mset l S) w1 ps"
    using sane_free_string [OF assms] by blast
  then obtain w2 where "free_string l w1 = Inr w2" "sane room S w2 ps" using sane_free_string by blast
  with w1(1) show ?thesis by (auto simp: free_lines_def)
qed

text \<open>Commands that were leaked stay on the heap; their strings are counted as other strings.\<close>

lemma sane_forget: "sane room S w (ps @ qs) \<Longrightarrow> sane room (strings_of (w_commands w) ps + S) w qs"
  by (simp add: sane_def strings_of_append ac_simps)

lemma free_queue_safe:
  assumes "sane room S w (leaked @ left)" "queue_sane q w left"
  shows "\<exists>w'. free_queue q w = Inr w' \<and> sane room S w' leaked"
proof -
  let ?h = "w_commands w"
  obtain as where as: "holds_nodes q (w_nodes w) as" "items (w_nodes w) as = map Some left"
    "\<forall>a \<in> set as. freeFunction (object_at (w_nodes w) a) = commandFree"
    using assms(2) by (auto simp: queue_sane_def)
  have d: "distinct left" "\<forall>a \<in> set left. live_at ?h a \<and> command_ok (object_at ?h a)"
    "set leaked \<inter> set left = {}"
    using assms(1) by (auto simp: sane_def elim: runnableE)
  let ?X = "w_strings w - strings_of ?h left"
  have ok: "alias_ok (sh_aliases (w_shell w)) (strings_of ?h left + (strings_of ?h leaked + S))"
    using assms(1) by (simp add: sane_def strings_of_append ac_simps)
  have strs: "w_strings w = strings_of ?h left + ?X" using alias_ok_swap(1) [OF ok] by simp
  have "map (\<lambda>a. (commandFree, data (object_at (w_nodes w) a))) as =
      map (\<lambda>x. (commandFree, x)) (items (w_nodes w) as)"
    by (simp add: items_def)
  then have "pending (w_nodes w) as = map (\<lambda>a. (commandFree, Some a)) left"
    using as(2,3) by (simp add: pending_def cong: map_cong)
  then have run: "free_queue q w = Inr (w\<lparr>w_nodes := release_nodes as (w_nodes w), w_commands := release_nodes left ?h,
      w_shell := (w_shell w)\<lparr>sh_aliases := (sh_aliases (w_shell w))\<lparr>al_strings := ?X\<rparr>\<rparr>\<rparr>)" (is "_ = Inr ?w")
    using queueFree_run [OF as(1)] run_frees_commands [OF d(1,2), of ?X] strs
    by (simp add: free_queue_def)
  have same: "live_at (release_nodes left ?h) a = live_at ?h a" "object_at (release_nodes left ?h) a = object_at ?h a"
    if a: "a \<in> set leaked" for a
  proof -
    have "a \<notin> set left" using a d(3) by blast
    then show "live_at (release_nodes left ?h) a = live_at ?h a" "object_at (release_nodes left ?h) a = object_at ?h a"
      by (simp_all add: release_nodes_live release_nodes_object)
  qed
  then have "strings_of (release_nodes left ?h) leaked = strings_of ?h leaked" by (simp add: strings_of_def cong: map_cong)
  then have "alias_ok (sh_aliases (w_shell ?w)) (strings_of (w_commands ?w) leaked + S)"
    using alias_ok_without [OF ok] by simp
  then have "sane room S ?w leaked"
    using assms(1) same by (simp add: sane_def ball_Un) (simp add: unmarked_def alias_lookup_def alias_count_def)
  with run show ?thesis by blast
qed

text \<open>What the parser leaves is what the execution starts from.\<close>

lemma queued_sane:
  assumes parsed: "queued (lib_wordexp lib) defs others st rs st'"
    and before: "alias_ok (aliases st) others'" "unmarked (aliases st)" "describes defs (aliases st)"
      "alias_count (aliases st) \<le> room"
    and cl: "list_all (fine (lib_wordexp lib) defs) rs" "list_all runnable (map (\<lambda>x. the (build (lib_wordexp lib) defs x)) rs)"
    and w: "length (sh_cwd (w_shell w)) < BUFSIZE" "list_all (\<lambda>c. \<not> isl (child_end c)) (w_children w)"
  obtains q ptrs where "queue st' = Some q" "queue_sane q (from_parser st' w) ptrs"
    "sane room others (from_parser st' w) ptrs" "length ptrs = length rs"
proof -
  obtain ptrs where p: "queue_ok (lib_wordexp lib) defs (nodes st) st' rs ptrs"
    "alias_ok (aliases st') (strings_of (commands st') ptrs + others)" "describes defs (aliases st')"
    "unmarked (aliases st')" "False \<notin> set (al_oom (aliases st'))"
    using parsed by (auto simp: queued_def unmarked_released)
  obtain q as where q: "queue st' = Some q" "holds_nodes q (nodes st') as" "items (nodes st') as = map Some ptrs"
    "\<forall>a \<in> set as. freeFunction (object_at (nodes st') a) = commandFree"
    using p(1) by (auto simp: queue_ok_def)
  have built: "list_all2 (\<lambda>a x. live_at (commands st') a \<and> built (lib_wordexp lib) defs x (object_at (commands st') a)) ptrs rs"
    "distinct ptrs"
    using p(1) by (auto simp: queue_ok_def elim: list_all2_mono)
  have run: "live_at (commands st') a \<and> runnable (object_at (commands st') a)" if a: "a \<in> set ptrs" for a
  proof -
    obtain i where i: "i < length rs" "a = ptrs ! i"
      using a list_all2_lengthD [OF built(1)] by (auto simp: in_set_conv_nth)
    then have "rs ! i \<in> set rs" "live_at (commands st') a" "built (lib_wordexp lib) defs (rs ! i) (object_at (commands st') a)"
      using built(1) by (simp_all add: list_all2_conv_all_nth)
    then show ?thesis using cl by (auto simp: list_all_iff built_def)
  qed
  have "alias_count (aliases st') = alias_count (aliases st)"
    using describes_count [OF p(2,4,3)] describes_count [OF before(1-3)] by simp
  then have "sane room others (from_parser st' w) ptrs"
    using built(2) run p(2,4,5) before(4) w by (simp add: sane_def)
  moreover have "queue_sane q (from_parser st' w) ptrs" using q(2-4) by (auto simp: queue_sane_def)
  ultimately show thesis using that q(1) list_all2_lengthD [OF built(1)] by blast
qed

definition round_safe :: "nat \<Rightarrow> libraries \<Rightarrow> round \<Rightarrow> bool" where
  "round_safe room lib x \<longleftrightarrow>
     (case x of
        Again r \<Rightarrow> shell_safe room lib (r_world r)
      | Exited s w \<Rightarrow> s = 0 \<and> al_table (sh_aliases (w_shell w)) = None)"

lemma run_queue_safe:
  assumes s: "sane room (add_mset e (add_mset l S)) (r_world r) ptrs" "room < 536870914"
    and q: "queue_sane q (r_world r) ptrs" "length ptrs < 2 ^ 31" and k: "short_dirs (lib_kernel lib)"
    and p: "parser_ready defs others (lib_params lib) st0"
  shows "\<exists>x. run_queue lib (Some q) e l r = Inr x \<and> round_safe (Suc room) lib x"
proof -
  let ?h = "if queue_count q > 0 then r_history r @ [e] else r_history r"
  let ?r1 = "r\<lparr>r_history := ?h\<rparr>"
  have hist: "(if queue_count q > 0 then r\<lparr>r_history := r_history r @ [e]\<rparr> else r) = ?r1" by simp
  obtain f where f: "executeCommandsInQueue (lib_kernel lib) (lib_stack lib) (lib_launched lib) (Some q) (r_world r) = Inr f"
    "case f of
       Continue l w' \<Rightarrow> False
     | Return st q' w' \<Rightarrow> accounted (Suc room) (add_mset e (add_mset l S)) ptrs (w_commands (r_world r)) st q' w'
     | Gone w' \<Rightarrow> \<exists>others. alias_ok (sh_aliases (w_shell w')) others"
    using executeCommands_sound [OF s q(1) k q(2)] by blast
  show ?thesis
  proof (cases f)
    case (Continue l' w')
    then show ?thesis using f(2) by simp
  next
    case (Return st q' w')
    then obtain leaked left where a: "sane (Suc room) (add_mset e (add_mset l S)) w' (leaked @ left)" "queue_sane q' w' left"
      using f(2) by (auto simp: accounted_def)
    obtain w2 where w2: "free_queue q' w' = Inr w2" "sane (Suc room) (add_mset e (add_mset l S)) w2 leaked"
      using free_queue_safe [OF a] by blast
    obtain w3 where w3: "free_lines e l (?r1\<lparr>r_world := w2\<rparr>) = Inr (Again (?r1\<lparr>r_world := w3\<rparr>))" "sane (Suc room) S w3 leaked"
      using free_lines_safe [of "Suc room" e l S "?r1\<lparr>r_world := w2\<rparr>" leaked] w2(2) by auto
    have "run_queue lib (Some q) e l r = Inr (Again (?r1\<lparr>r_world := w3\<rparr>))"
      using f(1) Return w2(1) w3(1) by (simp add: run_queue_def hist Let_def)
    moreover have "shell_safe (Suc room) lib w3"
      using sane_shell_safe [OF sane_forget [of _ _ _ leaked "[]"] p] w3(2) by simp
    ultimately show ?thesis by (simp add: round_safe_def)
  next
    case (Gone w')
    then obtain others' where "alias_ok (sh_aliases (w_shell w')) others'" using f(2) by auto
    then obtain al where al: "destroyAliases (sh_aliases (w_shell w')) = Inr al" "al_table al = None"
      using destroyAliases_run by blast
    then have "run_queue lib (Some q) e l r = Inr (Exited 0 (w'\<lparr>w_shell := (w_shell w')\<lparr>sh_aliases := al\<rparr>\<rparr>))"
      using f(1) Gone by (simp add: run_queue_def hist Let_def cleanup_def exit_handler_def)
    then show ?thesis using al(2) by (simp add: round_safe_def)
  qed
qed

lemma round_is_safe:
  assumes safe: "shell_safe room lib (r_world r)" "room < 536870914" and k: "short_dirs (lib_kernel lib)"
    and ok: "line_runs (alias_defs (sh_aliases (w_shell (r_world r)))) lib (r_history r) l"
  shows "\<exists>x. run_round lib (Some l) r = Inr x \<and> round_safe (Suc room) lib x"
proof -
  let ?w = "r_world r"
  let ?defs = "alias_defs (sh_aliases (w_shell ?w))"
  obtain others where o: "sane room others ?w []" "parser_ready ?defs others (lib_params lib) (to_parser (lib_params lib) ?w)"
    using safe(1) by (rule shell_safe_sane)
  obtain result e where hist: "lib_history_expand lib (r_history r) l = (result, e)" by fastforce
  let ?w1 = "new_string e (new_string l ?w)"
  have s1: "sane room (add_mset e (add_mset l others)) ?w1 []" using o(1) sane_new_string by blast
  have p1: "parser_ready ?defs (add_mset e (add_mset l others)) (lib_params lib) (to_parser (lib_params lib) ?w1)"
    using o(2) parser_ready_new_string by blast
  show ?thesis
  proof (cases "result < 0 \<or> result = 2")
    case True
    let ?w2 = "put_err_world (e @ newline) ?w1"
    have "sane room (add_mset e (add_mset l others)) ?w2 []"
      using s1 by (simp add: put_err_world_def sane_def)
    then obtain w' where w': "free_lines e l (r\<lparr>r_world := ?w2\<rparr>) = Inr (Again (r\<lparr>r_world := w'\<rparr>))" "sane room others w' []"
      using free_lines_safe [of room e l others "r\<lparr>r_world := ?w2\<rparr>" "[]"] by auto
    have "run_round lib (Some l) r = Inr (Again (r\<lparr>r_world := w'\<rparr>))"
      using hist True w'(1) by (simp add: run_round_def Let_def)
    moreover have "shell_safe (Suc room) lib w'" using sane_shell_safe [OF sane_mono [OF w'(2)] o(2)] .
    ultimately show ?thesis by (simp add: round_safe_def)
  next
    case False
    then have ok': "length e < 2 ^ 62" "all_fine (lib_wordexp lib) ?defs (cstr e)" "parse_line (cstr e) \<noteq> Inl 0"
      "case line_kind ?defs lib (r_history r) l of
         Listed e cl \<Rightarrow> list_all runnable cl \<and> int (length cl) < 2 ^ 31 | _ \<Rightarrow> True"
      using ok hist by (auto simp: line_runs_def)
    have "\<exists>st' rs. parseInput (lib_wordexp lib) e (lib_params lib) (to_parser (lib_params lib) ?w1) = Inr st' \<and>
      queued (lib_wordexp lib) ?defs (add_mset e (add_mset l others)) (to_parser (lib_params lib) ?w1) rs st' \<and>
      list_all (fine (lib_wordexp lib) ?defs) rs \<and>
      list_all runnable (map (\<lambda>x. the (build (lib_wordexp lib) ?defs x)) rs) \<and> length rs < 2 ^ 31"
    proof (cases "parse_line (cstr e)")
      case (Inl p)
      then show ?thesis
        using parseInput_error_run [OF p1 ok'(1) Inl ok'(2)] ok'(3) by (auto intro!: exI [of _ "[]"])
    next
      case (Inr rs)
      have "line_kind ?defs lib (r_history r) l = Listed e (map (\<lambda>x. the (build (lib_wordexp lib) ?defs x)) rs)"
        using hist False Inr by (simp add: line_kind_def)
      then have "list_all runnable (map (\<lambda>x. the (build (lib_wordexp lib) ?defs x)) rs)" "length rs < 2 ^ 31"
        using ok'(4) by simp_all
      moreover have "list_all (fine (lib_wordexp lib) ?defs) rs"
        using ok'(2) parse_line_attempted [OF Inr] by (simp add: all_fine_def)
      ultimately show ?thesis using parseInput_run [OF p1 ok'(1) Inr ok'(2)] by blast
    qed
    then obtain st' rs where st': "parseInput (lib_wordexp lib) e (lib_params lib) (to_parser (lib_params lib) ?w1) = Inr st'"
      "queued (lib_wordexp lib) ?defs (add_mset e (add_mset l others)) (to_parser (lib_params lib) ?w1) rs st'"
      "list_all (fine (lib_wordexp lib) ?defs) rs"
      "list_all runnable (map (\<lambda>x. the (build (lib_wordexp lib) ?defs x)) rs)" "length rs < 2 ^ 31"
      by blast
    have before: "alias_ok (aliases (to_parser (lib_params lib) ?w1)) (add_mset e (add_mset l others))"
      "unmarked (aliases (to_parser (lib_params lib) ?w1))" "describes ?defs (aliases (to_parser (lib_params lib) ?w1))"
      "alias_count (aliases (to_parser (lib_params lib) ?w1)) \<le> room"
      "length (sh_cwd (w_shell ?w1)) < BUFSIZE" "list_all (\<lambda>c. \<not> isl (child_end c)) (w_children ?w1)"
      using p1 s1 by (simp_all add: parser_ready_def sane_def to_parser_def)
    obtain q ptrs where q: "queue st' = Some q" "queue_sane q (from_parser st' ?w1) ptrs"
      "sane room (add_mset e (add_mset l others)) (from_parser st' ?w1) ptrs" "length ptrs = length rs"
      using queued_sane [OF st'(2) before(1-4) st'(3,4) before(5,6)] by blast
    let ?r2 = "r\<lparr>r_world := from_parser st' ?w1\<rparr>"
    have "\<exists>x. run_queue lib (Some q) e l ?r2 = Inr x \<and> round_safe (Suc room) lib x"
    proof (rule run_queue_safe [OF _ safe(2) _ _ k o(2)])
      show "length ptrs < 2 ^ 31" using st'(5) unfolding q(4) .
    qed (use q(2,3) in simp_all)
    moreover have "run_round lib (Some l) r = run_queue lib (Some q) e l ?r2"
      using hist False st'(1) q(1) by (simp add: run_round_def Let_def)
    ultimately show ?thesis by simp
  qed
qed

section \<open>Sessions\<close>

lemma shell_safe_mono: "shell_safe room lib w \<Longrightarrow> room \<le> room' \<Longrightarrow> shell_safe room' lib w"
  by (auto simp: shell_safe_def)



section \<open>Properties\<close>

text \<open>C16. Progress and preservation for one line. In every state that satisfies the invariant of the read
  loop, a line that \<open>line_runs\<close> admits, whatever it contains, is handled without a fault, in the
  shell and in every process that it starts; afterwards the invariant holds again, or the shell has
  ended with status 0 and its alias table has been freed.\<close>

theorem round_keeps_shell_safe:
  assumes "shell_safe room lib (r_world r)" "room < 536870914" "short_dirs (lib_kernel lib)"
    and "line_runs (alias_defs (sh_aliases (w_shell (r_world r)))) lib (r_history r) l"
  shows "\<exists>x. run_round lib (Some l) r = Inr x \<and>
    (case x of
       Again r' \<Rightarrow> shell_safe (Suc room) lib (r_world r')
     | Exited s w' \<Rightarrow> s = 0 \<and> al_table (sh_aliases (w_shell w')) = None)"
  using round_is_safe [OF assms] by (simp add: round_safe_def)


section \<open>Witnesses\<close>

lemma small_repl_safe: "shell_safe 1 small_libraries (r_world small_repl)"
proof -
  have p: "parser_ready ll_alias {#} fresh_params (to_parser fresh_params (r_world small_repl))"
    using small_repl_ready by (simp add: shell_ready_def small_libraries_def)
  have "alias_count (sh_aliases (w_shell (r_world small_repl))) = 1" by code_simp
  with p have "sane 1 {#} (r_world small_repl) []"
    by (simp add: sane_def parser_ready_def to_parser_def unmarked_released)
      (simp add: small_repl_def world_with_def home_shell_def BUFSIZE_def)
  moreover have "parser_ready ll_alias {#} (lib_params small_libraries) (to_parser fresh_params (r_world small_repl))"
    using p by (simp add: small_libraries_def)
  ultimately show ?thesis by (rule sane_shell_safe)
qed

lemma small_libraries_dirs: "short_dirs (lib_kernel small_libraries)"
  using small_kernel_dirs by (simp add: small_libraries_def)

abbreviation mixed_line :: string where
  "mixed_line \<equiv> ''ll -a | wc > out; sort < missing &; alias l=ls; cd /tmp''"

theorem round_keeps_shell_safe_witness:
  "\<exists>x. run_round small_libraries (Some mixed_line) small_repl = Inr x \<and>
    (case x of
       Again r' \<Rightarrow> shell_safe 2 small_libraries (r_world r')
     | Exited s w' \<Rightarrow> s = 0 \<and> al_table (sh_aliases (w_shell w')) = None)"
proof -
  have "line_runs (alias_defs (sh_aliases (w_shell (r_world small_repl)))) small_libraries (r_history small_repl) mixed_line"
    by code_simp
  from round_keeps_shell_safe [OF small_repl_safe _ small_libraries_dirs this] show ?thesis
    unfolding Suc_1 by simp
qed


end
