(* ===== verification/Redirections.thy ===== *)
theory Redirections
  imports Sessions Jobs_Safe
begin

text \<open>
  Redirections of external commands: which files a child finds at its descriptors 0 and 1, and what
  the shell has open afterwards. The invariant \<open>near\<close> describes the table of the shell between two
  rounds: what it was with the two copies, and the descriptors of the last redirections, which are
  closed only by the next round.
\<close>

section \<open>The table between two rounds\<close>

definition near :: "fd_table \<Rightarrow> int \<Rightarrow> int \<Rightarrow> fd_table \<Rightarrow> bool" where
  "near base fi fo t \<longleftrightarrow>
     (\<forall>fd. fd \<noteq> fi \<and> fd \<noteq> fo \<longrightarrow> fd_channel t fd = fd_channel base fd) \<and>
     (fi \<noteq> - 1 \<longrightarrow> fd_channel base fi = None \<and> fd_channel t fi \<noteq> None \<and> fi \<noteq> fo) \<and>
     (fo \<noteq> - 1 \<longrightarrow> fd_channel base fo = None \<and> fd_channel t fo \<noteq> None)"

lemma fd_channel_neg [simp]: "fd_channel t (- 1) = None"
  by (simp add: fd_channel_def)

lemma near_refl: "near t (- 1) (- 1) t"
  by (simp add: near_def)

lemma near_closed:
  assumes "near base fi fo t"
  shows "fd_channel (fd_close fo (fd_close fi t)) fd = fd_channel base fd"
  using assms by (cases "fi = - 1"; cases "fo = - 1") (auto simp: near_def fd_channel_close)

lemma finite_open: "finite {fd. fd_channel t fd \<noteq> None}"
proof (rule finite_subset)
  show "{fd. fd_channel t fd \<noteq> None} \<subseteq> int ` {..<length t}"
    by (auto simp: fd_channel_def image_iff split: if_splits) (metis int_nat_eq lessThan_iff)
qed simp

lemma near_count:
  assumes "near base fi fo t"
  shows "open_count t = open_count base + (if fi = - 1 then 0 else 1) + (if fo = - 1 then 0 else 1)"
proof -
  have "fd_channel t x \<noteq> None \<longleftrightarrow> fd_channel base x \<noteq> None \<or> x \<in> {fi, fo} - {- 1}" for x
  proof (cases "x = fi \<or> x = fo")
    case True
    show ?thesis
    proof (cases "x = - 1")
      case False
      with True assms have "fd_channel base x = None" "fd_channel t x \<noteq> None" by (auto simp: near_def)
      with True False show ?thesis by simp
    qed simp
  qed (use assms in \<open>simp add: near_def\<close>)
  then have "{fd. fd_channel t fd \<noteq> None} = {fd. fd_channel base fd \<noteq> None} \<union> ({fi, fo} - {- 1})" by blast
  moreover have "{fd. fd_channel base fd \<noteq> None} \<inter> ({fi, fo} - {- 1}) = {}"
    using assms by (auto simp: near_def)
  ultimately have "open_count t = open_count base + card ({fi, fo} - {- 1})"
    using card_Un_disjoint [OF finite_open, of "{fi, fo} - {- 1}" base] by (simp only: open_count_card) simp
  moreover have "card ({fi, fo} - {- 1}) = (if fi = - 1 then 0 else 1) + (if fo = - 1 then 0 else 1)"
    using assms by (auto simp: near_def insert_Diff_if)
  ultimately show ?thesis by simp
qed

section \<open>Opening the files\<close>

lemma fd_channel_put_eq: "fd_channel (fd_put t n c) x = (if x = int n then Some c else fd_channel t x)"
  using fd_channel_put_other [of x n t c] by (auto simp: fd_channel_put)

definition files_open :: "kernel \<Rightarrow> command_t \<Rightarrow> bool" where
  "files_open k c \<longleftrightarrow>
     (case redirectFromPath c of None \<Rightarrow> True | Some f \<Rightarrow> open_read k f = None) \<and>
     (case redirectToPath c of None \<Rightarrow> True | Some f \<Rightarrow> open_write k f = None)"

lemma sys_open_opens:
  assumes "answer p = None" "open_count (w_fds w) < fd_limit k"
  obtains n where "sys_open k answer ch p w = (int n, ''Too many open files'', w\<lparr>w_fds := fd_put (w_fds w) n (ch p)\<rparr>)"
    "fd_channel (w_fds w) (int n) = None" "open_count (fd_put (w_fds w) n (ch p)) = Suc (open_count (w_fds w))"
proof
  have "lowest_free (w_fds w) < fd_limit k" using lowest_free_le_open [of "w_fds w"] assms(2) by simp
  then show "sys_open k answer ch p w =
      (int (lowest_free (w_fds w)), ''Too many open files'', w\<lparr>w_fds := fd_put (w_fds w) (lowest_free (w_fds w)) (ch p)\<rparr>)"
    using assms(1) by (simp add: sys_open_def fd_alloc_def)
qed (rule fd_channel_lowest open_count_put)+

text \<open>What one redirection does to the table: \<open>fd\<close> is new, or -1 if there is none.\<close>

definition opened :: "(string \<Rightarrow> channel) \<Rightarrow> string option \<Rightarrow> fd_table \<Rightarrow> int \<Rightarrow> fd_table \<Rightarrow> bool" where
  "opened ch target t fd t' \<longleftrightarrow>
     (fd = - 1 \<longleftrightarrow> target = None) \<and> fd_channel t fd = None \<and>
     fd_channel t' = (\<lambda>x. if x = fd \<and> x \<noteq> - 1 then map_option ch target else fd_channel t x) \<and>
     open_count t' \<le> Suc (open_count t)"

lemma redirect_in_opens:
  assumes "files_open k c" "open_count (w_fds w) < fd_limit k"
  obtains fd t where "redirect_in k c w = Inr (fd, w\<lparr>w_fds := t\<rparr>)" "opened Read_File (redirectFromPath c) (w_fds w) fd t"
proof (cases "redirectFromPath c")
  case None
  then show thesis using that [of "- 1" "w_fds w"] by (simp add: redirect_in_def opened_def fun_eq_iff)
next
  case (Some f)
  then have "open_read k f = None" using assms(1) by (simp add: files_open_def)
  from sys_open_opens [where p = f and answer = "open_read k" and ch = Read_File, OF this assms(2)] obtain n where
    n: "sys_open k (open_read k) Read_File f w = (int n, ''Too many open files'', w\<lparr>w_fds := fd_put (w_fds w) n (Read_File f)\<rparr>)"
      "fd_channel (w_fds w) (int n) = None" "open_count (fd_put (w_fds w) n (Read_File f)) = Suc (open_count (w_fds w))"
    by blast
  show thesis
    by (rule that [of "int n" "fd_put (w_fds w) n (Read_File f)"])
      (use n Some in \<open>auto simp: redirect_in_def opened_def fun_eq_iff fd_channel_put_eq\<close>)
qed

lemma redirect_out_opens:
  assumes "files_open k c" "open_count (w_fds w) < fd_limit k"
  obtains fd t where "redirect_out k c fd_in w = Inr (fd, w\<lparr>w_fds := t\<rparr>)" "opened Write_File (redirectToPath c) (w_fds w) fd t"
proof (cases "redirectToPath c")
  case None
  then show thesis using that [of "- 1" "w_fds w"] by (simp add: redirect_out_def opened_def fun_eq_iff)
next
  case (Some f)
  then have "open_write k f = None" using assms(1) by (simp add: files_open_def)
  from sys_open_opens [where p = f and answer = "open_write k" and ch = Write_File, OF this assms(2)] obtain n where
    n: "sys_open k (open_write k) Write_File f w = (int n, ''Too many open files'', w\<lparr>w_fds := fd_put (w_fds w) n (Write_File f)\<rparr>)"
      "fd_channel (w_fds w) (int n) = None" "open_count (fd_put (w_fds w) n (Write_File f)) = Suc (open_count (w_fds w))"
    by blast
  show thesis
    by (rule that [of "int n" "fd_put (w_fds w) n (Write_File f)"])
      (use n Some in \<open>auto simp: redirect_out_def opened_def fun_eq_iff fd_channel_put_eq\<close>)
qed

text \<open>The descriptors 0 and 1 of a command that starts from \<open>base\<close>.\<close>

definition stdin_of :: "fd_table \<Rightarrow> command_t \<Rightarrow> channel option" where
  "stdin_of base c = (case redirectFromPath c of None \<Rightarrow> fd_channel base 0 | Some f \<Rightarrow> Some (Read_File f))"

definition stdout_of :: "fd_table \<Rightarrow> command_t \<Rightarrow> channel option" where
  "stdout_of base c = (case redirectToPath c of None \<Rightarrow> fd_channel base 1 | Some f \<Rightarrow> Some (Write_File f))"

lemma onto_std_world: "onto_std fi fo w = w\<lparr>w_fds := w_fds (onto_std fi fo w)\<rparr>"
  by (simp add: onto_std_def dup_onto_def Let_def)

lemma redirected_table:
  assumes base: "\<forall>fd. fd_channel t fd = fd_channel base fd" "fd_channel base 0 \<noteq> None" "fd_channel base 1 \<noteq> None"
    and i: "opened Read_File (redirectFromPath c) t fi t1" and out: "opened Write_File (redirectToPath c) t1 fo t2"
    and t6: "t6 = w_fds (onto_std fi fo (w\<lparr>w_fds := t2\<rparr>))"
  shows "fd_channel t6 0 = stdin_of base c" "fd_channel t6 1 = stdout_of base c"
    and "ic \<noteq> 0 \<Longrightarrow> ic \<noteq> 1 \<Longrightarrow> oc \<noteq> 0 \<Longrightarrow> oc \<noteq> 1 \<Longrightarrow> fd_channel base ic = fd_channel base 0 \<Longrightarrow>
      fd_channel base oc = fd_channel base 1 \<Longrightarrow> near base fi fo (fd_dup2 oc 1 (fd_dup2 ic 0 t6))"
proof -
  have fi: "fi \<noteq> 0" "fi \<noteq> 1" "fi = - 1 \<longleftrightarrow> redirectFromPath c = None" "fd_channel base fi = None"
    "\<And>x. fd_channel t1 x = (if x = fi \<and> x \<noteq> - 1 then map_option Read_File (redirectFromPath c) else fd_channel base x)"
    using base i by (auto simp: opened_def)
  have fo: "fo = - 1 \<longleftrightarrow> redirectToPath c = None" "fd_channel t1 fo = None"
    "\<And>x. fd_channel t2 x = (if x = fo \<and> x \<noteq> - 1 then map_option Write_File (redirectToPath c) else fd_channel t1 x)"
    using out by (auto simp: opened_def)
  have fo2: "fo \<noteq> 0" "fo \<noteq> 1" "fi \<noteq> - 1 \<longrightarrow> fi \<noteq> fo" "fd_channel base fo = None"
    using fo(2) fi base(2,3) by (auto split: if_splits)
  have t6: "fd_channel t6 x =
      (if x = 1 \<and> fo \<noteq> - 1 then map_option Write_File (redirectToPath c)
       else if x = 0 \<and> fi \<noteq> - 1 then map_option Read_File (redirectFromPath c) else fd_channel t2 x)" for x
    using fi fo fo2 unfolding t6
    by (auto simp: onto_std_def dup_onto_def Let_def fd_channel_dup2 split: option.splits)
  show "fd_channel t6 0 = stdin_of base c" "fd_channel t6 1 = stdout_of base c"
    using fi fo fo2 by (auto simp: t6 stdin_of_def stdout_of_def split: option.splits)
  show "near base fi fo (fd_dup2 oc 1 (fd_dup2 ic 0 t6))"
    if "ic \<noteq> 0" "ic \<noteq> 1" "oc \<noteq> 0" "oc \<noteq> 1" "fd_channel base ic = fd_channel base 0" "fd_channel base oc = fd_channel base 1"
  proof -
    have "ic \<noteq> fi" "ic \<noteq> fo" "oc \<noteq> fi" "oc \<noteq> fo" using that(5,6) base(2,3) fi(4) fo2(4) by metis+
    then have "fd_channel t6 ic = fd_channel base 0" "fd_channel t6 oc = fd_channel base 1"
      using that by (simp_all add: t6 fo(3) fi(5))
    then have "fd_channel (fd_dup2 oc 1 (fd_dup2 ic 0 t6)) x =
        (if x = 1 then fd_channel base 1 else if x = 0 then fd_channel base 0 else fd_channel t6 x)" for x
      using base(2,3) that by (auto simp: fd_channel_dup2 split: option.splits)
    then show ?thesis
      using fi fo fo2 by (auto simp: near_def t6)
  qed
qed

section \<open>What a round leaves alone\<close>

definition frame :: "world \<Rightarrow> world \<Rightarrow> bool" where
  "frame w w' \<longleftrightarrow>
     same_shell w w' \<and> sh_err (w_shell w') = sh_err (w_shell w) \<and> set (w_forks w') \<subseteq> set (w_forks w) \<and>
     w_next_pid w \<le> w_next_pid w' \<and> kills (w_events w') = kills (w_events w)"

lemma frame_trans [trans]: "frame w w1 \<Longrightarrow> frame w1 w2 \<Longrightarrow> frame w w2"
  using same_shell_trans by (auto simp: frame_def)

lemma frame_ops [simp]:
  "frame w w" "frame w (w\<lparr>w_fds := t\<rparr>)" "frame w (w\<lparr>w_nodes := ns\<rparr>)" "frame w (restore_std ic oc w)"
  "frame w (wait_if b pid w)" "frame w (close_fd fd w)" "frame w (spawn t e w)" "frame w (set_heap h S w)"
  "frame w (w\<lparr>w_fg_pid := pid\<rparr>)" "frame w (fold waitpid pids w)"
  using alloc_ok_subset [of "w_forks w"] fold_waitpid [of pids w]
  by (simp_all add: frame_def same_shell_def restore_std_def dup_onto_def close_fd_def)
    (simp_all add: set_heap_def alias_lookup_def fun_eq_iff)

lemma frame_closed_last: "frame w (closed_last l m w)"
  using frame_trans frame_ops(5,6) by blast

lemma free_command_frame:
  assumes "free_command p w = Inr w'"
  shows "frame w w'" "w_nodes w' = w_nodes w"
proof -
  obtain h S where "w' = set_heap h S w"
    using assms by (auto simp: free_command_def set_heap_def elim!: rbind_InrE)
  then show "frame w w'" "w_nodes w' = w_nodes w" by simp_all
qed

lemma frame_onto_std: "frame w (onto_std fi fo w)"
  by (simp add: onto_std_def dup_onto_def Let_def frame_def same_shell_def)

text \<open>How a child ends does not depend on the strings that the commands before it owned.\<close>

definition alike :: "world \<Rightarrow> world \<Rightarrow> bool" where
  "alike w v \<longleftrightarrow>
     same_shell w v \<and> sh_err (w_shell v) = sh_err (w_shell w) \<and>
     (\<exists>others. shell_ok others (w_shell v)) \<and> unmarked (sh_aliases (w_shell v))"

definition ends_as :: "kernel \<Rightarrow> world \<Rightarrow> command_t \<Rightarrow> child_end \<Rightarrow> bool" where
  "ends_as k w c e \<longleftrightarrow> (\<forall>v. alike w v \<longrightarrow> run_in_child k c Inr v = Inr e)"

lemma ends_as_external: "external k c \<Longrightarrow> ends_as k w c (Runs (path c) (words_of c))"
  by (simp add: ends_as_def run_in_child_external)

lemma ends_as_frame: "ends_as k w c e \<Longrightarrow> frame w w1 \<Longrightarrow> ends_as k w1 c e"
  using same_shell_trans by (auto simp: ends_as_def alike_def frame_def)

lemma ends_as_run:
  assumes "ends_as k w c e" "frame w v" "sane room S v ptrs" "room < 536870914"
  shows "run_in_child k c Inr v = Inr e"
proof -
  have "alike w v"
    using assms(2,3) sane_shell_ok [OF assms(3,4)] by (auto simp: alike_def frame_def sane_def)
  then show ?thesis using assms(1) by (simp add: ends_as_def)
qed

section \<open>One command\<close>

lemma free_command_fds:
  assumes "free_command p w = Inr w'"
  shows "w_fds w' = w_fds w" "w_children w' = w_children w" "w_forks w' = w_forks w" "w_next_pid w' = w_next_pid w"
  using assms by (auto simp: free_command_def elim!: rbind_InrE)

lemma free_command_pipes: "free_command p w = Inr w' \<Longrightarrow> w_pipes w' = w_pipes w"
  by (auto simp: free_command_def elim!: rbind_InrE)

lemma launch_child:
  assumes c: "path c \<noteq> None" "\<not> runs_in_shell c \<or> queue_count (l_queue l) \<noteq> 0"
      "connectionMask c \<noteq> commandConnectionPipe" "m \<noteq> Some commandConnectionPipe"
    and e: "run_in_child k c Inr w = Inr e" and fork: "fst (alloc_ok (w_forks w))"
    and run: "launch k stack ic oc n i m p c l w = Inr f"
  obtains w' where "f = Continue (l\<lparr>l_pid := w_next_pid w, l_last := Some p\<rparr>) w'"
    "w_fds w' = fd_dup2 oc 1 (fd_dup2 ic 0 (w_fds w))"
    "w_children w' = w_children w @ [\<lparr>child_pid = w_next_pid w, child_fds = w_fds w, child_end = Inr e\<rparr>]"
    "w_forks w' = snd (alloc_ok (w_forks w))" "frame w w'" "w_nodes w' = w_nodes w" "w_pipes w' = w_pipes w"
proof -
  let ?w1 = "spawn (w_fds w) (Inr e) w"
  let ?w2 = "restore_std ic oc ?w1"
  obtain name where name: "path c = Some name" using c(1) by blast
  have "(if connectionMask c \<noteq> commandConnectionBackground \<and> queue_count (l_queue l) = 0
      then isBuiltin (chdir k) (path c) else Inr 0) = Inr 0"
    using c(2) by (auto simp: runs_in_shell_def isBuiltin_run name)
  then have "run_plain k ic oc m (Some p) c l w = Inr (Continue (l\<lparr>l_pid := w_next_pid w\<rparr>) ?w2)"
    using c(3,4) e fork by (simp add: run_plain_def fork_child_run)
  with run c(3,4) obtain w' where w': "f = Continue (l\<lparr>l_pid := w_next_pid w, l_last := Some p\<rparr>) w'"
    "(if l_last l \<noteq> None then free_command (l_last l) ?w2 else Inr ?w2) = Inr w'"
    by (cases "l_last l") (auto simp: launch_def elim!: rbind_InrE)
  have "w_fds w' = w_fds ?w2 \<and> w_children w' = w_children ?w2 \<and> w_forks w' = w_forks ?w2 \<and>
      w_nodes w' = w_nodes ?w2 \<and> w_pipes w' = w_pipes ?w2 \<and> frame ?w2 w'"
    using w'(2) free_command_fds [of "l_last l" ?w2 w'] free_command_frame [of "l_last l" ?w2 w']
      free_command_pipes [of "l_last l" ?w2 w']
    by (auto split: if_splits)
  moreover have "frame w ?w2" using frame_trans [OF frame_ops(7) frame_ops(4)] .
  ultimately show thesis using that [OF w'(1)] frame_trans by (simp add: restore_std_def dup_onto_def)
qed

text \<open>The end and the channels of a child.\<close>

definition child_as :: "fd_table \<Rightarrow> child \<Rightarrow> command_t \<Rightarrow> child_end \<Rightarrow> bool" where
  "child_as base ch c e \<longleftrightarrow>
     child_end ch = Inr e \<and> fd_channel (child_fds ch) 0 = stdin_of base c \<and>
     fd_channel (child_fds ch) 1 = stdout_of base c"

definition child_of :: "fd_table \<Rightarrow> child \<Rightarrow> command_t \<Rightarrow> bool" where
  "child_of base ch c \<longleftrightarrow>
     child_end ch = started c \<and> fd_channel (child_fds ch) 0 = stdin_of base c \<and>
     fd_channel (child_fds ch) 1 = stdout_of base c"

lemma child_of_as: "child_of base ch c = child_as base ch c (Runs (path c) (words_of c))"
  by (simp add: child_of_def child_as_def started_def)

text \<open>What the loop needs of the copies.\<close>

definition copies_at :: "kernel \<Rightarrow> fd_table \<Rightarrow> int \<Rightarrow> int \<Rightarrow> bool" where
  "copies_at k base ic oc \<longleftrightarrow>
     ic \<noteq> 0 \<and> ic \<noteq> 1 \<and> oc \<noteq> 0 \<and> oc \<noteq> 1 \<and> fd_channel base 0 \<noteq> None \<and> fd_channel base 1 \<noteq> None \<and>
     fd_channel base ic = fd_channel base 0 \<and> fd_channel base oc = fd_channel base 1 \<and> open_count base + 2 \<le> fd_limit k"

definition redirects :: "string option \<Rightarrow> nat" where
  "redirects target = (case target of None \<Rightarrow> 0 | Some f \<Rightarrow> 1)"

text \<open>A command of a list without pipes that runs in a child and ends there as \<open>ends\<close> says.\<close>

definition listed :: "kernel \<Rightarrow> world \<Rightarrow> (command_t \<Rightarrow> child_end) \<Rightarrow> command_t \<Rightarrow> bool" where
  "listed k w ends c \<longleftrightarrow>
     connectionMask c \<noteq> commandConnectionPipe \<and> files_open k c \<and> ends_as k w c (ends c)"

lemma listed_step:
  assumes s: "sane room S w (lasts @ p # ps)" "room < 536870914" and q: "queue_sane (l_queue l) w (p # ps)"
    and k: "short_dirs k" and l: "l_last l = last_ptr lasts" "length lasts \<le> 1" "last_mask lasts w \<noteq> Some commandConnectionPipe"
    and c: "object_at (w_commands w) p = c" "listed k w ends c" "\<not> runs_in_shell c \<or> ps \<noteq> []"
    and base: "near base (l_fd_in l) (l_fd_out l) (w_fds w)" "copies_at k base ic oc"
    and fork: "fst (alloc_ok (w_forks w))" and as: "holds_nodes (l_queue l) (w_nodes w) (a # as)"
  shows "\<exists>l' w' ch. job_step k stack ic oc n i l w = Inr (Continue l' w') \<and>
    step_safe room S w lasts p ps (Continue l' w') \<and> near base (l_fd_in l') (l_fd_out l') (w_fds w') \<and>
    (l_fd_in l' = - 1 \<longleftrightarrow> redirectFromPath c = None) \<and> (l_fd_out l' = - 1 \<longleftrightarrow> redirectToPath c = None) \<and>
    l_pipes l' = l_pipes l \<and> w_children w' = w_children w @ [ch] \<and> child_as base ch c (ends c) \<and>
    w_forks w' = snd (alloc_ok (w_forks w)) \<and> frame w w' \<and>
    w_nodes w' = (w_nodes w)[a := None] \<and> holds_nodes (l_queue l') (w_nodes w') as \<and> w_pipes w' = w_pipes w"
proof -
  obtain f where f: "job_step k stack ic oc n i l w = Inr f" "step_safe room S w lasts p ps f"
    using job_step_safe [OF s q k l(1,2)] by blast
  obtain q' ns m where sane': "queue_sane q' (w\<lparr>w_nodes := ns\<rparr>) ps" and q': "mask_of (l_last l) w = Inr m"
    and nodes: "\<forall>a as. holds_nodes (l_queue l) (w_nodes w) (a # as) \<longrightarrow> ns = (w_nodes w)[a := None] \<and> holds_nodes q' ns as"
    and start: "job_step k stack ic oc n i l w =
      (case redirect_in k (object_at (w_commands w) p) (closed_last l m (w\<lparr>w_nodes := ns\<rparr>)) of
         Inl w3 \<Rightarrow> Inr (Return (- 1) q' w3)
       | Inr (fd_in, w3) \<Rightarrow>
       case redirect_out k (object_at (w_commands w) p) fd_in w3 of
         Inl w4 \<Rightarrow> Inr (Return (- 1) q' w4)
       | Inr (fd_out, w4) \<Rightarrow>
           launch k stack ic oc n i m p (object_at (w_commands w) p) (l\<lparr>l_queue := q', l_fd_in := fd_in, l_fd_out := fd_out\<rparr>) (onto_std fd_in fd_out w4))"
    by (rule job_step_start [where k = k and stack = stack and ic = ic and oc = oc and n = n and i = i, OF s(1) q l(1)])
  note run = start [unfolded c(1)]
  have "mask_of (l_last l) w = Inr (last_mask lasts w)"
    using s(1) l(1) by (cases lasts) (auto simp: mask_of_def last_mask_def sane_def load_live)
  then have m: "m \<noteq> Some commandConnectionPipe" using q' l(3) by simp
  let ?w0 = "w\<lparr>w_nodes := ns\<rparr>"
  let ?w2 = "closed_last l m ?w0"
  have w2: "w_fds ?w2 = fd_close (l_fd_out l) (fd_close (l_fd_in l) (w_fds w))" "w_children ?w2 = w_children w"
    "w_forks ?w2 = w_forks w" "w_nodes ?w2 = ns" "w_pipes ?w2 = w_pipes w"
    by (simp_all add: close_fd_def fd_close_def)
  have eq2: "\<forall>fd. fd_channel (w_fds ?w2) fd = fd_channel base fd" using near_closed [OF base(1)] unfolding w2(1) by blast
  then have count: "open_count (w_fds ?w2) + 2 \<le> fd_limit k"
    using open_count_cong [OF eq2] base(2) by (simp add: copies_at_def)
  then have "open_count (w_fds ?w2) < fd_limit k" by simp
  moreover have files: "files_open k c" "connectionMask c \<noteq> commandConnectionPipe" using c(2) by (simp_all add: listed_def)
  ultimately obtain fi t1 where fi: "redirect_in k c ?w2 = Inr (fi, ?w2\<lparr>w_fds := t1\<rparr>)"
    "opened Read_File (redirectFromPath c) (w_fds ?w2) fi t1"
    using redirect_in_opens by blast
  have "open_count (w_fds (?w2\<lparr>w_fds := t1\<rparr>)) < fd_limit k" using fi(2) count by (simp add: opened_def)
  with files(1) obtain fo t2 where fo: "redirect_out k c fi (?w2\<lparr>w_fds := t1\<rparr>) = Inr (fo, ?w2\<lparr>w_fds := t1, w_fds := t2\<rparr>)"
    "opened Write_File (redirectToPath c) (w_fds (?w2\<lparr>w_fds := t1\<rparr>)) fo t2"
    by (rule redirect_out_opens)
  let ?w4 = "?w2\<lparr>w_fds := t2\<rparr>"
  let ?w6 = "onto_std fi fo ?w4"
  let ?l1 = "l\<lparr>l_queue := q', l_fd_in := fi, l_fd_out := fo\<rparr>"
  have w6: "w_children ?w6 = w_children w" "w_forks ?w6 = w_forks w" "w_nodes ?w6 = ns" "w_pipes ?w6 = w_pipes w"
    using w2 by (subst onto_std_world; simp)+
  have fork6: "fst (alloc_ok (w_forks ?w6))" using fork w6(2) by simp
  have go: "launch k stack ic oc n i m p c ?l1 ?w6 = Inr f"
    using f(1) fi(1) fo(1) unfolding run by simp
  have frame6: "frame w ?w6"
  proof -
    have "frame w ?w2" using frame_trans [OF frame_ops(3) frame_closed_last] .
    moreover have "frame ?w2 ?w6" using frame_trans [OF frame_ops(2) frame_onto_std] .
    ultimately show ?thesis by (rule frame_trans)
  qed
  have core6: "core ?w0 ?w6"
    using core_trans [OF core_closed_last core_trans [OF core_ops(6) core_onto_std]] .
  have s6: "sane room S ?w6 (lasts @ p # ps)" using sane_core [OF core6] s(1) by simp
  have "ends_as k w c (ends c)" using c(2) by (simp add: listed_def)
  from ends_as_run [OF this frame6 s6 s(2)] have e6: "run_in_child k c Inr ?w6 = Inr (ends c)" .
  have "runnable c" using s(1) c(1) by (simp add: sane_def)
  then have path: "path c \<noteq> None" by (auto elim: runnableE)
  have shell: "\<not> runs_in_shell c \<or> queue_count (l_queue ?l1) \<noteq> 0" using c(3) queue_sane_empty [OF sane'] by simp
  obtain w' where w': "f = Continue (?l1\<lparr>l_pid := w_next_pid ?w6, l_last := Some p\<rparr>) w'"
    "w_fds w' = fd_dup2 oc 1 (fd_dup2 ic 0 (w_fds ?w6))"
    "w_children w' = w_children ?w6 @ [\<lparr>child_pid = w_next_pid ?w6, child_fds = w_fds ?w6, child_end = Inr (ends c)\<rparr>]"
    "w_forks w' = snd (alloc_ok (w_forks ?w6))" "frame ?w6 w'" "w_nodes w' = w_nodes ?w6" "w_pipes w' = w_pipes ?w6"
    by (rule launch_child [OF path shell files(2) m e6 fork6 go])
  have std: "fd_channel base 0 \<noteq> None" "fd_channel base 1 \<noteq> None" using base(2) by (simp_all add: copies_at_def)
  have t2: "opened Write_File (redirectToPath c) t1 fo t2" using fo(2) by simp
  note tab = redirected_table [where w = ?w4, OF eq2 std fi(2) t2 refl]
  have same: "?w4\<lparr>w_fds := t2\<rparr> = ?w4" by simp
  let ?ch = "\<lparr>child_pid = w_next_pid ?w6, child_fds = w_fds ?w6, child_end = Inr (ends c)\<rparr>"
  let ?l = "?l1\<lparr>l_pid := w_next_pid ?w6, l_last := Some p\<rparr>"
  have child: "child_as base ?ch c (ends c)"
    using tab(1,2) unfolding same by (simp add: child_as_def)
  have near': "near base fi fo (w_fds w')"
    using tab(3) base(2) unfolding same w'(2) by (simp add: copies_at_def)
  have closed: "fi = - 1 \<longleftrightarrow> redirectFromPath c = None" "fo = - 1 \<longleftrightarrow> redirectToPath c = None"
    using fi(2) t2 by (simp_all add: opened_def)
  have nodes': "w_nodes w' = (w_nodes w)[a := None]" "holds_nodes q' (w_nodes w') as"
    using nodes as w'(6) w6(3) by auto
  have res: "job_step k stack ic oc n i l w = Inr (Continue ?l w')" "step_safe room S w lasts p ps (Continue ?l w')"
    "w_children w' = w_children w @ [?ch]" "w_forks w' = snd (alloc_ok (w_forks w))" "w_pipes w' = w_pipes w"
    using f w'(1,3,4,7) w6(1,2,4) by simp_all
  have sel: "l_fd_in ?l = fi" "l_fd_out ?l = fo" "l_pipes ?l = l_pipes l" "l_queue ?l = q'" by simp_all
  show ?thesis
    by (intro exI [of _ ?l] exI [of _ w'] exI [of _ ?ch] conjI; (unfold sel)?)
      (rule refl res near' closed child nodes' frame_trans [OF frame6 w'(5)])+
qed

section \<open>The whole list\<close>

lemma listed_frame: "listed k w ends c \<Longrightarrow> frame w w1 \<Longrightarrow> listed k w1 ends c"
  using ends_as_frame by (auto simp: listed_def)

lemma listed_loop:
  assumes "sane room S w (lasts @ ps)" "room < 536870914" "queue_sane (l_queue l) w ps" "short_dirs k"
    and "l_last l = last_ptr lasts" "length lasts \<le> 1" "last_mask lasts w \<noteq> Some commandConnectionPipe"
    and "cl = map (object_at (w_commands w)) ps" "list_all (listed k w ends) cl" "ps \<noteq> []" "\<not> runs_in_shell (last cl)"
    and "near base (l_fd_in l) (l_fd_out l) (w_fds w)" "copies_at k base ic oc" "False \<notin> set (w_forks w)"
    and "holds_nodes (l_queue l) (w_nodes w) as" "length as = length ps"
  shows "\<exists>l' w' chs p. job_loop k stack ic oc n (length ps) i l w = Inr (Continue l' w') \<and>
    l_last l' = Some p \<and> sane room S w' [p] \<and> queue_sane (l_queue l') w' [] \<and>
    near base (l_fd_in l') (l_fd_out l') (w_fds w') \<and>
    (l_fd_in l' = - 1 \<longleftrightarrow> redirectFromPath (last cl) = None) \<and> (l_fd_out l' = - 1 \<longleftrightarrow> redirectToPath (last cl) = None) \<and>
    l_pipes l' = l_pipes l \<and> w_children w' = w_children w @ chs \<and> list_all2 (\<lambda>ch c. child_as base ch c (ends c)) chs cl \<and>
    frame w w' \<and> w_nodes w' = release_nodes as (w_nodes w) \<and>
    release_nodes [p] (w_commands w') = release_nodes (lasts @ ps) (w_commands w) \<and> w_pipes w' = w_pipes w"
  using assms
proof (induction ps arbitrary: lasts cl i l w as)
  case Nil
  then show ?case by simp
next
  case (Cons p ps)
  let ?c = "object_at (w_commands w) p"
  have c: "listed k w ends ?c" using Cons.prems(8,9) by simp
  have shell: "\<not> runs_in_shell ?c \<or> ps \<noteq> []" using Cons.prems(8,11) by auto
  obtain a as' where as: "as = a # as'" using Cons.prems(16) by (cases as) auto
  have fork: "fst (alloc_ok (w_forks w))" "False \<notin> set (snd (alloc_ok (w_forks w)))"
    using Cons.prems(14) alloc_ok_False alloc_ok_subset by blast+
  obtain l1 w1 ch where r: "job_step k stack ic oc n i l w = Inr (Continue l1 w1)"
    "step_safe room S w lasts p ps (Continue l1 w1)" "near base (l_fd_in l1) (l_fd_out l1) (w_fds w1)"
    "l_fd_in l1 = - 1 \<longleftrightarrow> redirectFromPath ?c = None" "l_fd_out l1 = - 1 \<longleftrightarrow> redirectToPath ?c = None"
    "l_pipes l1 = l_pipes l" "w_children w1 = w_children w @ [ch]" "child_as base ch ?c (ends ?c)"
    "w_forks w1 = snd (alloc_ok (w_forks w))" "frame w w1" "w_nodes w1 = (w_nodes w)[a := None]"
    "holds_nodes (l_queue l1) (w_nodes w1) as'" "w_pipes w1 = w_pipes w"
    using listed_step [where stack = stack and n = n and i = i,
        OF Cons.prems(1-7) refl c shell Cons.prems(12,13) fork(1) Cons.prems(15) [unfolded as]]
    by (elim exE conjE) (rule that)
  have s: "l_last l1 = last_ptr [p]" "sane room S w1 ([p] @ ps)" "queue_sane (l_queue l1) w1 ps"
    "w_commands w1 = release_nodes lasts (w_commands w)"
    using r(2) by (simp_all add: step_safe_def)
  have fresh: "\<forall>b \<in> set (p # ps). b \<notin> set lasts" using Cons.prems(1) by (auto simp: sane_def)
  then have obj: "object_at (w_commands w1) b = object_at (w_commands w) b" if "b \<in> set (p # ps)" for b
    unfolding s(4) using that release_nodes_object by blast
  have mask: "last_mask [p] w1 \<noteq> Some commandConnectionPipe" using obj [of p] c by (simp add: last_mask_def listed_def)
  show ?case
  proof (cases "ps = []")
    case True
    then show ?thesis using r s Cons.prems(8,16) as
      by (intro exI [of _ l1] exI [of _ w1] exI [of _ "[ch]"] exI [of _ p]) (simp add: release_nodes_append)
  next
    case False
    let ?cl = "map (object_at (w_commands w1)) ps"
    have tail: "?cl = map (object_at (w_commands w)) ps" using obj by simp
    have all: "list_all (listed k w1 ends) ?cl"
      using Cons.prems(8,9) listed_frame [OF _ r(10)] unfolding tail by (auto simp: list_all_iff)
    have cl: "cl = ?c # ?cl" using Cons.prems(8) tail by simp
    then have lst: "last cl = last ?cl" using False by simp
    have more: "length [p] \<le> 1" "False \<notin> set (w_forks w1)" "length as' = length ps" "\<not> runs_in_shell (last ?cl)"
      using fork(2) r(9) Cons.prems(11,16) as lst by simp_all
    obtain l' w' chs p' where x: "job_loop k stack ic oc n (length ps) (Suc i) l1 w1 = Inr (Continue l' w')"
      "l_last l' = Some p'" "sane room S w' [p']" "queue_sane (l_queue l') w' []"
      "near base (l_fd_in l') (l_fd_out l') (w_fds w')"
      "l_fd_in l' = - 1 \<longleftrightarrow> redirectFromPath (last ?cl) = None" "l_fd_out l' = - 1 \<longleftrightarrow> redirectToPath (last ?cl) = None"
      "l_pipes l' = l_pipes l1" "w_children w' = w_children w1 @ chs" "list_all2 (\<lambda>ch c. child_as base ch c (ends c)) chs ?cl"
      "frame w1 w'" "w_nodes w' = release_nodes as' (w_nodes w1)"
      "release_nodes [p'] (w_commands w') = release_nodes ([p] @ ps) (w_commands w1)" "w_pipes w' = w_pipes w1"
      using Cons.IH [where i = "Suc i",
          OF s(2) Cons.prems(2) s(3) Cons.prems(4) s(1) more(1) mask refl all False more(4) r(3) Cons.prems(13) more(2) r(12) more(3)]
      by (elim exE conjE) (rule that)
    have ends: "list_all2 (\<lambda>ch c. child_as base ch c (ends c)) (ch # chs) cl" unfolding cl using x(10) r(8) by simp
    have nodes: "w_nodes w' = release_nodes as (w_nodes w)" using x(12) r(11) as by simp
    have cmds: "release_nodes [p'] (w_commands w') = release_nodes (lasts @ p # ps) (w_commands w)"
      using x(13) s(4) by (simp add: release_nodes_append)
    show ?thesis
      by (intro exI [of _ l'] exI [of _ w'] exI [of _ "ch # chs"] exI [of _ p'] conjI)
        (use x r(1,6,7,13) lst ends nodes cmds frame_trans [OF r(10) x(11)] in simp_all)
  qed
qed

lemma finish_jobs_fds:
  assumes "finish_jobs ic oc l w = Inr (Return s q w')"
  shows "w_fds w' = fd_dup2 oc 1 (fd_dup2 ic 0 (closepipes (l_pipes l) (w_fds w)))" "w_children w' = w_children w"
    "frame w w'" "w_nodes w' = w_nodes w" "w_fg_pid w' = 0"
proof -
  let ?w0 = "restore_std ic oc (w\<lparr>w_fds := closepipes (l_pipes l) (w_fds w)\<rparr>)"
  obtain w1 w2 where w1: "wait_last (l_last l) (l_pid l) ?w0 = Inr w1"
    and w2: "free_command (l_last l) w1 = Inr w2" and w': "w' = (fold waitpid (l_launched l) w2)\<lparr>w_fg_pid := 0\<rparr>"
    using assms by (auto simp: finish_jobs_def elim!: rbind_InrE)
  obtain b where b: "w1 = wait_if b (l_pid l) ?w0"
    using w1 by (auto simp: wait_last_def wait_if_def elim!: rbind_InrE)
  have "w_fds w1 = fd_dup2 oc 1 (fd_dup2 ic 0 (closepipes (l_pipes l) (w_fds w)))" "w_children w1 = w_children w"
    "w_nodes w1 = w_nodes w"
    by (simp_all add: b restore_std_def dup_onto_def)
  then show "w_fds w' = fd_dup2 oc 1 (fd_dup2 ic 0 (closepipes (l_pipes l) (w_fds w)))" "w_children w' = w_children w"
    "w_nodes w' = w_nodes w"
    using free_command_fds [OF w2] free_command_frame(2) [OF w2] fold_waitpid [of "l_launched l" w2] by (simp_all add: w')
  have "frame w ?w0" using frame_trans [OF frame_ops(2) frame_ops(4)] .
  also have "frame ?w0 w1" unfolding b by (rule frame_ops)
  also have "frame w1 w2" using w2 by (rule free_command_frame)
  also have "frame w2 w'" unfolding w' using frame_trans [OF frame_ops(10) frame_ops(9)] .
  finally show "frame w w'" .
  show "w_fg_pid w' = 0" by (simp add: w')
qed

lemma waitpid_pipes [simp]: "w_pipes (waitpid p w) = w_pipes w"
  by (simp add: waitpid_def add_event_def)

lemma fold_waitpid_pipes [simp]: "w_pipes (fold waitpid ps w) = w_pipes w"
  by (induction ps arbitrary: w) simp_all

lemma finish_jobs_pipes:
  assumes "finish_jobs ic oc l w = Inr (Return s q w')"
  shows "w_pipes w' = w_pipes w"
proof -
  let ?w0 = "restore_std ic oc (w\<lparr>w_fds := closepipes (l_pipes l) (w_fds w)\<rparr>)"
  obtain w1 w2 where w1: "wait_last (l_last l) (l_pid l) ?w0 = Inr w1"
    and w2: "free_command (l_last l) w1 = Inr w2" and w': "w' = (fold waitpid (l_launched l) w2)\<lparr>w_fg_pid := 0\<rparr>"
    using assms by (auto simp: finish_jobs_def elim!: rbind_InrE)
  have "w_pipes w1 = w_pipes ?w0" using w1 by (auto simp: wait_last_def elim!: rbind_InrE split: if_splits)
  moreover have "w_pipes ?w0 = w_pipes w" by (simp add: restore_std_def dup_onto_def)
  ultimately show ?thesis using free_command_pipes [OF w2] by (simp add: w')
qed

lemma near_restored:
  assumes "near base fi fo t" "copies_at k base ic oc"
  shows "near base fi fo (fd_dup2 oc 1 (fd_dup2 ic 0 t))"
proof -
  have out: "fd_channel t x = fd_channel base x" if "fd_channel base x \<noteq> None" for x
    using assms(1) that by (metis near_def fd_channel_neg)
  have "fd_channel (fd_dup2 oc 1 (fd_dup2 ic 0 t)) x = fd_channel t x" for x
    using assms(2) out by (auto simp: fd_channel_dup2 copies_at_def split: option.splits)
  then show ?thesis using assms(1) by (simp add: near_def)
qed

lemma fd_dup_new:
  assumes "fd_dup limit fd t = (n, t')"
  shows "fd_channel t n = None" "fd_channel t x \<noteq> None \<Longrightarrow> fd_channel t' x = fd_channel t x"
  using assms fd_channel_lowest [of t]
  by (auto simp: fd_dup_def fd_alloc_def fd_channel_put_eq split: option.splits if_splits)

lemma executeCommands_listed_run:
  assumes s: "sane room S w ps" "room < 536870914" and q: "queue_sane q w ps" and k: "short_dirs k"
    and len: "length ps < 2 ^ 31" "ps \<noteq> []"
    and cl: "cl = map (object_at (w_commands w)) ps" "list_all (listed k w ends) cl" "\<not> runs_in_shell (last cl)"
    and fds: "fd_channel (w_fds w) 0 \<noteq> None" "fd_channel (w_fds w) 1 \<noteq> None" "open_count (w_fds w) + 4 \<le> fd_limit k"
    and stack: "\<forall>j. stack j < 0" and forks: "False \<notin> set (w_forks w)"
    and as: "holds_nodes q (w_nodes w) as" "length as = length ps"
  shows "\<exists>q' w' chs. executeCommandsInQueue k stack junk (Some q) w = Inr (Return 0 q' w') \<and>
    w_children w' = w_children w @ chs \<and> list_all2 (\<lambda>ch c. child_as (w_fds w) ch c (ends c)) chs cl \<and>
    fd_channel (w_fds w') 0 = fd_channel (w_fds w) 0 \<and> fd_channel (w_fds w') 1 = fd_channel (w_fds w) 1 \<and>
    open_count (w_fds w') = open_count (w_fds w) + 2 + redirects (redirectFromPath (last cl)) + redirects (redirectToPath (last cl)) \<and>
    sane room S w' [] \<and> queue_sane q' w' [] \<and> frame w w' \<and> w_fg_pid w' = 0 \<and>
    w_nodes w' = release_nodes as (w_nodes w) \<and> w_commands w' = release_nodes ps (w_commands w) \<and> w_pipes w' = w_pipes w"
proof -
  have count: "queue_count q \<noteq> 0" using queue_sane_empty [OF q] len(2) by simp
  have n: "nat (command_count q) = length ps"
    using len command_count_small [of q "length ps"] as by (simp add: holds_nodes_def)
  have std: "standard_fds k (w_fds w)" using fds by (simp add: standard_fds_def)
  let ?base = "with_copies k (w_fds w)"
  obtain ic oc t1 where d: "fd_dup (fd_limit k) 0 (w_fds w) = (ic, t1)" "fd_dup (fd_limit k) 1 t1 = (oc, ?base)"
    "fd_dup2 ic 0 ?base = ?base" "fd_dup2 oc 1 ?base = ?base"
    "fd_channel ?base ic = fd_channel (w_fds w) 0" "fd_channel ?base oc = fd_channel (w_fds w) 1"
    "open_count ?base = open_count (w_fds w) + 2"
    using std by (rule copies_run)
  have old: "fd_channel ?base fd = fd_channel (w_fds w) fd" if "fd_channel (w_fds w) fd \<noteq> None" for fd
    using that fd_dup_new(2) [OF d(1)] fd_dup_new(2) [OF d(2)] by metis
  have "ic \<noteq> 0" "ic \<noteq> 1" "oc \<noteq> 0" "oc \<noteq> 1"
    using fd_dup_new(1) [OF d(1)] fd_dup_new(1) [OF d(2)] fd_dup_new(2) [OF d(1)] fds(1,2) by auto
  then have copies: "copies_at k ?base ic oc" using d(5-7) old fds by (simp add: copies_at_def)
  let ?w = "w\<lparr>w_fds := ?base\<rparr>"
  let ?l = "\<lparr>l_queue = q, l_fd_in = - 1, l_fd_out = - 1, l_pid = - 1,
      l_pipes = map (\<lambda>j. stack (int j)) [0..<2 * (length ps - 1)], l_launched = map junk [0..<length ps], l_last = None\<rparr>"
  have c: "core w ?w" by (rule core_ops)
  have pre: "sane room S ?w ([] @ ps)" "queue_sane (l_queue ?l) ?w ps" "l_last ?l = last_ptr []" "length ([] :: nat list) \<le> 1"
    "last_mask [] ?w \<noteq> Some commandConnectionPipe" "cl = map (object_at (w_commands ?w)) ps"
    "near ?base (l_fd_in ?l) (l_fd_out ?l) (w_fds ?w)" "False \<notin> set (w_forks ?w)" "holds_nodes (l_queue ?l) (w_nodes ?w) as"
    using s(1) q cl(1) forks near_refl as(1) by (simp_all add: sane_core [OF c] queue_sane_core [OF c] last_mask_def)
  have all: "list_all (listed k ?w ends) cl"
    using cl(2) listed_frame [OF _ frame_ops(2)] by (auto simp: list_all_iff)
  obtain l' w1 chs p where r: "job_loop k stack ic oc (length ps) (length ps) 0 ?l ?w = Inr (Continue l' w1)"
    "l_last l' = Some p" "sane room S w1 [p]" "queue_sane (l_queue l') w1 []"
    "near ?base (l_fd_in l') (l_fd_out l') (w_fds w1)"
    "l_fd_in l' = - 1 \<longleftrightarrow> redirectFromPath (last cl) = None" "l_fd_out l' = - 1 \<longleftrightarrow> redirectToPath (last cl) = None"
    "l_pipes l' = l_pipes ?l" "w_children w1 = w_children ?w @ chs" "list_all2 (\<lambda>ch c. child_as ?base ch c (ends c)) chs cl"
    "frame ?w w1" "w_nodes w1 = release_nodes as (w_nodes ?w)"
    "release_nodes [p] (w_commands w1) = release_nodes ([] @ ps) (w_commands ?w)" "w_pipes w1 = w_pipes ?w"
    using listed_loop [where stack = stack and n = "length ps" and i = 0,
        OF pre(1) s(2) pre(2) k pre(3-6) all len(2) cl(3) pre(7) copies pre(8,9) as(2)]
    by (elim exE conjE) (rule that)
  obtain w' where w': "finish_jobs ic oc l' w1 = Inr (Return 0 (l_queue l') w')" "sane room S w' []"
    "queue_sane (l_queue l') w' []" "w_commands w' = (w_commands w1)[p := None]"
    using finish_jobs_safe [OF r(3,2,4)] by blast
  note fin = finish_jobs_fds [OF w'(1)]
  have run: "executeCommandsInQueue k stack junk (Some q) w = Inr (Return 0 (l_queue l') w')"
    using count d(1,2) r(1) w'(1) by (simp add: executeCommandsInQueue_def n)
  have pipes: "closepipes (l_pipes l') (w_fds w1) = w_fds w1"
  proof -
    have "fd_channel (w_fds w1) (stack j) = None" for j
      using stack by (simp add: fd_channel_def) (metis linorder_not_le)
    then show ?thesis unfolding r(8) by (intro closepipes_junk) auto
  qed
  have near: "near ?base (l_fd_in l') (l_fd_out l') (w_fds w')"
    using near_restored [OF r(5) copies] unfolding fin(1) pipes .
  have keep: "fd_channel (w_fds w') x = fd_channel (w_fds w) x" if "fd_channel (w_fds w) x \<noteq> None" for x
    using near old [OF that] that by (metis near_def fd_channel_neg)
  have "open_count (w_fds w') = open_count (w_fds w) + 2 + redirects (redirectFromPath (last cl)) + redirects (redirectToPath (last cl))"
    using near_count [OF near] d(7) r(6,7) by (auto simp: redirects_def split: option.splits)
  moreover have "child_as ?base = child_as (w_fds w)"
    by (simp add: child_as_def stdin_of_def stdout_of_def fun_eq_iff old [OF fds(1)] old [OF fds(2)] cong: option.case_cong)
  moreover have "frame w w'" using frame_trans [OF frame_trans [OF frame_ops(2) r(11)] fin(3)] .
  moreover have "w_nodes w' = release_nodes as (w_nodes w)" "w_commands w' = release_nodes ps (w_commands w)"
    "w_pipes w' = w_pipes w"
    using r(12-14) fin(4) w'(4) finish_jobs_pipes [OF w'(1)] by simp_all
  ultimately show ?thesis
    using run r(9,10) fin(2,5) keep fds(1,2) w'(2,3)
    by (intro exI [of _ "l_queue l'"] exI [of _ w'] exI [of _ chs]) simp
qed

definition plain :: "kernel \<Rightarrow> command_t \<Rightarrow> bool" where
  "plain k c \<longleftrightarrow> external k c \<and> connectionMask c \<noteq> commandConnectionPipe \<and> files_open k c"

lemma plain_listed:
  assumes "plain k c"
  shows "listed k w (\<lambda>c. Runs (path c) (words_of c)) c" "\<not> runs_in_shell c"
  using assms ends_as_external
  by (auto simp: plain_def listed_def runs_in_shell_def external_def split: option.splits list.splits)

section \<open>Property\<close>

text \<open>C9. Redirections. In a list of external commands without pipes whose files can be opened, each
  command runs in a process of its own that finds its input file at descriptor 0 and its output
  file at descriptor 1, or else what the shell has there; the redirection of one command does not
  reach the next one, and the shell has its own stdin and stdout back at the end. What stays open
  besides the two copies are the files of the last command: nothing closes them.\<close>

theorem redirections_apply:
  assumes "sane room S w ps" "room < 536870914" "queue_sane q w ps" "short_dirs k"
    and "length ps < 2 ^ 31" "ps \<noteq> []"
    and "cl = map (object_at (w_commands w)) ps" "list_all (plain k) cl"
    and "fd_channel (w_fds w) 0 \<noteq> None" "fd_channel (w_fds w) 1 \<noteq> None" "open_count (w_fds w) + 4 \<le> fd_limit k"
    and "\<forall>j. stack j < 0" "False \<notin> set (w_forks w)"
  shows "\<exists>q' w' chs. executeCommandsInQueue k stack junk (Some q) w = Inr (Return 0 q' w') \<and>
    w_children w' = w_children w @ chs \<and> list_all2 (child_of (w_fds w)) chs cl \<and>
    fd_channel (w_fds w') 0 = fd_channel (w_fds w) 0 \<and> fd_channel (w_fds w') 1 = fd_channel (w_fds w) 1 \<and>
    open_count (w_fds w') = open_count (w_fds w) + 2 + redirects (redirectFromPath (last cl)) + redirects (redirectToPath (last cl))"
proof -
  let ?ends = "\<lambda>c. Runs (path c) (words_of c)"
  obtain as where as: "holds_nodes q (w_nodes w) as" "length as = length ps"
    using assms(3) by (auto simp: queue_sane_def items_def dest: map_eq_imp_length_eq)
  have "cl \<noteq> []" using assms(6,7) by simp
  then have all: "\<forall>c \<in> set cl. plain k c" "last cl \<in> set cl" using assms(8) by (simp_all add: list_all_iff)
  have "list_all (listed k w ?ends) cl" using all(1) plain_listed(1) by (simp add: list_all_iff)
  moreover have "\<not> runs_in_shell (last cl)" using all plain_listed(2) by blast
  ultimately have "list_all (listed k w ?ends) cl" "\<not> runs_in_shell (last cl)" .
  note run = executeCommands_listed_run [OF assms(1-7) this assms(9-13) as]
  have "child_of (w_fds w) = (\<lambda>ch c. child_as (w_fds w) ch c (?ends c))" by (simp add: fun_eq_iff child_of_as)
  then show ?thesis using run [of junk] by fastforce
qed

section \<open>Witness\<close>

text \<open>\<open>sort < in > out; ls > list\<close>\<close>

abbreviation redirected_queue :: "command_t list" where
  "redirected_queue \<equiv>
     [(simple_command [''sort''] commandConnectionSequential)\<lparr>redirectFromPath := Some ''in'', redirectToPath := Some ''out''\<rparr>,
      (simple_command [''ls''] commandConnectionNone)\<lparr>redirectToPath := Some ''list''\<rparr>]"

theorem redirections_apply_witness:
  "\<exists>q' w' c d. executeCommandsInQueue small_kernel (\<lambda>_. - 1) (\<lambda>_. 0) (Some (listed_queue 2))
      (world_with home_shell redirected_queue) = Inr (Return 0 q' w') \<and>
    w_children w' = [c, d] \<and> fd_channel (child_fds c) 0 = Some (Read_File ''in'') \<and>
    fd_channel (child_fds c) 1 = Some (Write_File ''out'') \<and> fd_channel (child_fds d) 0 = Some (Terminal 0) \<and>
    fd_channel (child_fds d) 1 = Some (Write_File ''list'') \<and> open_count (w_fds w') = 6"
proof -
  let ?w = "world_with home_shell redirected_queue"
  have n: "length redirected_queue = 2" by simp
  have run: "\<forall>c \<in> set redirected_queue. runnable c" by code_simp
  have s: "sane 0 {#} ?w [0..<2]" "queue_sane (listed_queue 2) ?w [0..<2]"
    using home_queue_sane [OF _ _ run] unfolding n by simp_all
  have cl: "redirected_queue = map (object_at (w_commands ?w)) [0..<2]"
    using world_with_objects [of home_shell redirected_queue] unfolding n by simp
  have plain: "list_all (plain small_kernel) redirected_queue" by code_simp
  obtain q' w' chs where r: "executeCommandsInQueue small_kernel (\<lambda>_. - 1) (\<lambda>_. 0) (Some (listed_queue 2)) ?w = Inr (Return 0 q' w')"
    "w_children w' = w_children ?w @ chs" "list_all2 (child_of (w_fds ?w)) chs redirected_queue"
    "open_count (w_fds w') = open_count (w_fds ?w) + 2 + redirects (redirectFromPath (last redirected_queue)) +
      redirects (redirectToPath (last redirected_queue))"
    using redirections_apply [where stack = "\<lambda>_. - 1" and junk = "\<lambda>_. 0", OF s(1) _ s(2) small_kernel_dirs _ _ cl plain]
    by (auto simp: small_kernel_fds small_kernel_def open_count_def fd_channel_def)
  obtain c d where chs: "chs = [c, d]" using r(3) by (auto simp: list_all2_Cons2)
  from r show ?thesis unfolding chs
    by (intro exI [of _ q'] exI [of _ w'] exI [of _ c] exI [of _ d])
      (simp add: child_of_def stdin_of_def stdout_of_def redirects_def fd_channel_def open_count_def)
qed

end
