(* ===== verification/Views.thy ===== *)
theory Views
  imports Shell_Safe Redirections
begin

text \<open>
  The shell as its users see it. \<open>view\<close> extends the abstract session by what the builtins act on (the
  aliases that are defined, the environment, the working directory, the output) and by the channels
  of the programs. \<open>effect_of\<close> says what each builtin does to the view when the shell runs it,
  \<open>ends_in\<close> how a child ends that executes a command: the builtins, \<open>exit\<close>, programs, and commands that
  are not found.
\<close>

section \<open>The view\<close>

text \<open>\<open>v_std\<close> is what the shell has at its descriptors 0 and 1, \<open>v_channels\<close> what each child has
  there; pipes are numbered from 0 on, \<open>v_pipes\<close> is the number of the next one.\<close>

record view =
  v_session :: session
  v_defs :: "(string \<times> string) list"
  v_env :: "string \<Rightarrow> string option"
  v_cwd :: string
  v_out :: string
  v_std :: "channel option \<times> channel option"
  v_channels :: "(channel option \<times> channel option) list"
  v_pipes :: nat

definition say :: "string \<Rightarrow> view \<Rightarrow> view" where
  "say s v = v\<lparr>v_out := v_out v @ s\<rparr>"

definition report :: "string \<Rightarrow> view \<Rightarrow> view" where
  "report s v = v\<lparr>v_session := (v_session v)\<lparr>error_output := error_output (v_session v) @ s\<rparr>\<rparr>"

text \<open>What \<open>sh\<close> shows, when every heap string is an alias's or one of \<open>others\<close>.\<close>

definition seen :: "strheap \<Rightarrow> shell \<Rightarrow> view \<Rightarrow> bool" where
  "seen others sh v \<longleftrightarrow>
     alias_ok (sh_aliases sh) others \<and> describes (v_defs v) (sh_aliases sh) \<and> unmarked (sh_aliases sh) \<and>
     False \<notin> set (al_oom (sh_aliases sh)) \<and> sh_env sh = v_env v \<and> sh_cwd sh = v_cwd v \<and>
     sh_out sh = v_out v \<and> sh_err sh = error_output (v_session v)"

lemma seen_say: "seen others sh v \<Longrightarrow> seen others (put_out s sh) (say s v)"
  by (simp add: seen_def put_out_def say_def)

lemma seen_report: "seen others sh v \<Longrightarrow> seen others (put_err s sh) (report s v)"
  by (simp add: seen_def put_err_def report_def)

text \<open>The table has room when the list of definitions is short.\<close>

lemma describes_count_le:
  assumes "alias_ok st others" "unmarked st" "describes defs st"
  shows "alias_count st \<le> length defs"
proof -
  have "{k. c_string k \<and> map_of defs k \<noteq> None} \<subseteq> set (map fst defs)"
    by (auto simp: map_of_eq_None_iff image_iff)
  then have "card {k. c_string k \<and> map_of defs k \<noteq> None} \<le> card (set (map fst defs))"
    by (intro card_mono) simp_all
  also have "\<dots> \<le> length defs" using card_length [of "map fst defs"] by simp
  finally show ?thesis using describes_count [OF assms] by simp
qed

lemma seen_shell_ok: "seen others sh v \<Longrightarrow> length (v_defs v) < 536870914 \<Longrightarrow> shell_ok others sh"
  using describes_count_le [of "sh_aliases sh" others "v_defs v"] by (simp add: seen_def shell_ok_def)

section \<open>The effects of the builtins\<close>

definition assignment :: "string \<Rightarrow> (string \<times> string) option" where
  "assignment s =
     (if CHR ''='' \<in> set s
      then Some (takeWhile (\<lambda>c. c \<noteq> CHR ''='') s, tl (dropWhile (\<lambda>c. c \<noteq> CHR ''='') s)) else None)"

definition perror_text :: "string option \<Rightarrow> string \<Rightarrow> string" where
  "perror_text p msg =
     (case p of None \<Rightarrow> [] | Some d \<Rightarrow> if cstr d = [] then [] else cstr d @ '': '') @ msg @ newline"

definition effect_of :: "chdir_call \<Rightarrow> string \<Rightarrow> string list \<Rightarrow> view \<Rightarrow> view" where
  "effect_of dirs name args v =
     (if name = ''echo'' then say (echo_text args @ newline) v
      else if name = ''pwd'' then say (v_cwd v @ newline) v
      else if name = ''cd'' then
        (let p = (case args of [] \<Rightarrow> v_env v ''HOME'' | a # _ \<Rightarrow> Some (cstr a)) in
         case dirs (v_cwd v) p of
           Inl msg \<Rightarrow> report (perror_text p msg) v
         | Inr dir \<Rightarrow> v\<lparr>v_cwd := dir\<rparr>)
      else
        case args of
          [] \<Rightarrow> if name = ''unalias'' then report unalias_usage v else v
        | a # _ \<Rightarrow>
            if name = ''unalias'' then v\<lparr>v_defs := without (cstr a) (v_defs v)\<rparr>
            else
              case assignment (cstr a) of
                None \<Rightarrow> v
              | Some (key, val) \<Rightarrow>
                  if name = ''alias'' then v\<lparr>v_defs := (key, val) # without key (v_defs v)\<rparr>
                  else if name = ''export'' \<and> key \<noteq> [] then v\<lparr>v_env := (v_env v)(key \<mapsto> val)\<rparr>
                  else v)"

lemma assignment_Some:
  assumes "assignment s = Some (k, x)"
  shows "s = k @ CHR ''='' # x" "CHR ''='' \<notin> set k"
proof -
  have eq: "CHR ''='' \<in> set s" "k = takeWhile (\<lambda>c. c \<noteq> CHR ''='') s" "x = tl (dropWhile (\<lambda>c. c \<noteq> CHR ''='') s)"
    using assms by (auto simp: assignment_def split: if_splits)
  then have "dropWhile (\<lambda>c. c \<noteq> CHR ''='') s = CHR ''='' # x"
    using hd_dropWhile [of "\<lambda>c. c \<noteq> CHR ''=''" s] dropWhile_eq_Nil_conv [of "\<lambda>c. c \<noteq> CHR ''=''" s]
    by (cases "dropWhile (\<lambda>c. c \<noteq> CHR ''='') s") auto
  then show "s = k @ CHR ''='' # x" using takeWhile_dropWhile_id [of "\<lambda>c. c \<noteq> CHR ''=''" s] eq(2) by simp
  show "CHR ''='' \<notin> set k" using eq(2) set_takeWhileD by fastforce
qed

lemma assignment_None: "assignment s = None \<longleftrightarrow> strstr s ''='' = None"
  by (simp add: assignment_def strstr_char)

lemma alias_seen:
  assumes v: "seen others sh v" "length (v_defs v) < 536870914"
  shows "\<exists>r sh'. cmd_alias (Some a # args) sh = Inr (Some r, sh') \<and> seen others sh' (effect_of dirs ''alias'' (a # ws) v)"
proof (cases "assignment (cstr a)")
  case None
  obtain al1 al2 where al: "buf_new (cstr a) (sh_aliases sh) = Inr al1" "buf_free (cstr a) al1 = Inr al2"
    "alias_ok al2 others" "False \<notin> set (al_oom al2)" "alias_lookup al2 = alias_lookup (sh_aliases sh)"
    using dup_and_free [OF seen_shell_ok [OF v], of "cstr a"] by blast
  then have "describes (v_defs v) al2" "unmarked al2"
    using v(1) describes_lookup [OF al(5)] by (simp_all add: seen_def unmarked_def)
  moreover have "strstr (cstr a) ''='' = None" using None assignment_None by simp
  ultimately show ?thesis using v(1) al None
    by (simp add: cmd_alias_def first_entry_def effect_of_def seen_def)
next
  case (Some kx)
  obtain k x where kx: "kx = (k, x)" by fastforce
  note s = assignment_Some [OF Some [unfolded kx]]
  obtain al where al: "cmd_alias (Some a # args) sh = Inr (Some 0, sh\<lparr>sh_aliases := al\<rparr>)" "alias_ok al others"
    "False \<notin> set (al_oom al)" "alias_lookup al = (\<lambda>j. if k = cstr j then Some \<lparr>alias_value = Some x, in_use = 0\<rparr>
                          else alias_lookup (sh_aliases sh) j)"
    using cmd_alias_run [OF seen_shell_ok [OF v] s, of args] by blast
  have "c_string (cstr a)" by simp
  then have "c_string x" unfolding s(1) by simp
  then have "describes ((k, x) # without k (v_defs v)) al"
    using v(1) by (auto simp: describes_def available_def al(4) map_of_without seen_def)
  moreover have "unmarked al" using v(1) al(4) by (auto simp: seen_def unmarked_def)
  ultimately show ?thesis using v(1) al(1-3) Some kx by (simp add: effect_of_def seen_def)
qed

lemma unalias_seen:
  assumes v: "seen others sh v"
  shows "\<exists>r sh'. cmd_unalias (Some a # args) sh = Inr (Some r, sh') \<and> seen others sh' (effect_of dirs ''unalias'' (a # ws) v)"
proof -
  have ok: "alias_ok (sh_aliases sh) others" using v by (simp add: seen_def)
  obtain al where al: "removeAlias a (sh_aliases sh) = Inr al" "alias_ok al others" "al_oom al = al_oom (sh_aliases sh)"
    "alias_lookup al = (\<lambda>j. if cstr a = cstr j then None else alias_lookup (sh_aliases sh) j)"
    using removeAlias_run [OF ok, of a] by blast
  have "describes (without (cstr a) (v_defs v)) al"
    using v by (auto simp: describes_def available_def al(4) map_of_without seen_def)
  moreover have "unmarked al" using v al(4) by (auto simp: seen_def unmarked_def)
  ultimately show ?thesis using v al(1-3)
    by (simp add: cmd_unalias_def first_entry_def effect_of_def seen_def)
qed

lemma export_seen:
  assumes v: "seen others sh v" "length (v_defs v) < 536870914"
  shows "\<exists>r sh'. cmd_export (Some a # args) sh = Inr (Some r, sh') \<and> seen others sh' (effect_of dirs ''export'' (a # ws) v)"
proof (cases "assignment (cstr a)")
  case None
  obtain al1 al2 where al: "buf_new (cstr a) (sh_aliases sh) = Inr al1" "buf_free (cstr a) al1 = Inr al2"
    "alias_ok al2 others" "False \<notin> set (al_oom al2)" "alias_lookup al2 = alias_lookup (sh_aliases sh)"
    using dup_and_free [OF seen_shell_ok [OF v], of "cstr a"] by blast
  then have "describes (v_defs v) al2" "unmarked al2"
    using v(1) describes_lookup [OF al(5)] by (simp_all add: seen_def unmarked_def)
  moreover have "strstr (cstr a) ''='' = None" using None assignment_None by simp
  ultimately show ?thesis using v(1) al None
    by (simp add: cmd_export_def first_entry_def effect_of_def seen_def)
next
  case (Some kx)
  obtain k x where kx: "kx = (k, x)" by fastforce
  note s = assignment_Some [OF Some [unfolded kx]]
  obtain al1 al2 al3 where al: "buf_new (cstr a) (sh_aliases sh) = Inr al1" "buf_write (cstr a) k al1 = Inr al2"
    "buf_free k al2 = Inr al3" "alias_ok al3 others" "False \<notin> set (al_oom al3)"
    "alias_lookup al3 = alias_lookup (sh_aliases sh)"
    using dup_cut_and_free [OF seen_shell_ok [OF v], of "cstr a" k] by blast
  then have "describes (v_defs v) al3" "unmarked al3"
    using v(1) describes_lookup [OF al(6)] by (simp_all add: seen_def unmarked_def)
  moreover have "strstr (cstr a) ''='' = Some (CHR ''='' # x)"
    "take (length (cstr a) - length (CHR ''='' # x)) (cstr a) = k"
    using strstr_split [OF s(2), of x] unfolding s(1) by simp_all
  ultimately show ?thesis using v(1) al(1-5) Some s(2) kx
    by (simp add: cmd_export_def first_entry_def effect_of_def setenv_def seen_def)
qed

lemma cd_seen:
  assumes "seen others sh v"
  shows "\<exists>r sh'. cmd_cd dirs (map Some ws @ None # rest) sh = Inr (Some r, sh') \<and>
    seen others sh' (effect_of dirs ''cd'' ws v)"
proof -
  let ?p = "case ws of [] \<Rightarrow> v_env v ''HOME'' | a # _ \<Rightarrow> Some (cstr a)"
  let ?fin = "case dirs (v_cwd v) ?p of
      Inl msg \<Rightarrow> Inr (Some (- 1), perror ?p msg sh)
    | Inr dir \<Rightarrow> Inr (Some 0, sh\<lparr>sh_cwd := dir\<rparr>)"
  have "cmd_cd dirs (map Some ws @ None # rest) sh = ?fin"
    using assms by (cases ws) (auto simp: cmd_cd_def first_entry_def seen_def Let_def split: sum.splits)
  moreover have "effect_of dirs ''cd'' ws v =
      (case dirs (v_cwd v) ?p of Inl msg \<Rightarrow> report (perror_text ?p msg) v | Inr dir \<Rightarrow> v\<lparr>v_cwd := dir\<rparr>)"
    by (simp add: effect_of_def Let_def)
  moreover have "seen others (perror q msg sh) (report (perror_text q msg) v)" for q msg
    using seen_report [OF assms] by (simp add: perror_def perror_text_def)
  moreover have "seen others (sh\<lparr>sh_cwd := dir\<rparr>) (v\<lparr>v_cwd := dir\<rparr>)" for dir
    using assms by (simp add: seen_def)
  ultimately show ?thesis by (cases "dirs (v_cwd v) ?p") auto
qed

text \<open>Every builtin but \<open>exit\<close>. (The order in which \<open>alias\<close> alone lists the table is left open.)\<close>

lemma effect_run:
  assumes v: "seen others sh v" "length (v_defs v) < 536870914" "length (v_cwd v) < BUFSIZE"
    and f: "map_of (builtin_table dirs) name = Some f" "name \<noteq> ''exit''" "argv_ok args"
    and given: "name = ''export'' \<or> name = ''alias'' \<Longrightarrow> argv_words args \<noteq> []"
  shows "\<exists>r sh'. f args sh = Inr (Some r, sh') \<and> seen others sh' (effect_of dirs name (argv_words args) v)"
proof -
  obtain ws rest where args: "args = map Some ws @ None # rest"
    using f(3) terminated_split unfolding argv_ok_def by blast
  have words: "argv_words args = ws" by (simp add: args)
  have "name \<in> set builtin_names" using builtin_known [of dirs name] f(1) by auto
  then have "name = ''alias'' \<or> name = ''cd'' \<or> name = ''echo'' \<or> name = ''export'' \<or> name = ''pwd'' \<or> name = ''unalias''"
    using f(2) by (simp add: builtin_names_def)
  then consider "name = ''alias''" | "name = ''cd''" | "name = ''echo''" | "name = ''export''"
    | "name = ''pwd''" | "name = ''unalias''"
    by (elim disjE) (rule that, assumption)+
  then show ?thesis
  proof cases
    case 1
    then have "ws \<noteq> []" using given words by metis
    then obtain a us where "ws = a # us" by (auto simp: neq_Nil_conv)
    with 1 alias_seen [OF v(1,2), of a "map Some us @ None # rest" dirs us] f(1)
    show ?thesis unfolding words by (simp add: args builtin_table_def)
  next
    case 2
    with cd_seen [OF v(1), of dirs ws rest] f(1) show ?thesis unfolding words by (simp add: builtin_table_def args)
  next
    case 3
    have "cmd_echo args sh = Inr (Some 0, put_out (echo_text ws @ newline) sh)"
      by (simp add: cmd_echo_def args echo_loop_run)
    with 3 f(1) seen_say [OF v(1)] show ?thesis unfolding words by (simp add: builtin_table_def effect_of_def)
  next
    case 4
    then have "ws \<noteq> []" using given words by metis
    then obtain a us where "ws = a # us" by (auto simp: neq_Nil_conv)
    with 4 export_seen [OF v(1,2), of a "map Some us @ None # rest" dirs us] f(1)
    show ?thesis unfolding words by (simp add: args builtin_table_def)
  next
    case 5
    have "cmd_pwd args sh = Inr (Some 0, put_out (v_cwd v @ newline) sh)"
      using v(1,3) by (simp add: cmd_pwd_def getcwd_def seen_def)
    with 5 f(1) seen_say [OF v(1)] show ?thesis unfolding words by (simp add: builtin_table_def effect_of_def)
  next
    case 6
    show ?thesis
    proof (cases ws)
      case Nil
      with 6 f(1) seen_report [OF v(1)] show ?thesis unfolding words
        by (simp add: builtin_table_def effect_of_def cmd_unalias_def first_entry_def args)
    next
      case (Cons a us)
      with 6 unalias_seen [OF v(1), of a "map Some us @ None # rest" dirs us] f(1)
      show ?thesis unfolding words by (simp add: args builtin_table_def)
    qed
  qed
qed

section \<open>How a child ends\<close>

definition farewell :: string where
  "farewell = ''Bye!'' @ newline"

definition ends_in :: "kernel \<Rightarrow> view \<Rightarrow> command_t \<Rightarrow> child_end" where
  "ends_in k v c =
     (let name = cstr (hd (words_of c)); v' = effect_of (chdir k) name (tl (words_of c)) v in
      if name = ''exit'' then Exits 0 farewell []
      else if name \<in> set builtin_names then
        Exits 0 (drop (length (v_out v)) (v_out v'))
          (drop (length (error_output (v_session v))) (error_output (v_session v')))
      else
        case execvp k (path c) (words_of c) of
          Replaced \<Rightarrow> Runs (path c) (words_of c)
        | Exec_Error missing msg \<Rightarrow>
            Exits (- 1) [] (if missing then command_not_found (path c) else perror_text (path c) msg))"

text \<open>The commands it is about: they have a name, and \<open>export\<close> and \<open>alias\<close> have an argument.\<close>

definition complete :: "command_t \<Rightarrow> bool" where
  "complete c \<longleftrightarrow>
     runnable c \<and> (cstr (hd (words_of c)) = ''alias'' \<longrightarrow> tl (words_of c) \<noteq> [])"

lemma completeE:
  assumes "complete c"
  obtains name args where "argv c = Some (Some name # args)" "words_of c = name # argv_words args"
    "argv_ok args" "cstr name = ''export'' \<or> cstr name = ''alias'' \<longrightarrow> argv_words args \<noteq> []"
proof -
  have "runnable c" using assms by (simp add: complete_def)
  then obtain name args where a: "argv c = Some (Some name # args)" "argv_ok args"
    "cstr name = ''export'' \<longrightarrow> hd args \<noteq> None"
    by (rule runnableE)
  have words: "words_of c = name # argv_words args" using a(1) by (simp add: words_of_def)
  have "argv_words args \<noteq> []" if "cstr name = ''export'' \<or> cstr name = ''alias''"
    using that
  proof
    assume "cstr name = ''export''"
    then show ?thesis using a(2,3) by (cases args) (auto simp: argv_ok_def)
  next
    assume "cstr name = ''alias''"
    then show ?thesis using assms by (simp add: complete_def words)
  qed
  then show thesis using that [OF a(1) words a(2)] by blast
qed

lemma exit_child_run:
  assumes "alias_ok (sh_aliases sh) others"
  shows "exit_child parent s sh =
    Inr (Exits s (drop (length (sh_out parent)) (sh_out sh)) (drop (length (sh_err parent)) (sh_err sh)))"
  using destroyAliases_run [OF assms] by (auto simp: exit_child_def exit_handler_def)

lemma ends_in_run:
  assumes v: "seen others sh v" "length (v_defs v) < 536870914" "length (v_cwd v) < BUFSIZE" and c: "complete c"
  shows "rbind (executeCommand k c sh) (\<lambda>(r, sh'). end_child sh r Inr sh') = Inr (ends_in k v c)"
proof -
  obtain name args where a: "argv c = Some (Some name # args)" "words_of c = name # argv_words args"
    "argv_ok args" "cstr name = ''export'' \<or> cstr name = ''alias'' \<longrightarrow> argv_words args \<noteq> []"
    using c by (rule completeE)
  have ok: "alias_ok (sh_aliases sh) others" using v(1) by (simp add: seen_def)
  have shell: "sh_out sh = v_out v" "sh_err sh = error_output (v_session v)" using v(1) by (simp_all add: seen_def)
  show ?thesis
  proof (cases "map_of (builtin_table (chdir k)) (cstr name)")
    case None
    then have name: "cstr name \<notin> set builtin_names" by (simp add: builtin_known)
    then have "cstr name \<noteq> ''exit''" by (auto simp: builtin_names_def)
    moreover have "exit_child sh s (put_err m sh) = Inr (Exits s [] m)" for s m
      using exit_child_run [of "put_err m sh" others] ok by (simp add: put_err_def)
    moreover have "perror p m sh = put_err (perror_text p m) sh" for p m by (simp add: perror_def perror_text_def)
    ultimately show ?thesis using None name a(1)
      by (simp add: executeCommand_def executeBuiltin_run ends_in_def a(2) end_child_def split: exec_result.split)
  next
    case (Some f)
    then have name: "cstr name \<in> set builtin_names" using builtin_known [of "chdir k" "cstr name"] by auto
    show ?thesis
    proof (cases "cstr name = ''exit''")
      case True
      then have "f = cmd_exit" using Some by (simp add: builtin_table_def)
      moreover have "exit_child sh 0 (put_out farewell sh) = Inr (Exits 0 farewell [])"
        using exit_child_run [of "put_out farewell sh" others] ok by (simp add: put_out_def)
      ultimately show ?thesis using Some a(1) True
        by (simp add: executeCommand_def executeBuiltin_run cmd_exit_def end_child_def ends_in_def a(2) farewell_def)
    next
      case False
      obtain r sh' where "f args sh = Inr (Some r, sh')"
        "seen others sh' (effect_of (chdir k) (cstr name) (argv_words args) v)"
        using effect_run [OF v Some False a(3) a(4) [THEN mp]] by blast
      then show ?thesis using Some a(1) False name shell exit_child_run [of sh' others]
        by (simp add: executeCommand_def executeBuiltin_run end_child_def ends_in_def a(2) seen_def Let_def)
    qed
  qed
qed

lemma ends_as_in:
  assumes v: "seen others (w_shell w) v" "length (v_defs v) < 536870914" "length (v_cwd v) < BUFSIZE" and c: "complete c"
  shows "ends_as k w c (ends_in k v c)"
proof -
  have "run_in_child k c Inr u = Inr (ends_in k v c)" if u: "alike w u" for u
  proof -
    obtain others' where o: "shell_ok others' (w_shell u)" using u by (auto simp: alike_def)
    have "alias_lookup (sh_aliases (w_shell u)) = alias_lookup (sh_aliases (w_shell w))"
      using u by (simp add: alike_def same_shell_def)
    from describes_lookup [OF this, of "v_defs v"] have "seen others' (w_shell u) v"
      using v(1) u o by (simp add: seen_def alike_def same_shell_def shell_ok_def)
    from ends_in_run [OF this v(2,3) c] show ?thesis by (simp add: run_in_child_def)
  qed
  then show ?thesis by (simp add: ends_as_def)
qed

section \<open>Properties\<close>

text \<open>C19. The builtins implement their effects. In a shell that a view represents, every builtin but
  \<open>exit\<close> runs without a fault, and the shell is then represented by the view that \<open>effect_of\<close> gives:
  assignments are cut at the first \<open>=\<close>, \<open>cd\<close> without an argument goes to HOME, an error of \<open>cd\<close> or
  \<open>unalias\<close> is reported and changes nothing else, and no heap string is left behind. (\<open>export\<close>
  needs an argument; the listing of \<open>alias\<close> without one is not covered.)\<close>

theorem builtins_implement_effects:
  assumes "seen others sh v" "length (v_defs v) < 536870914" "length (v_cwd v) < BUFSIZE"
    and "cstr name \<in> set builtin_names" "cstr name \<noteq> ''exit''" "argv_ok args"
    and "cstr name = ''export'' \<or> cstr name = ''alias'' \<Longrightarrow> argv_words args \<noteq> []"
  shows "\<exists>sh'. executeBuiltinCommand dirs (Some (Some name # args)) sh = Inr (Some 0, sh') \<and>
    seen others sh' (effect_of dirs (cstr name) (argv_words args) v)"
proof -
  obtain f where f: "map_of (builtin_table dirs) (cstr name) = Some f"
    using builtin_known [of dirs "cstr name"] assms(4) by auto
  obtain r sh' where "f args sh = Inr (Some r, sh')" "seen others sh' (effect_of dirs (cstr name) (argv_words args) v)"
    using effect_run [OF assms(1-3) f assms(5-7)] by blast
  then show ?thesis using f by (simp add: executeBuiltin_run)
qed

text \<open>C20. How a child ends. A child that executes a command without pipes of a shell that a view represents
  does not fault, and it ends as \<open>ends_in\<close> says, whatever the program calls answer: \<open>exit\<close> says
  goodbye and ends with 0, every other builtin ends with 0 and has written just what its effect
  writes, a program replaces the child with the words of the command, and a command that cannot be
  run ends with -1, after \<open>command not found\<close> or the message of \<open>execvp\<close>. The exit handler
  that every child but a replaced one runs does not fault either.\<close>

theorem child_ends:
  assumes "seen others (w_shell w) v" "length (v_defs v) < 536870914" "length (v_cwd v) < BUFSIZE" "complete c"
  shows "run_in_child k c Inr w = Inr (ends_in k v c)"
  using ends_in_run [OF assms, of k] by (simp add: run_in_child_def)

section \<open>Witnesses\<close>

lemma home_seen:
  "seen {#} home_shell \<lparr>v_session = \<lparr>programs = [], past_lines = [], error_output = [], open_fds = 3\<rparr>, v_defs = [],
     v_env = sh_env home_shell, v_cwd = ''/'', v_out = [], v_std = (None, None), v_channels = [], v_pipes = 0\<rparr>"
proof -
  have "False \<notin> set (al_oom no_aliases)" by (simp add: no_aliases_def)
  then obtain st1 where st1: "initializeAliases no_aliases = Inr st1" "alias_ok st1 (al_strings no_aliases)"
    "alias_lookup st1 = (\<lambda>_. None)" "alias_count st1 = 0" "False \<notin> set (al_oom st1)"
    by (rule session_start)
  then have "aliases_after [] = st1" by (simp add: aliases_after_def)
  with st1 show ?thesis
    by (simp add: seen_def home_shell_def no_aliases_def describes_def available_def unmarked_def)
qed

theorem builtins_implement_effects_witness:
  "\<exists>sh'. executeBuiltinCommand any_chdir (Some [Some ''echo'', Some ''a'', Some ''b'', None]) home_shell = Inr (Some 0, sh') \<and>
    sh_out sh' = ''a b'' @ newline"
proof -
  have "cstr ''echo'' \<in> set builtin_names" "cstr ''echo'' \<noteq> ''exit''" by (simp_all add: builtin_names_def)
  from builtins_implement_effects [where name = "''echo''" and args = "[Some ''a'', Some ''b'', None]",
      OF home_seen _ _ this] show ?thesis
    by (force simp: argv_ok_def seen_def effect_of_def say_def BUFSIZE_def cstr_Cons NUL_def)
qed

text \<open>\<open>cd\<close> to a directory that does not exist, in a child.\<close>

theorem child_ends_witness:
  "run_in_child (small_kernel\<lparr>chdir := (\<lambda>_ _. Inl ''No such directory'')\<rparr>)
     (simple_command [''cd'', ''/no''] commandConnectionSequential) Inr (world_with home_shell []) =
   Inr (Exits 0 [] (''/no: No such directory'' @ newline))"
proof -
  let ?k = "small_kernel\<lparr>chdir := (\<lambda>_ _. Inl ''No such directory'')\<rparr>"
  let ?v = "\<lparr>v_session = \<lparr>programs = [], past_lines = [], error_output = [], open_fds = 3\<rparr>, v_defs = [],
     v_env = sh_env home_shell, v_cwd = ''/'', v_out = [], v_std = (None, None), v_channels = [], v_pipes = 0\<rparr>"
  let ?c = "simple_command [''cd'', ''/no''] commandConnectionSequential"
  have "seen {#} (w_shell (world_with home_shell [])) ?v" using home_seen by (simp add: world_with_def)
  moreover have "complete ?c" by code_simp
  moreover have "ends_in ?k ?v ?c = Exits 0 [] (''/no: No such directory'' @ newline)" by code_simp
  ultimately show ?thesis
    using child_ends [of "{#}" "world_with home_shell []" ?v ?c ?k] by (simp add: BUFSIZE_def)
qed

end
