(* ===== verification/Piped_Files.thy ===== *)
theory Piped_Files
  imports Redirections
begin

text \<open>
  Pipelines whose commands redirect their input and output, and that may be builtins: what each
  child has at its descriptors, and how it ends. \<open>flowing\<close> is the invariant of the table of the shell:
  the ends of all pipes, the descriptors of the last redirections, and at 0 and 1 what the
  redirections so far have put there, because nothing is restored before the end of the line.
\<close>

section \<open>The table between two rounds\<close>

text \<open>The descriptors 0 and 1 after the redirections of a command.\<close>

definition after :: "command_t \<Rightarrow> fd_table \<Rightarrow> fd_table" where
  "after c t = fd_put (fd_put t 0 (the (stdin_of t c))) 1 (the (stdout_of t c))"

definition std_open :: "fd_table \<Rightarrow> bool" where
  "std_open t \<longleftrightarrow> fd_channel t 0 \<noteq> None \<and> fd_channel t 1 \<noteq> None"

lemma std_of_open:
  assumes "std_open t"
  shows "stdin_of t c \<noteq> None" "stdout_of t c \<noteq> None"
  using assms by (simp_all add: std_open_def stdin_of_def stdout_of_def split: option.split)

lemma fd_channel_after:
  assumes "std_open t"
  shows "fd_channel (after c t) x = (if x = 0 then stdin_of t c else if x = 1 then stdout_of t c else fd_channel t x)"
  using std_of_open [OF assms, of c] by (auto simp: after_def fd_channel_put_eq)

lemma after_open:
  assumes "std_open t"
  shows "std_open (after c t)" "open_count (after c t) = open_count t"
proof -
  show "std_open (after c t)" using std_of_open [OF assms, of c] by (simp add: std_open_def fd_channel_after [OF assms])
  have "fd_channel (after c t) x \<noteq> None \<longleftrightarrow> fd_channel t x \<noteq> None" for x
    using std_of_open [OF assms, of c] assms unfolding fd_channel_after [OF assms] by (simp add: std_open_def)
  then show "open_count (after c t) = open_count t" by (simp add: open_count_card)
qed

text \<open>The table of the shell while a pipeline is started: the \<open>m\<close> pipes from number \<open>b\<close> on, and besides
  them what \<open>base\<close> has and the two descriptors of the last command's files.\<close>

definition flowing :: "fd_table \<Rightarrow> int \<Rightarrow> int \<Rightarrow> nat \<Rightarrow> nat \<Rightarrow> int list \<Rightarrow> fd_table \<Rightarrow> bool" where
  "flowing base fi fo b m P t \<longleftrightarrow>
     length P = 2 * m \<and>
     (\<forall>x < m. fd_channel t (P ! (2 * x)) = Some (pipe_in (b + x)) \<and>
       fd_channel t (P ! (2 * x + 1)) = Some (pipe_out (b + x))) \<and>
     near base fi fo (closepipes P t)"

lemma flowing_none: "flowing base fi fo b 0 [] t \<longleftrightarrow> near base fi fo t"
  by (simp add: flowing_def closepipes_def)

lemma flowing_at:
  assumes "flowing base fi fo b m P t" "fd \<in> set P"
  shows "fd_channel t fd \<noteq> None" "fd \<noteq> fi" "fd \<noteq> fo" "fd_channel base fd = None"
proof -
  obtain x where x: "x < 2 * m" "fd = P ! x" using assms by (auto simp: flowing_def in_set_conv_nth)
  obtain y where y: "x = 2 * y \<or> x = 2 * y + 1" by (metis oddE evenE)
  then have "y < m" using x(1) by auto
  then show some: "fd_channel t fd \<noteq> None" using assms(1) x(2) y by (auto simp: flowing_def)
  have gone: "fd_channel (closepipes P t) fd = None" using assms(2) by (simp add: fd_channel_closepipes)
  have n: "near base fi fo (closepipes P t)" using assms(1) by (simp add: flowing_def)
  show "fd \<noteq> fi" "fd \<noteq> fo" using n gone some by (auto simp: near_def)
  then show "fd_channel base fd = None" using n gone by (simp add: near_def)
qed

lemma flowing_not_at:
  assumes "flowing base fi fo b m P t" "fd \<notin> set P" "fd \<noteq> fi" "fd \<noteq> fo"
  shows "fd_channel t fd = fd_channel base fd"
proof -
  have "fd_channel (closepipes P t) fd = fd_channel base fd" using assms by (simp add: flowing_def near_def)
  then show ?thesis using assms(2) by (simp add: fd_channel_closepipes)
qed

lemma flowing_std: "flowing base fi fo b m P t \<Longrightarrow> std_open base \<Longrightarrow> 0 \<notin> set P \<and> 1 \<notin> set P"
  using flowing_at(4) by (auto simp: std_open_def)

lemma flowing_made:
  assumes "flowing base fi fo b m P t"
  shows "pipes_made (closepipes P t) b m 0 P t"
proof -
  have len: "length P = 2 * m" using assms by (simp add: flowing_def)
  have "fd_channel (closepipes P t) (P ! x) = None" if "x < 2 * m" for x
    using that len by (simp add: fd_channel_closepipes)
  moreover have "fd_channel t fd = fd_channel (closepipes P t) fd \<or> (\<exists>x < 2 * m. fd = P ! x)" for fd
    using len by (auto simp: fd_channel_closepipes in_set_conv_nth)
  ultimately show ?thesis using assms by (simp add: pipes_made_def flowing_def)
qed

text \<open>The pipes are made.\<close>

lemma flowing_pipes:
  assumes "near base fi fo u" "pipes_made u b m 0 P t" "length P = 2 * m"
  shows "flowing base fi fo b m P t" "\<forall>fd. fd_channel (closepipes P t) fd = fd_channel u fd"
proof -
  have same: "fd_channel (closepipes P t) fd = fd_channel u fd" for fd
    using pipes_made_ends [OF assms(2,3), of fd] by (simp add: fd_channel_closepipes)
  then show "\<forall>fd. fd_channel (closepipes P t) fd = fd_channel u fd" by blast
  show "flowing base fi fo b m P t"
    using assms same by (simp add: flowing_def pipes_made_def near_def)
qed

text \<open>The files of the command before are closed.\<close>

lemma flowing_closed:
  assumes "flowing base fi fo b m P t"
  shows "flowing base (- 1) (- 1) b m P (fd_close fo (fd_close fi t))"
proof -
  have fresh: "fi \<notin> set P" "fo \<notin> set P" using flowing_at(2,3) [OF assms] by blast+
  have len: "length P = 2 * m" using assms by (simp add: flowing_def)
  have keep: "fd_channel (fd_close fo (fd_close fi t)) fd = fd_channel t fd" if "fd \<in> set P" for fd
    using that fresh by (auto simp: fd_channel_close)
  have "fd_channel (fd_close fo (fd_close fi t)) (P ! x) = fd_channel t (P ! x)" if "x < 2 * m" for x
    using that len by (intro keep) simp
  then have ends: "\<forall>x < m. fd_channel (fd_close fo (fd_close fi t)) (P ! (2 * x)) = Some (pipe_in (b + x)) \<and>
       fd_channel (fd_close fo (fd_close fi t)) (P ! (2 * x + 1)) = Some (pipe_out (b + x))"
    using assms by (simp add: flowing_def)
  have near: "near base fi fo (closepipes P t)" using assms by (simp add: flowing_def)
  have "fd_channel (closepipes P (fd_close fo (fd_close fi t))) fd = fd_channel base fd" for fd
    using near_closed [OF near, of fd] by (auto simp: fd_channel_closepipes fd_channel_close split: if_splits)
  then show ?thesis using ends len by (simp add: flowing_def near_def)
qed

lemma flowing_count:
  assumes "flowing base (- 1) (- 1) b m P t"
  shows "open_count t \<le> open_count base + 2 * m"
proof -
  have "{fd. fd_channel t fd \<noteq> None} \<subseteq> {fd. fd_channel base fd \<noteq> None} \<union> set P"
    using flowing_not_at [OF assms] by (auto simp: set_eq_iff) (metis fd_channel_neg)
  then have "open_count t \<le> card ({fd. fd_channel base fd \<noteq> None} \<union> set P)"
    unfolding open_count_card by (intro card_mono finite_UnI finite_open) simp
  also have "\<dots> \<le> open_count base + card (set P)" unfolding open_count_card by (rule card_Un_le)
  also have "card (set P) \<le> 2 * m" using card_length [of P] assms by (simp add: flowing_def)
  finally show ?thesis by simp
qed

text \<open>The redirections of the next command.\<close>

lemma flowing_redirected:
  assumes t: "flowing base (- 1) (- 1) b m P t" and base: "std_open base"
    and i: "opened Read_File (redirectFromPath c) t fi t1" and out: "opened Write_File (redirectToPath c) t1 fo t2"
    and t6: "t6 = w_fds (onto_std fi fo (w\<lparr>w_fds := t2\<rparr>))"
  shows "flowing (after c base) fi fo b m P t6"
    and "x \<noteq> 0 \<Longrightarrow> x \<noteq> 1 \<Longrightarrow> fd_channel (closepipes P t6) x \<in>
      {fd_channel base x, map_option Read_File (redirectFromPath c), map_option Write_File (redirectToPath c)}"
proof -
  have std: "0 \<notin> set P" "1 \<notin> set P" using flowing_std [OF t base] by blast+
  have near_base: "fd_channel base (- 1) = None" by simp
  have old: "fd_channel t x = fd_channel base x" if "x \<notin> set P" for x
    using flowing_not_at [OF t that] near_base by (cases "x = - 1") simp_all
  have open01: "fd_channel t 0 \<noteq> None" "fd_channel t 1 \<noteq> None" using old std base by (simp_all add: std_open_def)
  have fi: "fi \<noteq> 0" "fi \<noteq> 1" "fi = - 1 \<longleftrightarrow> redirectFromPath c = None" "fd_channel t fi = None"
    "\<And>x. fd_channel t1 x = (if x = fi \<and> x \<noteq> - 1 then map_option Read_File (redirectFromPath c) else fd_channel t x)"
    using open01 i by (auto simp: opened_def)
  have fo: "fo = - 1 \<longleftrightarrow> redirectToPath c = None" "fd_channel t1 fo = None"
    "\<And>x. fd_channel t2 x = (if x = fo \<and> x \<noteq> - 1 then map_option Write_File (redirectToPath c) else fd_channel t1 x)"
    using out by (auto simp: opened_def)
  have fo2: "fo \<noteq> 0" "fo \<noteq> 1" "fi \<noteq> - 1 \<longrightarrow> fi \<noteq> fo" "fd_channel t fo = None"
    using fo(2) fi open01 by (auto split: if_splits)
  have t6: "fd_channel t6 x =
      (if x = 1 \<and> fo \<noteq> - 1 then map_option Write_File (redirectToPath c)
       else if x = 0 \<and> fi \<noteq> - 1 then map_option Read_File (redirectFromPath c) else fd_channel t2 x)" for x
    using fi fo fo2 unfolding t6
    by (auto simp: onto_std_def dup_onto_def Let_def fd_channel_dup2 split: option.splits)
  have fresh: "fi \<notin> set P" "fo \<notin> set P" using flowing_at(1) [OF t] fi(4) fo2(4) by metis+
  have P: "fd_channel t6 x = fd_channel t x" if "x \<in> set P" for x
    using that fresh std t6 [of x] fo(3) fi(5) by auto
  have len: "length P = 2 * m" using t by (simp add: flowing_def)
  have "fd_channel t6 (P ! x) = fd_channel t (P ! x)" if "x < 2 * m" for x
    using that len by (intro P) simp
  then have ends: "\<forall>x < m. fd_channel t6 (P ! (2 * x)) = Some (pipe_in (b + x)) \<and>
       fd_channel t6 (P ! (2 * x + 1)) = Some (pipe_out (b + x))"
    using t by (simp add: flowing_def)
  have in01: "stdin_of base c = (if fi \<noteq> - 1 then map_option Read_File (redirectFromPath c) else fd_channel base 0)"
    "stdout_of base c = (if fo \<noteq> - 1 then map_option Write_File (redirectToPath c) else fd_channel base 1)"
    using fi(3) fo(1) by (auto simp: stdin_of_def stdout_of_def split: option.split)
  have none: "fd_channel base fi = None" "fd_channel base fo = None" using old fresh fi(4) fo2(4) by metis+
  have u: "fd_channel (closepipes P t6) x =
      (if x \<in> set P then None else if x = fi \<and> x \<noteq> - 1 then map_option Read_File (redirectFromPath c)
       else if x = fo \<and> x \<noteq> - 1 then map_option Write_File (redirectToPath c) else fd_channel (after c base) x)" for x
    using fi fo2 old [of x] by (auto simp: fd_channel_closepipes t6 fo(3) fi(5) fd_channel_after [OF base] in01)
  have gone: "fd_channel (after c base) x = None" if "x \<in> set P" for x
    using that flowing_at(4) [OF t that] std by (auto simp: fd_channel_after [OF base])
  have "fd_channel (closepipes P t6) x = fd_channel (after c base) x" if "x \<noteq> fi" "x \<noteq> fo" for x
    using that gone [of x] by (simp add: u)
  moreover have "fd_channel (after c base) fi = None" "fd_channel (after c base) fo = None"
    using none fi(1,2) fo2(1,2) by (simp_all add: fd_channel_after [OF base])
  moreover have "fd_channel (closepipes P t6) fi \<noteq> None" if "fi \<noteq> - 1" using that fi(3) fresh by (simp add: u)
  moreover have "fd_channel (closepipes P t6) fo \<noteq> None" if "fo \<noteq> - 1" using that fo(1) fo2(3) fresh by (auto simp: u)
  ultimately have "near (after c base) fi fo (closepipes P t6)" using fo2(3) by (simp add: near_def)
  then show "flowing (after c base) fi fo b m P t6" using ends len by (simp add: flowing_def)
  show "fd_channel (closepipes P t6) x \<in>
      {fd_channel base x, map_option Read_File (redirectFromPath c), map_option Write_File (redirectToPath c)}"
    if "x \<noteq> 0" "x \<noteq> 1"
    using that flowing_at(4) [OF t, of x] by (auto simp: u fd_channel_after [OF base])
qed

section \<open>A child of a pipeline\<close>

text \<open>A piped child ends as it would outside a pipeline: that it frees its copies changes nothing.\<close>

lemma free_copies_shows:
  "free_copies p q w sh = Inr sh' \<Longrightarrow> sh_out sh' = sh_out sh \<and> sh_err sh' = sh_err sh"
  by (auto simp: free_copies_def elim!: rbind_InrE)

lemma exit_child_shows:
  assumes "exit_child parent s sh = Inr e" "alias_ok (sh_aliases sh') others" "sh_out sh' = sh_out sh" "sh_err sh' = sh_err sh"
  shows "exit_child parent s sh' = Inr e"
proof -
  obtain al where "destroyAliases (sh_aliases sh') = Inr al" using destroyAliases_run [OF assms(2)] by blast
  then show ?thesis using assms(1,3,4) by (auto simp: exit_child_def exit_handler_def elim!: rbind_InrE)
qed

lemma copied_child:
  assumes s: "sane room S w (lasts @ p # ps)" "room < 536870914" "queue_sane q w ps" and c: "runnable c"
    and e: "run_in_child k c Inr w = Inr e"
  shows "run_in_child k c (free_copies (Some p) q w) w = Inr e"
proof -
  obtain r sh where r: "executeCommand k c (w_shell w) = Inr (r, sh)"
    "kept (strings_of (w_commands w) (lasts @ p # ps) + S) (w_shell w) sh"
    using executeCommand_safe [OF c] sane_shell_ok [OF s(1,2)] by blast
  then have "alias_ok (sh_aliases sh) (strings_of (w_commands w) (lasts @ p # ps) + S)" by (simp add: kept_def)
  then obtain sh' others where sh': "free_copies (Some p) q w sh = Inr sh'" "alias_ok (sh_aliases sh') others"
    using free_copies_safe [OF s(1,3)] by blast
  show ?thesis
  proof (cases r)
    case (Status st)
    then have "exit_child (w_shell w) st sh = Inr e" using e r(1) by (simp add: run_in_child_def end_child_def)
    then have "exit_child (w_shell w) st sh' = Inr e" using exit_child_shows sh'(2) free_copies_shows [OF sh'(1)] by blast
    then show ?thesis using Status r(1) sh'(1) by (simp add: run_in_child_def end_child_def)
  qed (use e r(1) in \<open>simp_all add: run_in_child_def end_child_def\<close>)
qed

lemma launch_piped:
  assumes m: "m = Some commandConnectionPipe \<or> connectionMask c = commandConnectionPipe"
    and pipes: "(if m \<noteq> Some commandConnectionPipe then make_pipes k (n - 1) 0 (l_pipes l) w else (l_pipes l, w)) =
      (P, w\<lparr>w_fds := t, w_pipes := np\<rparr>)"
    and e: "\<And>v. v = w\<lparr>w_fds := t, w_pipes := np\<rparr> \<Longrightarrow> run_in_child k c (free_copies (Some p) (l_queue l) v) v = Inr e"
    and fork: "fst (alloc_ok (w_forks w))" and run: "launch k stack ic oc n i m p c l w = Inr f"
  obtains w' where "f = Continue (l\<lparr>l_pid := w_next_pid w, l_pipes := P, l_launched := (l_launched l)[i := w_next_pid w],
      l_last := Some p\<rparr>) w'"
    "w_fds w' = t" "w_pipes w' = np"
    "w_children w' = w_children w @ [\<lparr>child_pid = w_next_pid w,
      child_fds = wire_child stack P n (int i) (m \<noteq> Some commandConnectionPipe) (connectionMask c = commandConnectionPipe) t,
      child_end = Inr e\<rparr>]"
    "w_forks w' = snd (alloc_ok (w_forks w))" "frame w w'" "w_nodes w' = w_nodes w"
proof -
  let ?v = "w\<lparr>w_fds := t, w_pipes := np\<rparr>"
  let ?ch = "wire_child stack P n (int i) (m \<noteq> Some commandConnectionPipe) (connectionMask c = commandConnectionPipe) t"
  let ?w2 = "(spawn ?ch (Inr e) ?v)\<lparr>w_fg_pid := w_next_pid w\<rparr>"
  let ?l = "l\<lparr>l_pid := w_next_pid w, l_pipes := P, l_launched := (l_launched l)[i := w_next_pid w]\<rparr>"
  have "run_piped k stack n i m (Some p) c l w = Continue ?l ?w2"
    unfolding run_piped_def Let_def pipes using fork fork_child_run [of ?v] e [OF refl] by simp
  with run m obtain w' where w': "f = Continue (?l\<lparr>l_last := Some p\<rparr>) w'"
    "(if l_last l \<noteq> None then free_command (l_last l) ?w2 else Inr ?w2) = Inr w'"
    by (cases "l_last l") (auto simp: launch_def elim!: rbind_InrE)
  have "w_fds w' = w_fds ?w2 \<and> w_children w' = w_children ?w2 \<and> w_forks w' = w_forks ?w2 \<and>
      w_nodes w' = w_nodes ?w2 \<and> w_pipes w' = w_pipes ?w2 \<and> frame ?w2 w'"
    using w'(2) free_command_fds [of "l_last l" ?w2 w'] free_command_frame [of "l_last l" ?w2 w']
      free_command_pipes [of "l_last l" ?w2 w']
    by (auto split: if_splits)
  moreover have "frame w ?w2"
  proof -
    have "frame w ?v" by (simp add: frame_def same_shell_def)
    also have "frame ?v ?w2" using frame_trans [OF frame_ops(7) frame_ops(9)] .
    finally show ?thesis .
  qed
  ultimately show thesis using that [of w'] w'(1) frame_trans by simp
qed

text \<open>The end and the descriptors of the \<open>i\<close>-th of \<open>n\<close> commands, whose shell had \<open>base\<close>.\<close>

definition flow_child :: "nat \<Rightarrow> nat \<Rightarrow> nat \<Rightarrow> fd_table \<Rightarrow> command_t \<Rightarrow> child_end \<Rightarrow> child \<Rightarrow> bool" where
  "flow_child b n i base c e ch \<longleftrightarrow>
     child_end ch = Inr e \<and>
     fd_channel (child_fds ch) 0 = (if 0 < i then Some (pipe_in (b + i - 1)) else stdin_of base c) \<and>
     fd_channel (child_fds ch) 1 = (if Suc i < n then Some (pipe_out (b + i)) else stdout_of base c) \<and>
     (\<forall>fd. fd \<noteq> 0 \<and> fd \<noteq> 1 \<longrightarrow> fd_channel (child_fds ch) fd \<in>
        {fd_channel base fd, map_option Read_File (redirectFromPath c), map_option Write_File (redirectToPath c)})"

lemma flowing_std_channels:
  assumes "flowing base fi fo b m P t" "std_open base"
  shows "fd_channel (closepipes P t) 0 = fd_channel base 0" "fd_channel (closepipes P t) 1 = fd_channel base 1"
proof -
  have n: "near base fi fo (closepipes P t)" using assms(1) by (simp add: flowing_def)
  have "fi \<noteq> 0" "fi \<noteq> 1" "fo \<noteq> 0" "fo \<noteq> 1" using n assms(2) by (auto simp: near_def std_open_def)
  then show "fd_channel (closepipes P t) 0 = fd_channel base 0" "fd_channel (closepipes P t) 1 = fd_channel base 1"
    using n by (simp_all add: near_def)
qed

lemma flow_child_wired:
  assumes flow: "flowing (after c base) fi fo b (n - 1) P t" and base: "std_open base"
    and n: "2 \<le> n" "i < n" and low: "stack (- 2) < 0"
    and rest: "\<forall>x. x \<noteq> 0 \<and> x \<noteq> 1 \<longrightarrow> fd_channel (closepipes P t) x \<in>
      {fd_channel base x, map_option Read_File (redirectFromPath c), map_option Write_File (redirectToPath c)}"
  shows "flow_child b n i base c e
    \<lparr>child_pid = pid, child_fds = wire_child stack P n (int i) (i = 0) (Suc i < n) t, child_end = Inr e\<rparr>"
proof -
  note std = flowing_std_channels [OF flow after_open(1) [OF base]]
  have open01: "fd_channel (closepipes P t) 0 \<noteq> None" "fd_channel (closepipes P t) 1 \<noteq> None"
    using std after_open(1) [OF base, of c] by (simp_all add: std_open_def)
  have len: "length P = 2 * (n - 1)" using flow by (simp add: flowing_def)
  have below: "fd_channel t (stack (- 2)) = None" using low by (simp add: fd_channel_def)
  have "fd_channel (wire_child stack P n (int i) (i = 0) (Suc i < n) t) fd = piped_channel b n i (closepipes P t) fd" for fd
    using wire_child_run [OF flowing_made [OF flow] len n refl refl open01] below by blast
  then show ?thesis using rest std by (simp add: flow_child_def piped_channel_def fd_channel_after [OF base])
qed

text \<open>The table after the redirections, and after the first command has made the pipes.\<close>

lemma pipes_stage:
  assumes flow: "flowing (after c base) fi fo b (if i = 0 then 0 else n - 1) (if i = 0 then [] else l_pipes l) t6"
    and base: "std_open base" "open_count base + 2 + 2 * (n - 1) \<le> fd_limit k"
    and len: "i = 0 \<longrightarrow> length (l_pipes l) = 2 * (n - 1)" "i = 0 \<longrightarrow> w_pipes w = b" and w: "w_fds w = t6"
    and rest: "\<And>x. x \<noteq> 0 \<Longrightarrow> x \<noteq> 1 \<Longrightarrow> fd_channel (closepipes (if i = 0 then [] else l_pipes l) t6) x \<in> X x"
  obtains P t np where
    "(if i = 0 then make_pipes k (n - 1) 0 (l_pipes l) w else (l_pipes l, w)) = (P, w\<lparr>w_fds := t, w_pipes := np\<rparr>)"
    "flowing (after c base) fi fo b (n - 1) P t" "np = (if i = 0 then b + (n - 1) else w_pipes w)"
    "\<forall>x. x \<noteq> 0 \<and> x \<noteq> 1 \<longrightarrow> fd_channel (closepipes P t) x \<in> X x"
proof (cases "i = 0")
  case True
  then have near: "near (after c base) fi fo t6" using flow by (simp add: flowing_none)
  have "open_count t6 \<le> open_count base + 2"
    using near_count [OF near] after_open(2) [OF base(1), of c] by auto
  then have lim: "open_count t6 + 2 * (n - 1) \<le> fd_limit k" "0 + 2 * (n - 1) \<le> length (l_pipes l)"
    using base(2) len(1) True by simp_all
  obtain P t where P: "\<And>v. w_fds v = t6 \<Longrightarrow> w_pipes v = b \<Longrightarrow>
      make_pipes k (n - 1) 0 (l_pipes l) v = (P, v\<lparr>w_fds := t, w_pipes := b + (n - 1)\<rparr>)"
    "length P = 2 * (n - 1)" "pipes_made t6 b (n - 1) 0 P t"
    using make_pipes_run [OF lim, of b] len(1) True by auto
  note made = flowing_pipes [OF near P(3,2)]
  show thesis
    by (rule that [where P = P and t = t and np = "b + (n - 1)"])
      (use P(1) [OF w] len(2) made rest True in \<open>simp_all add: closepipes_def\<close>)
next
  case False
  show thesis by (rule that [where P = "l_pipes l" and t = t6 and np = "w_pipes w"]) (use False flow rest w in simp_all)
qed

section \<open>One round\<close>

definition flows :: "kernel \<Rightarrow> world \<Rightarrow> (command_t \<Rightarrow> child_end) \<Rightarrow> command_t \<Rightarrow> bool" where
  "flows k w ends c \<longleftrightarrow> files_open k c \<and> ends_as k w c (ends c)"

lemma flow_step:
  assumes s: "sane room S w (lasts @ p # ps)" "room < 536870914" and q: "queue_sane (l_queue l) w (p # ps)"
    and k: "short_dirs k" and l: "l_last l = last_ptr lasts" "length lasts \<le> 1"
    and mask: "last_mask lasts w = (if i = 0 then None else Some commandConnectionPipe)"
    and c: "object_at (w_commands w) p = c" "flows k w ends c" "connectionMask c = commandConnectionPipe \<longleftrightarrow> Suc i < n"
    and n: "2 \<le> n" "i < n" "stack (- 2) < 0"
    and flow: "flowing base (l_fd_in l) (l_fd_out l) b (if i = 0 then 0 else n - 1) (if i = 0 then [] else l_pipes l) (w_fds w)"
    and base: "std_open base" "open_count base + 2 + 2 * (n - 1) \<le> fd_limit k"
    and len: "i = 0 \<longrightarrow> length (l_pipes l) = 2 * (n - 1)" "i = 0 \<longrightarrow> w_pipes w = b"
    and fork: "fst (alloc_ok (w_forks w))" and as: "holds_nodes (l_queue l) (w_nodes w) (a # as)"
  shows "\<exists>l' w' ch. job_step k stack ic oc n i l w = Inr (Continue l' w') \<and>
    step_safe room S w lasts p ps (Continue l' w') \<and>
    flowing (after c base) (l_fd_in l') (l_fd_out l') b (n - 1) (l_pipes l') (w_fds w') \<and>
    (l_fd_in l' = - 1 \<longleftrightarrow> redirectFromPath c = None) \<and> (l_fd_out l' = - 1 \<longleftrightarrow> redirectToPath c = None) \<and>
    w_pipes w' = (if i = 0 then b + (n - 1) else w_pipes w) \<and>
    w_children w' = w_children w @ [ch] \<and> flow_child b n i base c (ends c) ch \<and>
    w_forks w' = snd (alloc_ok (w_forks w)) \<and> frame w w' \<and>
    w_nodes w' = (w_nodes w)[a := None] \<and> holds_nodes (l_queue l') (w_nodes w') as"
proof -
  obtain f where f: "job_step k stack ic oc n i l w = Inr f" "step_safe room S w lasts p ps f"
    using job_step_safe [OF s q k l(1,2)] by blast
  obtain q' ns m where sane': "queue_sane q' (w\<lparr>w_nodes := ns\<rparr>) ps" and q': "mask_of (l_last l) w = Inr m"
    and nodes: "\<forall>a as. holds_nodes (l_queue l) (w_nodes w) (a # as) \<longrightarrow> ns = (w_nodes w)[a := None] \<and> holds_nodes q' ns as"
    and start: "job_step k stack ic oc n i l w =
      (case redirect_in k (object_at (w_commands w) p) (closed_last l m (w\<lparr>w_nodes := ns\<rparr>)) of
         Inl w3 \<Rightarrow> Inr (Return (- 1) q' w3)
       | Inr (fd_in, w3) \<Rightarrow>
       case redirect_out k (object_at (w_commands w) p) fd_in w3 of
         Inl w4 \<Rightarrow> Inr (Return (- 1) q' w4)
       | Inr (fd_out, w4) \<Rightarrow>
           launch k stack ic oc n i m p (object_at (w_commands w) p) (l\<lparr>l_queue := q', l_fd_in := fd_in, l_fd_out := fd_out\<rparr>) (onto_std fd_in fd_out w4))"
    by (rule job_step_start [where k = k and stack = stack and ic = ic and oc = oc and n = n and i = i, OF s(1) q l(1)])
  note run = start [unfolded c(1)]
  have "mask_of (l_last l) w = Inr (last_mask lasts w)"
    using s(1) l(1) by (cases lasts) (auto simp: mask_of_def last_mask_def sane_def load_live)
  then have m: "m \<noteq> Some commandConnectionPipe \<longleftrightarrow> i = 0" using q' mask by simp
  let ?m = "if i = 0 then 0 else n - 1"
  let ?P = "if i = 0 then [] else l_pipes l"
  let ?w0 = "w\<lparr>w_nodes := ns\<rparr>"
  let ?w2 = "closed_last l m ?w0"
  have w2: "w_fds ?w2 = fd_close (l_fd_out l) (fd_close (l_fd_in l) (w_fds w))" "w_children ?w2 = w_children w"
    "w_forks ?w2 = w_forks w" "w_nodes ?w2 = ns" "w_pipes ?w2 = w_pipes w"
    by (simp_all add: close_fd_def fd_close_def)
  have closed: "flowing base (- 1) (- 1) b ?m ?P (w_fds ?w2)" using flowing_closed [OF flow] unfolding w2(1) .
  have count: "open_count (w_fds ?w2) + 2 \<le> fd_limit k" using flowing_count [OF closed] base(2) by (auto split: if_splits)
  then have "open_count (w_fds ?w2) < fd_limit k" by simp
  moreover have files: "files_open k c" using c(2) by (simp add: flows_def)
  ultimately obtain fi t1 where fi: "redirect_in k c ?w2 = Inr (fi, ?w2\<lparr>w_fds := t1\<rparr>)"
    "opened Read_File (redirectFromPath c) (w_fds ?w2) fi t1"
    using redirect_in_opens by blast
  have "open_count (w_fds (?w2\<lparr>w_fds := t1\<rparr>)) < fd_limit k" using fi(2) count by (simp add: opened_def)
  with files(1) obtain fo t2 where fo: "redirect_out k c fi (?w2\<lparr>w_fds := t1\<rparr>) = Inr (fo, ?w2\<lparr>w_fds := t1, w_fds := t2\<rparr>)"
    "opened Write_File (redirectToPath c) (w_fds (?w2\<lparr>w_fds := t1\<rparr>)) fo t2"
    by (rule redirect_out_opens)
  let ?w4 = "?w2\<lparr>w_fds := t2\<rparr>"
  let ?w6 = "onto_std fi fo ?w4"
  let ?l1 = "l\<lparr>l_queue := q', l_fd_in := fi, l_fd_out := fo\<rparr>"
  have w6: "w_children ?w6 = w_children w" "w_forks ?w6 = w_forks w" "w_nodes ?w6 = ns" "w_pipes ?w6 = w_pipes w"
    using w2 by (subst onto_std_world; simp)+
  have t2: "opened Write_File (redirectToPath c) t1 fo t2" using fo(2) by simp
  have same: "?w4\<lparr>w_fds := t2\<rparr> = ?w4" by simp
  note red = flowing_redirected [where w = ?w4, OF closed base(1) fi(2) t2 refl, unfolded same]
  have lp: "l_pipes ?l1 = l_pipes l" by simp
  have len1: "i = 0 \<longrightarrow> length (l_pipes ?l1) = 2 * (n - 1)" "i = 0 \<longrightarrow> w_pipes ?w6 = b" using len w6(4) by simp_all
  have flow6: "flowing (after c base) fi fo b ?m (if i = 0 then [] else l_pipes ?l1) (w_fds ?w6)"
    "\<And>x. x \<noteq> 0 \<Longrightarrow> x \<noteq> 1 \<Longrightarrow> fd_channel (closepipes (if i = 0 then [] else l_pipes ?l1) (w_fds ?w6)) x \<in>
      {fd_channel base x, map_option Read_File (redirectFromPath c), map_option Write_File (redirectToPath c)}"
    unfolding lp by (rule red(1)) (rule red(2); assumption)
  obtain P t np where made:
    "(if i = 0 then make_pipes k (n - 1) 0 (l_pipes ?l1) ?w6 else (l_pipes ?l1, ?w6)) = (P, ?w6\<lparr>w_fds := t, w_pipes := np\<rparr>)"
    "flowing (after c base) fi fo b (n - 1) P t" "np = (if i = 0 then b + (n - 1) else w_pipes ?w6)"
    "\<forall>x. x \<noteq> 0 \<and> x \<noteq> 1 \<longrightarrow> fd_channel (closepipes P t) x \<in>
      {fd_channel base x, map_option Read_File (redirectFromPath c), map_option Write_File (redirectToPath c)}"
    by (rule pipes_stage [OF flow6(1) base len1 refl flow6(2)])
  have go: "launch k stack ic oc n i m p c ?l1 ?w6 = Inr f"
    using f(1) fi(1) fo(1) unfolding run by simp
  let ?v = "?w6\<lparr>w_fds := t, w_pipes := np\<rparr>"
  have frame6: "frame w ?w6"
  proof -
    have "frame w ?w2" using frame_trans [OF frame_ops(3) frame_closed_last] .
    moreover have "frame ?w2 ?w6" using frame_trans [OF frame_ops(2) frame_onto_std] .
    ultimately show ?thesis by (rule frame_trans)
  qed
  have "frame ?w6 ?v" by (simp add: frame_def same_shell_def)
  with frame6 have framev: "frame w ?v" by (rule frame_trans)
  have "core ?w0 ?w6"
    using core_trans [OF core_closed_last core_trans [OF core_ops(6) core_onto_std]] .
  moreover have "core ?w6 ?v" by (simp add: core_def)
  ultimately have corev: "core ?w0 ?v" by (rule core_trans)
  have sv: "sane room S ?v (lasts @ p # ps)" "queue_sane q' ?v ps"
    using sane_core [OF corev] queue_sane_core [OF corev] s(1) sane' by simp_all
  have "ends_as k w c (ends c)" using c(2) by (simp add: flows_def)
  from ends_as_run [OF this framev sv(1) s(2)] have ev: "run_in_child k c Inr ?v = Inr (ends c)" .
  have "runnable c" using s(1) c(1) by (simp add: sane_def)
  from copied_child [OF sv(1) s(2) sv(2) this ev]
  have e: "run_in_child k c (free_copies (Some p) (l_queue ?l1) v) v = Inr (ends c)" if "v = ?v" for v
    using that by simp
  have piped: "m = Some commandConnectionPipe \<or> connectionMask c = commandConnectionPipe"
    using m c(3) n by auto
  have stage: "(if m \<noteq> Some commandConnectionPipe then make_pipes k (n - 1) 0 (l_pipes ?l1) ?w6 else (l_pipes ?l1, ?w6)) = (P, ?v)"
    using made(1) m by simp
  have fork6: "fst (alloc_ok (w_forks ?w6))" using fork w6(2) by simp
  obtain w' where w': "f = Continue (?l1\<lparr>l_pid := w_next_pid ?w6, l_pipes := P, l_launched := (l_launched ?l1)[i := w_next_pid ?w6],
      l_last := Some p\<rparr>) w'"
    "w_fds w' = t" "w_pipes w' = np"
    "w_children w' = w_children ?w6 @ [\<lparr>child_pid = w_next_pid ?w6,
      child_fds = wire_child stack P n (int i) (m \<noteq> Some commandConnectionPipe) (connectionMask c = commandConnectionPipe) t,
      child_end = Inr (ends c)\<rparr>]"
    "w_forks w' = snd (alloc_ok (w_forks ?w6))" "frame ?w6 w'" "w_nodes w' = w_nodes ?w6"
    by (rule launch_piped [OF piped stage e fork6 go])
  let ?ch = "\<lparr>child_pid = w_next_pid ?w6,
      child_fds = wire_child stack P n (int i) (m \<noteq> Some commandConnectionPipe) (connectionMask c = commandConnectionPipe) t,
      child_end = Inr (ends c)\<rparr>"
  let ?l = "?l1\<lparr>l_pid := w_next_pid ?w6, l_pipes := P, l_launched := (l_launched ?l1)[i := w_next_pid ?w6], l_last := Some p\<rparr>"
  have child: "flow_child b n i base c (ends c) ?ch"
    unfolding m c(3) by (rule flow_child_wired [OF made(2) base(1) n(1,2) _ made(4)]) (rule n(3))
  have nodes': "w_nodes w' = (w_nodes w)[a := None]" "holds_nodes q' (w_nodes w') as"
    using nodes as w'(7) w6(3) by auto
  have res: "job_step k stack ic oc n i l w = Inr (Continue ?l w')" "step_safe room S w lasts p ps (Continue ?l w')"
    "w_children w' = w_children w @ [?ch]" "w_forks w' = snd (alloc_ok (w_forks w))"
    "flowing (after c base) fi fo b (n - 1) P (w_fds w')" "w_pipes w' = (if i = 0 then b + (n - 1) else w_pipes w)"
    using f w'(1-5) w6(1,2,4) made(2,3) by simp_all
  have sel: "l_fd_in ?l = fi" "l_fd_out ?l = fo" "l_pipes ?l = P" "l_queue ?l = q'" by simp_all
  have ends: "fi = - 1 \<longleftrightarrow> redirectFromPath c = None" "fo = - 1 \<longleftrightarrow> redirectToPath c = None"
    using fi(2) t2 by (simp_all add: opened_def)
  show ?thesis
    by (intro exI [of _ ?l] exI [of _ w'] exI [of _ ?ch] conjI; (unfold sel)?)
      (rule res ends child nodes' frame_trans [OF frame6 w'(6)])+
qed

section \<open>The whole pipeline\<close>

lemma flows_frame: "flows k w ends c \<Longrightarrow> frame w w1 \<Longrightarrow> flows k w1 ends c"
  using ends_as_frame by (auto simp: flows_def)

fun children_flow :: "nat \<Rightarrow> nat \<Rightarrow> (command_t \<Rightarrow> child_end) \<Rightarrow> nat \<Rightarrow> fd_table \<Rightarrow> command_t list \<Rightarrow> child list \<Rightarrow> bool" where
  "children_flow b n ends i base [] chs \<longleftrightarrow> chs = []"
| "children_flow b n ends i base (c # cl) chs \<longleftrightarrow>
     (case chs of
        [] \<Rightarrow> False
      | ch # chs' \<Rightarrow> flow_child b n i base c (ends c) ch \<and> children_flow b n ends (Suc i) (after c base) cl chs')"

text \<open>All commands but the last write to the next one.\<close>

definition chain :: "command_t list \<Rightarrow> bool" where
  "chain cl \<longleftrightarrow>
     list_all (\<lambda>c. connectionMask c = commandConnectionPipe) (butlast cl) \<and>
     connectionMask (last cl) \<noteq> commandConnectionPipe"

lemma chain_Cons:
  "chain (c # cl) \<Longrightarrow> connectionMask c = commandConnectionPipe \<longleftrightarrow> cl \<noteq> []"
  "chain (c # cl) \<Longrightarrow> cl \<noteq> [] \<Longrightarrow> chain cl"
  by (cases cl; simp add: chain_def)+

lemma flow_loop:
  assumes "sane room S w (lasts @ ps)" "room < 536870914" "queue_sane (l_queue l) w ps" "short_dirs k"
    and "l_last l = last_ptr lasts" "length lasts \<le> 1"
    and "last_mask lasts w = (if i = 0 then None else Some commandConnectionPipe)"
    and "cl = map (object_at (w_commands w)) ps" "list_all (flows k w ends) cl" "ps \<noteq> []" "chain cl"
    and "2 \<le> n" "i + length ps = n" "stack (- 2) < 0"
    and "flowing base (l_fd_in l) (l_fd_out l) b (if i = 0 then 0 else n - 1) (if i = 0 then [] else l_pipes l) (w_fds w)"
    and "std_open base" "open_count base + 2 + 2 * (n - 1) \<le> fd_limit k"
    and "i = 0 \<longrightarrow> length (l_pipes l) = 2 * (n - 1)" "i = 0 \<longrightarrow> w_pipes w = b"
    and "False \<notin> set (w_forks w)" "holds_nodes (l_queue l) (w_nodes w) as" "length as = length ps"
  shows "\<exists>l' w' chs p. job_loop k stack ic oc n (length ps) i l w = Inr (Continue l' w') \<and>
    l_last l' = Some p \<and> sane room S w' [p] \<and> queue_sane (l_queue l') w' [] \<and>
    flowing (fold after cl base) (l_fd_in l') (l_fd_out l') b (n - 1) (l_pipes l') (w_fds w') \<and>
    (l_fd_in l' = - 1 \<longleftrightarrow> redirectFromPath (last cl) = None) \<and> (l_fd_out l' = - 1 \<longleftrightarrow> redirectToPath (last cl) = None) \<and>
    w_pipes w' = (if i = 0 then b + (n - 1) else w_pipes w) \<and>
    w_children w' = w_children w @ chs \<and> children_flow b n ends i base cl chs \<and>
    frame w w' \<and> w_nodes w' = release_nodes as (w_nodes w) \<and>
    release_nodes [p] (w_commands w') = release_nodes (lasts @ ps) (w_commands w)"
  using assms
proof (induction ps arbitrary: lasts base cl i l w as)
  case Nil
  then show ?case by simp
next
  case (Cons p ps)
  let ?c = "object_at (w_commands w) p"
  have c: "flows k w ends ?c" using Cons.prems(8,9) by simp
  have cl0: "cl = ?c # map (object_at (w_commands w)) ps" using Cons.prems(8) by simp
  have last: "connectionMask ?c = commandConnectionPipe \<longleftrightarrow> Suc i < n"
    using chain_Cons(1) [of ?c "map (object_at (w_commands w)) ps"] Cons.prems(11,13) unfolding cl0 by (cases ps) auto
  have i: "i < n" using Cons.prems(13) by simp
  obtain a as' where as: "as = a # as'" using Cons.prems(22) by (cases as) auto
  have fork: "fst (alloc_ok (w_forks w))" "False \<notin> set (snd (alloc_ok (w_forks w)))"
    using Cons.prems(20) alloc_ok_False alloc_ok_subset by blast+
  obtain l1 w1 ch where r: "job_step k stack ic oc n i l w = Inr (Continue l1 w1)"
    "step_safe room S w lasts p ps (Continue l1 w1)"
    "flowing (after ?c base) (l_fd_in l1) (l_fd_out l1) b (n - 1) (l_pipes l1) (w_fds w1)"
    "l_fd_in l1 = - 1 \<longleftrightarrow> redirectFromPath ?c = None" "l_fd_out l1 = - 1 \<longleftrightarrow> redirectToPath ?c = None"
    "w_pipes w1 = (if i = 0 then b + (n - 1) else w_pipes w)"
    "w_children w1 = w_children w @ [ch]" "flow_child b n i base ?c (ends ?c) ch"
    "w_forks w1 = snd (alloc_ok (w_forks w))" "frame w w1" "w_nodes w1 = (w_nodes w)[a := None]"
    "holds_nodes (l_queue l1) (w_nodes w1) as'"
    using flow_step [where stack = stack and ic = ic and oc = oc,
        OF Cons.prems(1-7) refl c last Cons.prems(12) i Cons.prems(14-19) fork(1) Cons.prems(21) [unfolded as]]
    by (elim exE conjE) (rule that)
  have s: "l_last l1 = last_ptr [p]" "sane room S w1 ([p] @ ps)" "queue_sane (l_queue l1) w1 ps"
    "w_commands w1 = release_nodes lasts (w_commands w)"
    using r(2) by (simp_all add: step_safe_def)
  have fresh: "\<forall>b \<in> set (p # ps). b \<notin> set lasts" using Cons.prems(1) by (auto simp: sane_def)
  then have obj: "object_at (w_commands w1) b = object_at (w_commands w) b" if "b \<in> set (p # ps)" for b
    unfolding s(4) using that release_nodes_object by blast
  let ?cl = "map (object_at (w_commands w1)) ps"
  have tail: "?cl = map (object_at (w_commands w)) ps" using obj by simp
  have cl: "cl = ?c # ?cl" using cl0 tail by simp
  note open1 = after_open [OF Cons.prems(16), of ?c]
  show ?case
  proof (cases "ps = []")
    case True
    then show ?thesis using r s cl as Cons.prems(22)
      by (intro exI [of _ l1] exI [of _ w1] exI [of _ "[ch]"] exI [of _ p]) (simp add: release_nodes_append)
  next
    case False
    have "connectionMask ?c = commandConnectionPipe" using last False Cons.prems(13) by (cases ps) auto
    then have mask: "last_mask [p] w1 = (if Suc i = 0 then None else Some commandConnectionPipe)"
      using obj [of p] by (simp add: last_mask_def)
    have all: "list_all (flows k w1 ends) ?cl"
      using Cons.prems(9) flows_frame [OF _ r(10)] unfolding cl by (auto simp: list_all_iff)
    have ch: "chain ?cl" using chain_Cons(2) [of ?c ?cl] Cons.prems(11) False unfolding cl by simp
    have lst: "last cl = last ?cl" using False cl by simp
    have more: "length [p] \<le> 1" "False \<notin> set (w_forks w1)" "length as' = length ps" "Suc i + length ps = n"
      "open_count (after ?c base) + 2 + 2 * (n - 1) \<le> fd_limit k"
      using fork(2) r(9) Cons.prems(13,17,22) as open1(2) by simp_all
    have not0: "Suc i = 0 \<longrightarrow> Q" for Q by simp
    have flow: "flowing (after ?c base) (l_fd_in l1) (l_fd_out l1) b (if Suc i = 0 then 0 else n - 1)
        (if Suc i = 0 then [] else l_pipes l1) (w_fds w1)"
      using r(3) by simp
    obtain l' w' chs p' where x: "job_loop k stack ic oc n (length ps) (Suc i) l1 w1 = Inr (Continue l' w')"
      "l_last l' = Some p'" "sane room S w' [p']" "queue_sane (l_queue l') w' []"
      "flowing (fold after ?cl (after ?c base)) (l_fd_in l') (l_fd_out l') b (n - 1) (l_pipes l') (w_fds w')"
      "l_fd_in l' = - 1 \<longleftrightarrow> redirectFromPath (last ?cl) = None" "l_fd_out l' = - 1 \<longleftrightarrow> redirectToPath (last ?cl) = None"
      "w_pipes w' = (if Suc i = 0 then b + (n - 1) else w_pipes w1)" "w_children w' = w_children w1 @ chs"
      "children_flow b n ends (Suc i) (after ?c base) ?cl chs"
      "frame w1 w'" "w_nodes w' = release_nodes as' (w_nodes w1)"
      "release_nodes [p'] (w_commands w') = release_nodes ([p] @ ps) (w_commands w1)"
      using Cons.IH [where i = "Suc i",
          OF s(2) Cons.prems(2) s(3) Cons.prems(4) s(1) more(1) mask refl all False ch Cons.prems(12) more(4)
            Cons.prems(14) flow open1(1) more(5) not0 not0 more(2) r(12) more(3)]
      by (elim exE conjE) (rule that)
    have ends: "children_flow b n ends i base cl (ch # chs)" unfolding cl using x(10) r(8) by simp
    have nodes: "w_nodes w' = release_nodes as (w_nodes w)" using x(12) r(11) as by simp
    have cmds: "release_nodes [p'] (w_commands w') = release_nodes (lasts @ p # ps) (w_commands w)"
      using x(13) s(4) by (simp add: release_nodes_append)
    have base: "fold after cl base = fold after ?cl (after ?c base)" unfolding cl by simp
    show ?thesis
      by (intro exI [of _ l'] exI [of _ w'] exI [of _ "ch # chs"] exI [of _ p'] conjI)
        (use x r(1,6,7) lst ends nodes cmds base frame_trans [OF r(10) x(11)] in simp_all)
  qed
qed

lemma fold_after_run:
  "std_open base \<Longrightarrow> std_open (fold after cl base) \<and> open_count (fold after cl base) = open_count base \<and>
    (\<forall>x. x \<noteq> 0 \<longrightarrow> x \<noteq> 1 \<longrightarrow> fd_channel (fold after cl base) x = fd_channel base x)"
  by (induction cl arbitrary: base) (simp_all add: after_open fd_channel_after)

lemma fold_after:
  assumes "std_open base"
  shows "std_open (fold after cl base)" "open_count (fold after cl base) = open_count base"
    "x \<noteq> 0 \<Longrightarrow> x \<noteq> 1 \<Longrightarrow> fd_channel (fold after cl base) x = fd_channel base x"
  using fold_after_run [OF assms, of cl] by simp_all

lemma flow_restored:
  assumes near: "near (fold after cl base) fi fo t" and copies: "copies_at k base ic oc"
  shows "near base fi fo (fd_dup2 oc 1 (fd_dup2 ic 0 t))"
proof -
  have base: "std_open base" using copies by (simp add: copies_at_def std_open_def)
  let ?b = "fold after cl base"
  note b = fold_after [OF base, where cl = cl]
  have same: "fd_channel ?b ic = fd_channel base 0" "fd_channel ?b oc = fd_channel base 1" "ic \<noteq> 0" "oc \<noteq> 0" "ic \<noteq> 1" "oc \<noteq> 1"
    using copies b(3) by (auto simp: copies_at_def)
  have "ic \<noteq> fi" "ic \<noteq> fo" "oc \<noteq> fi" "oc \<noteq> fo"
    using near same base by (auto simp: near_def std_open_def)
  then have t: "fd_channel t ic = fd_channel base 0" "fd_channel t oc = fd_channel base 1" using near same by (simp_all add: near_def)
  have open01: "fi \<noteq> 0" "fi \<noteq> 1" "fo \<noteq> 0" "fo \<noteq> 1" using near b(1) by (auto simp: near_def std_open_def)
  have "fd_channel (fd_dup2 oc 1 (fd_dup2 ic 0 t)) x =
      (if x = 1 then fd_channel base 1 else if x = 0 then fd_channel base 0 else fd_channel t x)" for x
    using t base same by (auto simp: fd_channel_dup2 std_open_def split: option.splits)
  then show ?thesis using near b(3) open01 by (simp add: near_def)
qed

lemma executeCommands_flow_run:
  assumes s: "sane room S w ps" "room < 536870914" and q: "queue_sane q w ps" and k: "short_dirs k"
    and len: "length ps < 2 ^ 31" "2 \<le> length ps"
    and cl: "cl = map (object_at (w_commands w)) ps" "list_all (flows k w ends) cl" "chain cl"
    and fds: "fd_channel (w_fds w) 0 \<noteq> None" "fd_channel (w_fds w) 1 \<noteq> None"
      "open_count (w_fds w) + 2 * length ps + 2 \<le> fd_limit k"
    and stack: "stack (- 2) < 0" and forks: "False \<notin> set (w_forks w)"
    and as: "holds_nodes q (w_nodes w) as" "length as = length ps"
  shows "\<exists>q' w' chs. executeCommandsInQueue k stack junk (Some q) w = Inr (Return 0 q' w') \<and>
    w_children w' = w_children w @ chs \<and>
    children_flow (w_pipes w) (length ps) ends 0 (with_copies k (w_fds w)) cl chs \<and>
    fd_channel (w_fds w') 0 = fd_channel (w_fds w) 0 \<and> fd_channel (w_fds w') 1 = fd_channel (w_fds w) 1 \<and>
    open_count (w_fds w') = open_count (w_fds w) + 2 + redirects (redirectFromPath (last cl)) + redirects (redirectToPath (last cl)) \<and>
    w_pipes w' = w_pipes w + (length ps - 1) \<and>
    sane room S w' [] \<and> queue_sane q' w' [] \<and> frame w w' \<and> w_fg_pid w' = 0 \<and>
    w_nodes w' = release_nodes as (w_nodes w) \<and> w_commands w' = release_nodes ps (w_commands w)"
proof -
  let ?n = "length ps"
  have ne: "ps \<noteq> []" using len(2) by auto
  have count: "queue_count q \<noteq> 0" using queue_sane_empty [OF q] ne by simp
  have n: "nat (command_count q) = ?n"
    using len command_count_small [of q "length ps"] as by (simp add: holds_nodes_def)
  have std: "standard_fds k (w_fds w)" using fds by (simp add: standard_fds_def)
  let ?base = "with_copies k (w_fds w)"
  obtain ic oc t1 where d: "fd_dup (fd_limit k) 0 (w_fds w) = (ic, t1)" "fd_dup (fd_limit k) 1 t1 = (oc, ?base)"
    "fd_dup2 ic 0 ?base = ?base" "fd_dup2 oc 1 ?base = ?base"
    "fd_channel ?base ic = fd_channel (w_fds w) 0" "fd_channel ?base oc = fd_channel (w_fds w) 1"
    "open_count ?base = open_count (w_fds w) + 2"
    using std by (rule copies_run)
  have old: "fd_channel ?base fd = fd_channel (w_fds w) fd" if "fd_channel (w_fds w) fd \<noteq> None" for fd
    using that fd_dup_new(2) [OF d(1)] fd_dup_new(2) [OF d(2)] by metis
  have "ic \<noteq> 0" "ic \<noteq> 1" "oc \<noteq> 0" "oc \<noteq> 1"
    using fd_dup_new(1) [OF d(1)] fd_dup_new(1) [OF d(2)] fd_dup_new(2) [OF d(1)] fds(1,2) by auto
  then have copies: "copies_at k ?base ic oc" using d(5-7) old fds len(2) by (simp add: copies_at_def)
  then have base: "std_open ?base" by (simp add: copies_at_def std_open_def)
  let ?w = "w\<lparr>w_fds := ?base\<rparr>"
  let ?l = "\<lparr>l_queue = q, l_fd_in = - 1, l_fd_out = - 1, l_pid = - 1,
      l_pipes = map (\<lambda>j. stack (int j)) [0..<2 * (?n - 1)], l_launched = map junk [0..<?n], l_last = None\<rparr>"
  have c: "core w ?w" by (rule core_ops)
  have pre: "sane room S ?w ([] @ ps)" "queue_sane (l_queue ?l) ?w ps" "l_last ?l = last_ptr []" "length ([] :: nat list) \<le> 1"
    "last_mask [] ?w = (if (0::nat) = 0 then None else Some commandConnectionPipe)" "cl = map (object_at (w_commands ?w)) ps"
    "False \<notin> set (w_forks ?w)" "holds_nodes (l_queue ?l) (w_nodes ?w) as"
    using s(1) q cl(1) forks as(1) by (simp_all add: sane_core [OF c] queue_sane_core [OF c] last_mask_def)
  have flow: "flowing ?base (l_fd_in ?l) (l_fd_out ?l) (w_pipes w) (if (0::nat) = 0 then 0 else ?n - 1)
      (if (0::nat) = 0 then [] else l_pipes ?l) (w_fds ?w)"
    using near_refl by (simp add: flowing_none)
  have room: "open_count ?base + 2 + 2 * (?n - 1) \<le> fd_limit k" "0 + length ps = ?n"
    "(0::nat) = 0 \<longrightarrow> length (l_pipes ?l) = 2 * (?n - 1)" "(0::nat) = 0 \<longrightarrow> w_pipes ?w = w_pipes w"
    using d(7) fds(3) len(2) by simp_all
  have all: "list_all (flows k ?w ends) cl"
    using cl(2) flows_frame [OF _ frame_ops(2)] by (auto simp: list_all_iff)
  obtain l' w1 chs p where r: "job_loop k stack ic oc ?n ?n 0 ?l ?w = Inr (Continue l' w1)"
    "l_last l' = Some p" "sane room S w1 [p]" "queue_sane (l_queue l') w1 []"
    "flowing (fold after cl ?base) (l_fd_in l') (l_fd_out l') (w_pipes w) (?n - 1) (l_pipes l') (w_fds w1)"
    "l_fd_in l' = - 1 \<longleftrightarrow> redirectFromPath (last cl) = None" "l_fd_out l' = - 1 \<longleftrightarrow> redirectToPath (last cl) = None"
    "w_pipes w1 = (if (0::nat) = 0 then w_pipes w + (?n - 1) else w_pipes ?w)"
    "w_children w1 = w_children ?w @ chs" "children_flow (w_pipes w) ?n ends 0 ?base cl chs"
    "frame ?w w1" "w_nodes w1 = release_nodes as (w_nodes ?w)"
    "release_nodes [p] (w_commands w1) = release_nodes ([] @ ps) (w_commands ?w)"
    using flow_loop [where ic = ic and oc = oc and stack = stack and i = 0,
        OF pre(1) s(2) pre(2) k pre(3-6) all ne cl(3) len(2) room(2) stack flow base room(1,3,4) pre(7,8) as(2)]
    by (elim exE conjE) (rule that)
  obtain w' where w': "finish_jobs ic oc l' w1 = Inr (Return 0 (l_queue l') w')" "sane room S w' []"
    "queue_sane (l_queue l') w' []" "w_commands w' = (w_commands w1)[p := None]"
    using finish_jobs_safe [OF r(3,2,4)] by blast
  note fin = finish_jobs_fds [OF w'(1)]
  have run: "executeCommandsInQueue k stack junk (Some q) w = Inr (Return 0 (l_queue l') w')"
    using count d(1,2) r(1) w'(1) by (simp add: executeCommandsInQueue_def n)
  have "near (fold after cl ?base) (l_fd_in l') (l_fd_out l') (closepipes (l_pipes l') (w_fds w1))"
    using r(5) by (simp add: flowing_def)
  from flow_restored [OF this copies] have near: "near ?base (l_fd_in l') (l_fd_out l') (w_fds w')" unfolding fin(1) .
  have keep: "fd_channel (w_fds w') x = fd_channel (w_fds w) x" if "fd_channel (w_fds w) x \<noteq> None" for x
    using near old [OF that] that by (metis near_def fd_channel_neg)
  have "open_count (w_fds w') = open_count (w_fds w) + 2 + redirects (redirectFromPath (last cl)) + redirects (redirectToPath (last cl))"
    using near_count [OF near] d(7) r(6,7) by (auto simp: redirects_def split: option.splits)
  moreover have "frame w w'" using frame_trans [OF frame_trans [OF frame_ops(2) r(11)] fin(3)] .
  moreover have "w_nodes w' = release_nodes as (w_nodes w)" "w_commands w' = release_nodes ps (w_commands w)"
    "w_pipes w' = w_pipes w + (?n - 1)"
    using r(8,12,13) fin(4) w'(4) finish_jobs_pipes [OF w'(1)] by simp_all
  ultimately show ?thesis
    using run r(9,10) fin(2,5) keep fds(1,2) w'(2,3)
    by (intro exI [of _ "l_queue l'"] exI [of _ w'] exI [of _ chs]) simp
qed

section \<open>The channels of the children\<close>

definition channels_of :: "channel option \<times> channel option \<Rightarrow> command_t \<Rightarrow> channel option \<times> channel option" where
  "channels_of std c =
     (case redirectFromPath c of None \<Rightarrow> fst std | Some f \<Rightarrow> Some (Read_File f),
      case redirectToPath c of None \<Rightarrow> snd std | Some f \<Rightarrow> Some (Write_File f))"

fun flow_channels ::
    "nat \<Rightarrow> nat \<Rightarrow> nat \<Rightarrow> channel option \<times> channel option \<Rightarrow> command_t list \<Rightarrow>
     (channel option \<times> channel option) list" where
  "flow_channels b n i std [] = []"
| "flow_channels b n i std (c # cl) =
     (if 0 < i then Some (pipe_in (b + i - 1)) else fst (channels_of std c),
      if Suc i < n then Some (pipe_out (b + i)) else snd (channels_of std c)) #
     flow_channels b n (Suc i) (channels_of std c) cl"

lemma std_of_channels: "stdin_of t c = fst (channels_of (fd_channel t 0, fd_channel t 1) c)"
  "stdout_of t c = snd (channels_of (fd_channel t 0, fd_channel t 1) c)"
  by (simp_all add: stdin_of_def stdout_of_def channels_of_def cong: option.case_cong)

lemma children_flow_run:
  assumes "children_flow b n ends i base cl chs" "std_open base"
  shows "map child_end chs = map (\<lambda>c. Inr (ends c)) cl \<and>
    map (\<lambda>ch. (fd_channel (child_fds ch) 0, fd_channel (child_fds ch) 1)) chs =
      flow_channels b n i (fd_channel base 0, fd_channel base 1) cl"
  using assms
proof (induction cl arbitrary: i base chs)
  case (Cons c cl)
  obtain ch chs' where chs: "chs = ch # chs'" using Cons.prems(1) by (cases chs) auto
  have flow: "flow_child b n i base c (ends c) ch" "children_flow b n ends (Suc i) (after c base) cl chs'"
    using Cons.prems(1) chs by simp_all
  have std: "(fd_channel (after c base) 0, fd_channel (after c base) 1) = channels_of (fd_channel base 0, fd_channel base 1) c"
    by (simp add: fd_channel_after [OF Cons.prems(2)] std_of_channels)
  from Cons.IH [OF flow(2) after_open(1) [OF Cons.prems(2)], unfolded std] flow(1) show ?case
    by (simp add: chs flow_child_def std_of_channels)
qed simp

lemmas children_flow_channels = children_flow_run [THEN conjunct1] children_flow_run [THEN conjunct2]

lemma copies_std:
  assumes "standard_fds k t"
  shows "fd_channel (with_copies k t) 0 = fd_channel t 0" "fd_channel (with_copies k t) 1 = fd_channel t 1"
    "std_open (with_copies k t)"
proof -
  show *: "fd_channel (with_copies k t) 0 = fd_channel t 0" "fd_channel (with_copies k t) 1 = fd_channel t 1"
    using assms by (rule copies_run; use assms in \<open>auto simp: standard_fds_def\<close>)+
  show "std_open (with_copies k t)" using assms * by (simp add: std_open_def standard_fds_def)
qed

text \<open>The last output redirection of a pipeline, whichever command it belongs to.\<close>

definition last_output :: "command_t list \<Rightarrow> channel option \<Rightarrow> channel option" where
  "last_output = fold (\<lambda>c out. case redirectToPath c of None \<Rightarrow> out | Some f \<Rightarrow> Some (Write_File f))"

lemma flow_channels_nth:
  assumes "j < length cl" "i + length cl = n"
  shows "flow_channels b n i std cl ! j =
    (if 0 < i + j then Some (pipe_in (b + (i + j) - 1)) else fst (channels_of std (hd cl)),
     if Suc (i + j) < n then Some (pipe_out (b + (i + j))) else last_output cl (snd std))"
  using assms
proof (induction cl arbitrary: i j std)
  case (Cons c cl)
  have out: "last_output (c # cl) (snd std) = last_output cl (snd (channels_of std c))"
    by (simp add: last_output_def channels_of_def cong: option.case_cong)
  show ?case
  proof (cases j)
    case 0
    then show ?thesis using Cons.prems(2) 
      by (cases cl) (simp_all add: last_output_def channels_of_def cong: option.case_cong)
  next
    case (Suc j')
    have IH: "flow_channels b n (Suc i) (channels_of std c) cl ! j' =
      (if 0 < Suc i + j' then Some (pipe_in (b + (Suc i + j') - 1)) else fst (channels_of (channels_of std c) (hd cl)),
       if Suc (Suc i + j') < n then Some (pipe_out (b + (Suc i + j'))) else last_output cl (snd (channels_of std c)))"
      by (rule Cons.IH) (use Cons.prems Suc in simp_all)
    show ?thesis using IH by (simp add: Suc out)
  qed
qed simp

section \<open>Property\<close>

text \<open>C10. Pipelines with redirections. In a pipeline of external commands whose files can be opened, each
  command but the first reads from the pipe of its neighbour, and each but the last writes to its
  pipe, whatever it redirects; the first one reads from its input file. A redirection is undone only
  at the end of the line: the last command writes to the last output file that any command of the
  pipeline names, so that in \<open>ls > x | wc\<close> it is \<open>wc\<close> that writes to \<open>x\<close>. At the end the shell has its
  own stdin and stdout back, and the files of the last command stay open.\<close>

theorem piped_redirections:
  assumes "sane room S w ps" "room < 536870914" "queue_sane q w ps" "short_dirs k"
    and "length ps < 2 ^ 31" "2 \<le> length ps"
    and "cl = map (object_at (w_commands w)) ps" "list_all (\<lambda>c. external k c \<and> files_open k c) cl" "chain cl"
    and "fd_channel (w_fds w) 0 \<noteq> None" "fd_channel (w_fds w) 1 \<noteq> None"
    and "open_count (w_fds w) + 2 * length ps + 2 \<le> fd_limit k" "stack (- 2) < 0" "False \<notin> set (w_forks w)"
  shows "\<exists>q' w' chs. executeCommandsInQueue k stack junk (Some q) w = Inr (Return 0 q' w') \<and>
    w_children w' = w_children w @ chs \<and> map child_end chs = map started cl \<and>
    (\<forall>i < length ps.
      fd_channel (child_fds (chs ! i)) 0 =
        (if 0 < i then Some (pipe_in (w_pipes w + i - 1)) else stdin_of (w_fds w) (hd cl)) \<and>
      fd_channel (child_fds (chs ! i)) 1 =
        (if Suc i < length ps then Some (pipe_out (w_pipes w + i)) else last_output cl (fd_channel (w_fds w) 1))) \<and>
    fd_channel (w_fds w') 0 = fd_channel (w_fds w) 0 \<and> fd_channel (w_fds w') 1 = fd_channel (w_fds w) 1 \<and>
    open_count (w_fds w') = open_count (w_fds w) + 2 + redirects (redirectFromPath (last cl)) + redirects (redirectToPath (last cl))"
proof -
  let ?ends = "\<lambda>c. Runs (path c) (words_of c)"
  let ?base = "with_copies k (w_fds w)"
  obtain as where as: "holds_nodes q (w_nodes w) as" "length as = length ps"
    using assms(3) by (auto simp: queue_sane_def items_def dest: map_eq_imp_length_eq)
  have flows: "list_all (flows k w ?ends) cl"
    using assms(8) ends_as_external by (auto simp: list_all_iff flows_def)
  obtain q' w' chs where r: "executeCommandsInQueue k stack junk (Some q) w = Inr (Return 0 q' w')"
    "w_children w' = w_children w @ chs" "children_flow (w_pipes w) (length ps) ?ends 0 ?base cl chs"
    "fd_channel (w_fds w') 0 = fd_channel (w_fds w) 0" "fd_channel (w_fds w') 1 = fd_channel (w_fds w) 1"
    "open_count (w_fds w') = open_count (w_fds w) + 2 + redirects (redirectFromPath (last cl)) + redirects (redirectToPath (last cl))"
    using executeCommands_flow_run [where stack = stack and junk = junk, OF assms(1-7) flows assms(9-14) as] by blast
  have "standard_fds k (w_fds w)" using assms(6,10,11,12) by (simp add: standard_fds_def)
  note base = copies_std [OF this]
  note chs = children_flow_channels [OF r(3) base(3), unfolded base(1,2)]
  have len: "length chs = length cl" "length cl = length ps" using arg_cong [OF chs(1), of length] assms(7) by simp_all
  have "(fd_channel (child_fds (chs ! i)) 0, fd_channel (child_fds (chs ! i)) 1) =
      (if 0 < i then Some (pipe_in (w_pipes w + i - 1)) else stdin_of (w_fds w) (hd cl),
       if Suc i < length ps then Some (pipe_out (w_pipes w + i)) else last_output cl (fd_channel (w_fds w) 1))"
    if i: "i < length ps" for i
  proof -
    have "(fd_channel (child_fds (chs ! i)) 0, fd_channel (child_fds (chs ! i)) 1) =
        map (\<lambda>ch. (fd_channel (child_fds ch) 0, fd_channel (child_fds ch) 1)) chs ! i"
      using i len by simp
    also have "\<dots> = flow_channels (w_pipes w) (length ps) 0 (fd_channel (w_fds w) 0, fd_channel (w_fds w) 1) cl ! i"
      unfolding chs(2) ..
    finally show ?thesis
      using flow_channels_nth [of i cl 0 "length ps"] i len(2) by (simp add: std_of_channels)
  qed
  moreover have "map child_end chs = map started cl" using chs(1) by (simp add: started_def)
  ultimately show ?thesis using r by (intro exI [of _ q'] exI [of _ w'] exI [of _ chs]) simp
qed

section \<open>Witness\<close>

text \<open>\<open>sort < in > names | uniq\<close>: it is \<open>uniq\<close> that writes to \<open>names\<close>.\<close>

abbreviation piped_queue :: "command_t list" where
  "piped_queue \<equiv>
     [(simple_command [''sort''] commandConnectionPipe)\<lparr>redirectFromPath := Some ''in'', redirectToPath := Some ''names''\<rparr>,
      simple_command [''uniq''] commandConnectionNone]"

theorem piped_redirections_witness:
  "\<exists>q' w' c d. executeCommandsInQueue small_kernel (\<lambda>_. - 1) (\<lambda>_. 0) (Some (listed_queue 2))
      (world_with home_shell piped_queue) = Inr (Return 0 q' w') \<and>
    w_children w' = [c, d] \<and> fd_channel (child_fds c) 0 = Some (Read_File ''in'') \<and>
    fd_channel (child_fds c) 1 = Some (pipe_out 0) \<and> fd_channel (child_fds d) 0 = Some (pipe_in 0) \<and>
    fd_channel (child_fds d) 1 = Some (Write_File ''names'') \<and> open_count (w_fds w') = 5"
proof -
  let ?w = "world_with home_shell piped_queue"
  have n: "length piped_queue = 2" by simp
  have run: "\<forall>c \<in> set piped_queue. runnable c" by code_simp
  have s: "sane 0 {#} ?w [0..<2]" "queue_sane (listed_queue 2) ?w [0..<2]"
    using home_queue_sane [OF _ _ run] unfolding n by simp_all
  have cl: "piped_queue = map (object_at (w_commands ?w)) [0..<2]"
    using world_with_objects [of home_shell piped_queue] unfolding n by simp
  have flow: "list_all (\<lambda>c. external small_kernel c \<and> files_open small_kernel c) piped_queue" "chain piped_queue"
    by code_simp+
  have w: "w_children ?w = []" "w_pipes ?w = 0" "w_fds ?w = [Some (Terminal 0), Some (Terminal 1), Some (Terminal 2)]"
    "w_forks ?w = []"
    by (simp_all add: world_with_def)
  have fds: "fd_channel (w_fds ?w) 0 \<noteq> None" "fd_channel (w_fds ?w) 1 \<noteq> None"
    "open_count (w_fds ?w) + 2 * length [0..<2::nat] + 2 \<le> fd_limit small_kernel" "False \<notin> set (w_forks ?w)"
    unfolding w by (simp_all add: fd_channel_def open_count_def small_kernel_def)
  obtain q' w' chs where r: "executeCommandsInQueue small_kernel (\<lambda>_. - 1) (\<lambda>_. 0) (Some (listed_queue 2)) ?w = Inr (Return 0 q' w')"
    "w_children w' = chs" "map child_end chs = map started piped_queue"
    "\<forall>i < 2. fd_channel (child_fds (chs ! i)) 0 = (if 0 < i then Some (pipe_in (i - 1)) else stdin_of (w_fds ?w) (hd piped_queue)) \<and>
      fd_channel (child_fds (chs ! i)) 1 =
        (if Suc i < 2 then Some (pipe_out i) else last_output piped_queue (fd_channel (w_fds ?w) 1))"
    "open_count (w_fds w') = open_count (w_fds ?w) + 2 + redirects (redirectFromPath (last piped_queue)) +
      redirects (redirectToPath (last piped_queue))"
    using piped_redirections [where stack = "\<lambda>_. - 1" and junk = "\<lambda>_. 0",
        OF s(1) _ s(2) small_kernel_dirs _ _ cl flow fds(1-3) _ fds(4)] w(1,2) by auto
  obtain c d where chs: "chs = [c, d]" using r(3) by (auto simp: map_eq_Cons_conv)
  show ?thesis
    by (intro exI [of _ q'] exI [of _ w'] exI [of _ c] exI [of _ d])
      (use r(1,2,5) r(4) [rule_format, of 0] r(4) [rule_format, of 1] in
        \<open>simp add: chs stdin_of_def last_output_def redirects_def w(3) open_count_def\<close>)
qed

end
