(* ===== verification/Interactive.thy ===== *)
theory Interactive
  imports Views Piped_Files
begin

text \<open>
  Sessions of the shell as its users see them. \<open>enter\<close> says what a typed line does to the view: a
  builtin alone on its line is run by the shell itself; the commands of a list or of a pipeline run in
  children, builtins included, each with its redirections; empty, wrong and rejected lines do what
  \<open>session_step\<close> says. The aliases that one line defines are those with which the next line is read.
  The program is shown to refine it, with signals that arrive between the lines, from the start of
  \<open>main\<close> to \<open>exit\<close>.
\<close>

section \<open>Lines\<close>

text \<open>A builtin alone on its line, its output not redirected.\<close>

definition lone_builtin :: "command_t \<Rightarrow> bool" where
  "lone_builtin c \<longleftrightarrow>
     single_builtin c \<and> redirectToPath c = None \<and>
     (cstr (hd (words_of c)) = ''alias'' \<longrightarrow> tl (words_of c) \<noteq> [])"

text \<open>A list without pipes whose files can be opened and that does not end in a builtin of the shell.\<close>

definition is_list :: "kernel \<Rightarrow> command_t list \<Rightarrow> bool" where
  "is_list k cl \<longleftrightarrow>
     cl \<noteq> [] \<and> \<not> runs_in_shell (last cl) \<and> int (length cl) < 2 ^ 31 \<and>
     list_all (\<lambda>c. connectionMask c \<noteq> commandConnectionPipe \<and> files_open k c \<and> complete c) cl"

text \<open>A pipeline of commands whose files can be opened.\<close>

definition is_pipeline :: "kernel \<Rightarrow> command_t list \<Rightarrow> bool" where
  "is_pipeline k cl \<longleftrightarrow>
     2 \<le> length cl \<and> int (length cl) < 2 ^ 31 \<and> chain cl \<and> list_all (\<lambda>c. files_open k c \<and> complete c) cl"

datatype plan =
    By_Shell string command_t
  | By_Children string "command_t list"
  | By_Pipeline string "command_t list"
  | Otherwise

definition plan_of :: "kernel \<Rightarrow> line_kind \<Rightarrow> plan" where
  "plan_of k kind =
     (case kind of
        Listed e cl \<Rightarrow>
          if length cl = 1 \<and> lone_builtin (hd cl) then By_Shell e (hd cl)
          else if is_list k cl then By_Children e cl
          else if is_pipeline k cl then By_Pipeline e cl else Otherwise
      | _ \<Rightarrow> Otherwise)"

text \<open>A line that is executed goes to the history and costs two descriptors, and those of the files of
  its last command.\<close>

definition note_line :: "string \<Rightarrow> nat \<Rightarrow> view \<Rightarrow> view" where
  "note_line e n v =
     v\<lparr>v_session := (v_session v)\<lparr>past_lines := past_lines (v_session v) @ [e],
                                 open_fds := open_fds (v_session v) + 2 + n\<rparr>\<rparr>"

definition add_programs :: "(fault + child_end) list \<Rightarrow> (channel option \<times> channel option) list \<Rightarrow> view \<Rightarrow> view" where
  "add_programs es chs v =
     v\<lparr>v_session := (v_session v)\<lparr>programs := programs (v_session v) @ es\<rparr>, v_channels := v_channels v @ chs\<rparr>"

text \<open>A list or a pipeline: how each command ends is decided by the view before the line.\<close>

definition children_effect ::
    "kernel \<Rightarrow> string \<Rightarrow> command_t list \<Rightarrow> (channel option \<times> channel option) list \<Rightarrow> nat \<Rightarrow> view \<Rightarrow> view" where
  "children_effect k e cl chans np v =
     note_line e (redirects (redirectFromPath (last cl)) + redirects (redirectToPath (last cl)))
       (add_programs (map (\<lambda>c. Inr (ends_in k v c)) cl) chans v)\<lparr>v_pipes := np\<rparr>"

definition line_effect :: "kernel \<Rightarrow> line_kind \<Rightarrow> view \<Rightarrow> view" where
  "line_effect k kind v =
     (case plan_of k kind of
        By_Shell e c \<Rightarrow> note_line e 0 (effect_of (chdir k) (cstr (hd (words_of c))) (tl (words_of c)) v)
      | By_Children e cl \<Rightarrow> children_effect k e cl (map (channels_of (v_std v)) cl) (v_pipes v) v
      | By_Pipeline e cl \<Rightarrow>
          children_effect k e cl (flow_channels (v_pipes v) (length cl) 0 (v_std v) cl) (v_pipes v + (length cl - 1)) v
      | Otherwise \<Rightarrow> v\<lparr>v_session := session_step kind (v_session v)\<rparr>)"

definition kind_of :: "libraries \<Rightarrow> string \<Rightarrow> view \<Rightarrow> line_kind" where
  "kind_of lib l v = line_kind (v_defs v) lib (past_lines (v_session v)) l"

definition enter :: "libraries \<Rightarrow> string \<Rightarrow> view \<Rightarrow> view" where
  "enter lib l v = line_effect (lib_kernel lib) (kind_of lib l v) v"

text \<open>The lines that the specification covers: no expansion fails, there are descriptors left, and what
  is not a lone builtin, a list or a pipeline is empty, wrong or rejected.\<close>

definition line_fits :: "libraries \<Rightarrow> string \<Rightarrow> view \<Rightarrow> bool" where
  "line_fits lib l v \<longleftrightarrow>
     (case lib_history_expand lib (past_lines (v_session v)) l of (result, e) \<Rightarrow>
        int (length e) < 2 ^ 62 \<and> all_fine (lib_wordexp lib) (v_defs v) (cstr e))"

definition command_line_ok :: "libraries \<Rightarrow> string \<Rightarrow> view \<Rightarrow> bool" where
  "command_line_ok lib l v \<longleftrightarrow>
     line_fits lib l v \<and>
     open_fds (v_session v) + 4 \<le> fd_limit (lib_kernel lib) \<and>
     int (length (v_defs v)) < 536870914 \<and> length (v_cwd v) < BUFSIZE"

definition other_line_ok :: "libraries \<Rightarrow> string \<Rightarrow> view \<Rightarrow> bool" where
  "other_line_ok lib l v \<longleftrightarrow>
     line_ok (v_defs v) lib (past_lines (v_session v)) l \<and>
     (case kind_of lib l v of Listed e cl \<Rightarrow> cl = [] | _ \<Rightarrow> True) \<and> open_fds (v_session v) \<le> fd_limit (lib_kernel lib)"

definition enter_ok :: "libraries \<Rightarrow> string \<Rightarrow> view \<Rightarrow> bool" where
  "enter_ok lib l v =
     (case plan_of (lib_kernel lib) (kind_of lib l v) of
        Otherwise \<Rightarrow> other_line_ok lib l v
      | By_Pipeline e cl \<Rightarrow>
          command_line_ok lib l v \<and> open_fds (v_session v) + 2 * length cl + 2 \<le> fd_limit (lib_kernel lib)
      | _ \<Rightarrow> command_line_ok lib l v)"

section \<open>The representation\<close>

definition child_std :: "child \<Rightarrow> channel option \<times> channel option" where
  "child_std ch = (fd_channel (child_fds ch) 0, fd_channel (child_fds ch) 1)"

definition represents :: "strheap \<Rightarrow> libraries \<Rightarrow> repl \<Rightarrow> view \<Rightarrow> bool" where
  "represents others lib r v \<longleftrightarrow>
     shell_ready (v_defs v) others lib (r_world r) \<and> session_of r = v_session v \<and>
     sh_env (w_shell (r_world r)) = v_env v \<and> sh_cwd (w_shell (r_world r)) = v_cwd v \<and>
     sh_out (w_shell (r_world r)) = v_out v \<and>
     v_std v = (fd_channel (w_fds (r_world r)) 0, fd_channel (w_fds (r_world r)) 1) \<and>
     map child_std (w_children (r_world r)) = v_channels v \<and> w_pipes (r_world r) = v_pipes v \<and>
     list_all (\<lambda>e. \<not> isl e) (programs (v_session v))"

text \<open>The commands and nodes that were made are gone, and no signal was sent.\<close>

definition cleared :: "world \<Rightarrow> world \<Rightarrow> bool" where
  "cleared w w' \<longleftrightarrow>
     cells_grew (w_commands w) (w_commands w') {} \<and> cells_grew (w_nodes w) (w_nodes w') {} \<and>
     kills (w_events w') = kills (w_events w)"

lemma cleared_refl [simp]: "cleared w w"
  by (simp add: cleared_def cells_grew_def)

lemma cleared_trans [trans]: "cleared w w1 \<Longrightarrow> cleared w1 w2 \<Longrightarrow> cleared w w2"
  by (auto simp: cleared_def cells_grew_def)

lemma represents_sel:
  assumes "represents others lib r v"
  shows "past_lines (v_session v) = r_history r" "open_fds (v_session v) = open_count (w_fds (r_world r))"
    "programs (v_session v) = map child_end (w_children (r_world r))"
    "error_output (v_session v) = sh_err (w_shell (r_world r))"
proof -
  have "v_session v = session_of r" using assms by (simp add: represents_def)
  then show "past_lines (v_session v) = r_history r" "open_fds (v_session v) = open_count (w_fds (r_world r))"
    "programs (v_session v) = map child_end (w_children (r_world r))"
    "error_output (v_session v) = sh_err (w_shell (r_world r))"
    by (simp_all add: session_of_def)
qed

section \<open>A round\<close>

lemma seen_cong:
  assumes "seen A sh v" "alias_lookup (sh_aliases sh') = alias_lookup (sh_aliases sh)" "alias_ok (sh_aliases sh') B"
    "False \<notin> set (al_oom (sh_aliases sh'))" "sh_env sh' = sh_env sh" "sh_cwd sh' = sh_cwd sh" "sh_out sh' = sh_out sh"
    "sh_err sh' = sh_err sh"
  shows "seen B sh' v"
  using assms describes_lookup [OF assms(2)] by (simp add: seen_def unmarked_def)

text \<open>A line whose history expansion succeeds and that is a list of commands.\<close>

lemma listed_parsed:
  assumes "kind_of lib l v = Listed e cl" "line_fits lib l v"
  obtains result rs where "lib_history_expand lib (past_lines (v_session v)) l = (result, e)"
    "\<not> (result < 0 \<or> result = 2)" "length e < 2 ^ 62" "parse_line (cstr e) = Inr rs"
    "all_fine (lib_wordexp lib) (v_defs v) (cstr e)" "list_all (fine (lib_wordexp lib) (v_defs v)) rs"
    "cl = map (\<lambda>x. the (build (lib_wordexp lib) (v_defs v) x)) rs"
proof -
  obtain result e' where hist: "lib_history_expand lib (past_lines (v_session v)) l = (result, e')" by fastforce
  then have res: "\<not> (result < 0 \<or> result = 2)" "e' = e"
    using assms(1) by (auto simp: kind_of_def line_kind_def split: if_splits sum.splits)
  obtain rs where rs: "parse_line (cstr e) = Inr rs" "cl = map (\<lambda>x. the (build (lib_wordexp lib) (v_defs v) x)) rs"
    using assms(1) hist by (auto simp: kind_of_def line_kind_def split: if_splits sum.splits)
  have fits: "length e < 2 ^ 62" "all_fine (lib_wordexp lib) (v_defs v) (cstr e)"
    using assms(2) hist res(2) by (auto simp: line_fits_def)
  then have "list_all (fine (lib_wordexp lib) (v_defs v)) rs"
    using parse_line_attempted [OF rs(1)] by (simp add: all_fine_def)
  with that hist res rs fits show thesis by blast
qed

lemma single_parsed:
  assumes "kind_of lib l v = Listed e [c]" "line_fits lib l v"
  obtains result x where "lib_history_expand lib (past_lines (v_session v)) l = (result, e)"
    "\<not> (result < 0 \<or> result = 2)" "length e < 2 ^ 62" "parse_line (cstr e) = Inr [x]"
    "all_fine (lib_wordexp lib) (v_defs v) (cstr e)" "fine (lib_wordexp lib) (v_defs v) x"
    "build (lib_wordexp lib) (v_defs v) x = Some c"
proof -
  obtain result rs where r: "lib_history_expand lib (past_lines (v_session v)) l = (result, e)"
    "\<not> (result < 0 \<or> result = 2)" "length e < 2 ^ 62" "parse_line (cstr e) = Inr rs"
    "all_fine (lib_wordexp lib) (v_defs v) (cstr e)" "list_all (fine (lib_wordexp lib) (v_defs v)) rs"
    "[c] = map (\<lambda>x. the (build (lib_wordexp lib) (v_defs v) x)) rs"
    using assms by (rule listed_parsed)
  then obtain x where x: "rs = [x]" "c = the (build (lib_wordexp lib) (v_defs v) x)" by (auto simp: Cons_eq_map_conv)
  then have "build (lib_wordexp lib) (v_defs v) x = Some c" using r(6) by (auto simp: fine_def build_def)
  with that r x(1) show thesis by simp
qed

text \<open>The end of a round whose commands have been executed.\<close>

lemma round_closes:
  assumes ready: "shell_ready defs others lib (r_world r)"
    and hist: "lib_history_expand lib (r_history r) l = (result, e)" "\<not> (result < 0 \<or> result = 2)"
    and w1: "w1 = new_string e (new_string l (r_world r))"
    and parse: "parseInput (lib_wordexp lib) e (lib_params lib) (to_parser (lib_params lib) w1) = Inr st'"
      "queue st' = Some q" "queue_count q > 0"
    and exec: "executeCommandsInQueue (lib_kernel lib) (lib_stack lib) (lib_launched lib) (Some q) (from_parser st' w1) =
        Inr (Return 0 q' w')" "holds_nodes q' (w_nodes w') []"
    and see: "seen (add_mset e (add_mset l others)) (w_shell w') v"
    and w': "False \<notin> set (w_forks w')" "0 < w_next_pid w'" "w_fg_pid w' = 0"
      "fd_channel (w_fds w') 0 \<noteq> None" "fd_channel (w_fds w') 1 \<noteq> None"
  obtains r' S where "run_round lib (Some l) r = Inr (Again r')" "r_world r' = set_heap (w_commands w') S w'"
    "r_history r' = r_history r @ [e]" "shell_ready (v_defs v) others lib (r_world r')"
    "seen others (w_shell (r_world r')) v"
proof -
  let ?S0 = "w_strings w' - {#e, l#}"
  have owns: "alias_ok (sh_aliases (w_shell w')) ({#e, l#} + others)" using see by (simp add: seen_def)
  then have "{#e, l#} \<subseteq># w_strings w'" using alias_ok_swap(1) [OF owns] by simp
  then have S2: "w_strings w' = add_mset e (add_mset l ?S0)"
    using subset_mset.add_diff_inverse [of "{#e, l#}" "w_strings w'"] by simp
  let ?r1 = "r\<lparr>r_history := r_history r @ [e], r_world := w'\<rparr>"
  let ?w2 = "set_heap (w_commands w') ?S0 w'"
  let ?r = "?r1\<lparr>r_world := ?w2\<rparr>"
  have free: "free_lines e l ?r1 = Inr (Again ?r)" using free_lines_run [of ?r1 e l ?S0] S2 by simp
  have run: "run_round lib (Some l) r = Inr (Again ?r)"
    using hist parse w1 exec free by (simp add: run_round_def run_queue_def free_queue_empty Let_def)
  have see2: "seen others (w_shell ?w2) v"
    using see by (rule seen_cong)
      (use alias_ok_without [OF owns] see in \<open>simp_all add: set_heap_def seen_def alias_lookup_def fun_eq_iff\<close>)
  then have "shell_ready (v_defs v) others lib ?w2"
    using ready w' by (simp add: shell_ready_def parser_ready_def to_parser_def unmarked_released seen_def)
  with that run see2 show thesis by simp
qed

text \<open>A line of another kind, covered by the abstract session.\<close>

lemma enter_other:
  assumes rep: "represents others lib r v" and plan: "plan_of (lib_kernel lib) (kind_of lib l v) = Otherwise"
    and ok: "other_line_ok lib l v" and env: "environment_ok lib"
  shows "\<exists>r'. run_round lib (Some l) r = Inr (Again r') \<and> represents others lib r' (enter lib l v) \<and>
    cleared (r_world r) (r_world r')"
proof -
  note sel = represents_sel [OF rep]
  let ?s = "session_step (kind_of lib l v) (v_session v)"
  have view: "enter lib l v = v\<lparr>v_session := ?s\<rparr>" using plan by (simp add: enter_def line_effect_def)
  have none: "case kind_of lib l v of Listed e cl \<Rightarrow> cl = [] | _ \<Rightarrow> True" using ok by (simp add: other_line_ok_def)
  then have "line_size (v_defs v) lib (r_history r) l = 0"
    by (auto simp: line_size_def kind_of_def sel(1) split: line_kind.splits)
  then obtain r' where r': "run_round lib (Some l) r = Inr (Again r')" "shell_ready (v_defs v) others lib (r_world r')"
    "tidy (r_world r) (r_world r')" "session_of r' = session_step (line_kind (v_defs v) lib (r_history r) l) (session_of r)"
    using round_run [of "v_defs v" others lib r l] rep ok env
    by (auto simp: represents_def other_line_ok_def environment_ok_def sel(1,2))
  have s: "session_of r' = ?s" using r'(4) rep by (simp add: represents_def kind_of_def sel(1))
  have programs: "programs ?s = programs (v_session v)" using none by (cases "kind_of lib l v") simp_all
  obtain chs where chs: "w_children (r_world r') = w_children (r_world r) @ chs" using r'(3) by (auto simp: tidy_def)
  have "programs ?s = map child_end (w_children (r_world r) @ chs)" using s chs by (simp add: session_of_def flip: s)
  then have kids: "w_children (r_world r') = w_children (r_world r)" using chs by (simp add: programs sel(3))
  then have "w_pipes (r_world r') = w_pipes (r_world r)" using r'(3) by (simp add: tidy_def)
  then show ?thesis using rep r'(1-3) s kids programs unfolding view
    by (intro exI [of _ r']) (simp add: represents_def tidy_def cleared_def)
qed

text \<open>What the parser hands to the execution.\<close>

lemma line_parsed:
  assumes rep: "represents others lib r v" and w1: "w1 = new_string e (new_string l (r_world r))"
    and line: "length e < 2 ^ 62" "parse_line (cstr e) = Inr rs" "all_fine (lib_wordexp lib) (v_defs v) (cstr e)"
      "list_all (fine (lib_wordexp lib) (v_defs v)) rs" "cl = map (\<lambda>x. the (build (lib_wordexp lib) (v_defs v) x)) rs"
      "cl \<noteq> []" "length cl < 2 ^ 31"
  obtains st' q as ptrs S where
    "parseInput (lib_wordexp lib) e (lib_params lib) (to_parser (lib_params lib) w1) = Inr st'"
    "queued (lib_wordexp lib) (v_defs v) (add_mset e (add_mset l others)) (to_parser (lib_params lib) w1) rs st'"
    "queue st' = Some q" "queue_count q > 0" "queue_holds_commands (from_parser st' w1) q as ptrs S"
    "cl = map (object_at (w_commands (from_parser st' w1))) ptrs"
    "seen (strings_of (w_commands (from_parser st' w1)) ptrs + add_mset e (add_mset l others)) (w_shell (from_parser st' w1)) v"
    "cells_grew (w_nodes (r_world r)) (release_nodes as (nodes st')) {}"
    "cells_grew (w_commands (r_world r)) (release_nodes ptrs (commands st')) {}"
proof -
  let ?S = "add_mset e (add_mset l others)"
  have ready: "shell_ready (v_defs v) others lib (r_world r)" using rep by (simp add: represents_def)
  have heap: "w1 = set_heap (w_commands (r_world r)) (add_mset e (add_mset l (w_strings (r_world r)))) (r_world r)"
    unfolding w1 using new_lines(2) [OF ready] .
  obtain st' where st': "parseInput (lib_wordexp lib) e (lib_params lib) (to_parser (lib_params lib) w1) = Inr st'"
    "queued (lib_wordexp lib) (v_defs v) ?S (to_parser (lib_params lib) w1) rs st'" "messages st' = []"
    using parseInput_run [OF new_lines(1) [OF ready, of e l, folded w1] line(1-3)] by (auto simp: to_parser_def)
  obtain q as ptrs S where q: "queue st' = Some q" "holds_nodes q (nodes st') as"
    "items (nodes st') as = map Some ptrs" "held (from_parser st' w1) ptrs S"
    "list_all2 (\<lambda>a x. built (lib_wordexp lib) (v_defs v) x (object_at (commands st') a)) ptrs rs"
    "alias_ok ((aliases st')\<lparr>al_strings := S\<rparr>) ?S"
    "cells_grew (w_nodes w1) (release_nodes as (nodes st')) {}"
    "cells_grew (w_commands w1) (release_nodes ptrs (commands st')) {}"
    by (rule queued_world [OF st'(2), of w1]) (rule that; simp add: to_parser_def)
  have obj: "cl = map (object_at (commands st')) ptrs" using built_objects [OF q(5) line(4)] line(5) by simp
  then have len: "ptrs \<noteq> []" "length ptrs < 2 ^ 31" "length as = length ptrs"
    using line(6,7) q(3) by (auto simp: items_def dest: map_eq_imp_length_eq)
  then have hold: "queue_holds_commands (from_parser st' w1) q as ptrs S"
    using q(2-4) by (simp add: queue_holds_commands_def)
  have "command_count q = int (length as)"
    using q(2) len by (intro command_count_small) (simp_all add: holds_nodes_def)
  then have count: "queue_count q > 0" using len(1,3) by (auto simp: command_count_def word_gt_0)
  have "al_strings (aliases st') = strings_of (commands st') ptrs + S" using q(4) by (simp add: held_def)
  then have "alias_ok (aliases st') (strings_of (commands st') ptrs + ?S)"
    using q(6) by (auto simp: alias_ok_def split: option.splits)
  moreover have "describes (v_defs v) (aliases st')" "unmarked (aliases st')" "False \<notin> set (al_oom (aliases st'))"
    using st'(2) by (auto simp: queued_def unmarked_released)
  moreover have "sh_env (w_shell w1) = v_env v" "sh_cwd (w_shell w1) = v_cwd v" "sh_out (w_shell w1) = v_out v"
    "sh_err (w_shell w1) = error_output (v_session v)"
    using rep represents_sel(4) [OF rep] by (simp_all add: represents_def heap) (simp_all add: set_heap_def)
  ultimately have "seen (strings_of (commands st') ptrs + ?S) (w_shell (from_parser st' w1)) v"
    using st'(3) by (simp add: seen_def)
  then show thesis using that [OF st'(1,2) q(1) count hold] obj q(7,8) by (simp add: heap)
qed

section \<open>A builtin alone on its line\<close>

lemma lone_builtin_effect:
  assumes c: "lone_builtin c" and v: "seen others sh v" "length (v_defs v) < 536870914" "length (v_cwd v) < BUFSIZE"
    and run: "executeBuiltinCommand (chdir k) (argv c) sh = Inr (Some 0, sh')"
  shows "seen others sh' (effect_of (chdir k) (cstr (hd (words_of c))) (tl (words_of c)) v)"
proof -
  have b: "cstr (hd (words_of c)) \<in> set builtin_names" "cstr (hd (words_of c)) \<noteq> ''exit''" "runnable c"
    using c by (auto simp: lone_builtin_def single_builtin_def runnable_def words_of_def split: option.splits list.splits)
  then have "complete c" using c by (simp add: complete_def lone_builtin_def)
  then obtain name args where a: "argv c = Some (Some name # args)" "words_of c = name # argv_words args"
    "argv_ok args" "cstr name = ''export'' \<or> cstr name = ''alias'' \<longrightarrow> argv_words args \<noteq> []"
    by (rule completeE)
  obtain f where f: "map_of (builtin_table (chdir k)) (cstr name) = Some f"
    using builtin_known [of "chdir k" "cstr name"] b(1) by (auto simp: a(2))
  have "cstr name \<noteq> ''exit''" using b(2) by (simp add: a(2))
  from effect_run [OF v f this a(3) a(4) [THEN mp]] obtain r2 sh2 where
    "f args sh = Inr (Some r2, sh2)" "seen others sh2 (effect_of (chdir k) (cstr name) (argv_words args) v)"
    by blast
  with run f show ?thesis by (simp add: a(1,2) executeBuiltin_run)
qed

lemma effect_keeps:
  "programs (v_session (effect_of dirs name args v)) = programs (v_session v)"
  "past_lines (v_session (effect_of dirs name args v)) = past_lines (v_session v)"
  "open_fds (v_session (effect_of dirs name args v)) = open_fds (v_session v)"
  "v_std (effect_of dirs name args v) = v_std v" "v_channels (effect_of dirs name args v) = v_channels v"
  "v_pipes (effect_of dirs name args v) = v_pipes v"
  by (simp_all add: effect_of_def say_def report_def Let_def split: list.splits option.splits sum.splits)

lemma enter_builtin:
  assumes rep: "represents others lib r v" and plan: "plan_of (lib_kernel lib) (kind_of lib l v) = By_Shell e c"
    and ok: "command_line_ok lib l v"
  shows "\<exists>r'. run_round lib (Some l) r = Inr (Again r') \<and> represents others lib r' (enter lib l v) \<and>
    cleared (r_world r) (r_world r')"
proof -
  obtain cl where "kind_of lib l v = Listed e cl" "length cl = 1" "c = hd cl" "lone_builtin c"
    using plan by (auto simp: plan_of_def split: line_kind.splits if_splits)
  then have kind: "kind_of lib l v = Listed e [c]" "lone_builtin c" by (auto simp: length_Suc_conv)
  note sel = represents_sel [OF rep]
  obtain result x where hist: "lib_history_expand lib (r_history r) l = (result, e)"
    "\<not> (result < 0 \<or> result = 2)" "length e < 2 ^ 62" "parse_line (cstr e) = Inr [x]"
    "all_fine (lib_wordexp lib) (v_defs v) (cstr e)" "fine (lib_wordexp lib) (v_defs v) x"
    "build (lib_wordexp lib) (v_defs v) x = Some c"
    by (rule single_parsed [OF kind(1)]) (use ok in \<open>auto simp: command_line_ok_def sel(1)\<close>)
  have ready: "shell_ready (v_defs v) others lib (r_world r)" using rep by (simp add: represents_def)
  let ?w = "r_world r"
  let ?w1 = "new_string e (new_string l ?w)"
  let ?S = "add_mset e (add_mset l others)"
  let ?k = "lib_kernel lib"
  have fine: "list_all (fine (lib_wordexp lib) (v_defs v)) [x]" "[c] = map (\<lambda>x. the (build (lib_wordexp lib) (v_defs v) x)) [x]"
    "[c] \<noteq> []" "length [c] < 2 ^ 31"
    using hist(6,7) by simp_all
  obtain st' q as ptrs S where p: "parseInput (lib_wordexp lib) e (lib_params lib) (to_parser (lib_params lib) ?w1) = Inr st'"
    "queue st' = Some q" "queue_count q > 0" "queue_holds_commands (from_parser st' ?w1) q as ptrs S"
    "[c] = map (object_at (w_commands (from_parser st' ?w1))) ptrs"
    "seen (strings_of (w_commands (from_parser st' ?w1)) ptrs + ?S) (w_shell (from_parser st' ?w1)) v"
    "cells_grew (w_nodes ?w) (release_nodes as (nodes st')) {}"
    "cells_grew (w_commands ?w) (release_nodes ptrs (commands st')) {}"
    by (rule line_parsed [OF rep refl hist(3-5) fine]) (rule that)
  let ?W = "from_parser st' ?w1"
  obtain a where a: "ptrs = [a]" "object_at (w_commands ?W) a = c" using p(5) by (auto simp: Cons_eq_map_conv)
  have fds: "fd_channel (w_fds ?W) 0 \<noteq> None" "fd_channel (w_fds ?W) 1 \<noteq> None"
    "open_count (w_fds ?W) + 3 \<le> fd_limit ?k" "False \<notin> set (w_forks ?W)" "0 < w_next_pid ?W"
    "w_fg_pid ?W = 0" "w_fds ?W = w_fds ?w" "w_children ?W = w_children ?w" "w_events ?W = w_events ?w"
    "w_pipes ?W = w_pipes ?w"
    using ready ok by (simp_all add: shell_ready_def new_lines(2) [OF ready] command_line_ok_def sel(2))
  then have std: "standard_fds ?k (w_fds ?W)" by (simp add: standard_fds_def)
  have room: "length (v_defs v) < 536870914" "length (v_cwd v) < BUFSIZE" using ok by (simp_all add: command_line_ok_def)
  have see: "seen (command_strings c + ?S) (w_shell ?W) v" using p(6) a by simp
  have cwd: "length (sh_cwd (w_shell ?W)) < BUFSIZE" using see room(2) by (simp add: seen_def)
  have b: "single_builtin c" "redirectToPath c = None" using kind(2) by (simp_all add: lone_builtin_def)
  obtain q' w' sh' where x: "executeCommandsInQueue ?k (lib_stack lib) (lib_launched lib) (Some q) ?W = Inr (Return 0 q' w')"
    "holds_nodes q' (w_nodes w') []" "w_commands w' = (w_commands ?W)[a := None]"
    "executeBuiltinCommand (chdir ?k) (argv c) (w_shell ?W) = Inr (Some 0, sh')"
    "w_shell w' = sh'\<lparr>sh_aliases := sh_aliases (w_shell w')\<rparr>"
    "alias_lookup (sh_aliases (w_shell w')) = alias_lookup (sh_aliases sh')"
    "alias_ok (sh_aliases (w_shell w')) ?S" "w_children w' = w_children ?W" "w_events w' = w_events ?W"
    "w_fds w' = with_copies ?k (w_fds ?W)"
    "al_oom (sh_aliases (w_shell w')) = al_oom (sh_aliases sh')" "w_nodes w' = release_nodes as (w_nodes ?W)"
    "w_forks w' = w_forks ?W" "w_next_pid w' = w_next_pid ?W" "w_fg_pid w' = w_fg_pid ?W"
    "w_pipes w' = w_pipes ?W"
    using executeCommands_builtin_run [OF p(4) [unfolded a(1)] std fds(3) a(2) b(1) _ seen_shell_ok [OF see room(1)] cwd,
        where stack = "lib_stack lib" and junk = "lib_launched lib"] b(2)
    by (auto simp: after_open_def)
  let ?v = "effect_of (chdir ?k) (cstr (hd (words_of c))) (tl (words_of c)) v"
  have see': "seen (command_strings c + ?S) sh' ?v" using lone_builtin_effect [OF kind(2) see room x(4)] .
  have "seen ?S (w_shell w') ?v"
    using see' x(6,7)
    by (rule seen_cong) (use see' x(11) arg_cong [OF x(5), of sh_env] arg_cong [OF x(5), of sh_cwd]
        arg_cong [OF x(5), of sh_out] arg_cong [OF x(5), of sh_err] in \<open>simp_all add: seen_def\<close>)
  note fds' = copies_keep [OF std, of "w_fds w'"]
  obtain r' T where r': "run_round lib (Some l) r = Inr (Again r')" "r_world r' = set_heap (w_commands w') T w'"
    "r_history r' = r_history r @ [e]" "shell_ready (v_defs ?v) others lib (r_world r')"
    "seen others (w_shell (r_world r')) ?v"
    using round_closes [OF ready hist(1,2) refl p(1-3) x(1,2) \<open>seen ?S (w_shell w') ?v\<close>]
      x(10,13-15) fds fds' by auto
  have "session_of r' = v_session (note_line e 0 ?v)"
    using sel r'(2,3,5) fds'(3) x(8,10) fds(7,8) effect_keeps
    by (simp add: session_of_def note_line_def seen_def)
  then have "represents others lib r' (note_line e 0 ?v)"
    using rep r'(2,4,5) x(8,10,16) fds(7,8,10) fds'(1,2)
    by (simp add: represents_def seen_def note_line_def effect_keeps)
  moreover have "enter lib l v = note_line e 0 ?v" using plan by (simp add: enter_def line_effect_def)
  moreover have "cleared ?w (r_world r')"
    using p(7,8) a(1) x(3,9,12) fds(9) r'(2) by (simp add: cleared_def)
  ultimately show ?thesis using r'(1) by auto
qed

section \<open>Lists and pipelines\<close>

lemma all_complete_listed:
  assumes "list_all (\<lambda>c. connectionMask c \<noteq> commandConnectionPipe \<and> files_open k c \<and> complete c) cl"
    "seen others (w_shell w) v" "length (v_defs v) < 536870914" "length (v_cwd v) < BUFSIZE"
  shows "list_all (listed k w (ends_in k v)) cl"
  using assms(1) ends_as_in [OF assms(2-4)] by (auto simp: list_all_iff listed_def)

lemma all_complete_flows:
  assumes "list_all (\<lambda>c. files_open k c \<and> complete c) cl"
    "seen others (w_shell w) v" "length (v_defs v) < 536870914" "length (v_cwd v) < BUFSIZE"
  shows "list_all (flows k w (ends_in k v)) cl"
  using assms(1) ends_as_in [OF assms(2-4)] by (auto simp: list_all_iff flows_def)

lemma holds_nodes_unique: "holds_nodes q h as \<Longrightarrow> holds_nodes q h bs \<Longrightarrow> as = bs"
  using node_path_unique by (auto simp: holds_nodes_def)

lemma children_seen:
  assumes "list_all2 (\<lambda>ch c. child_as base ch c (ends c)) chs cl"
  shows "map child_end chs = map (\<lambda>c. Inr (ends c)) cl"
    "map child_std chs = map (channels_of (fd_channel base 0, fd_channel base 1)) cl"
proof -
  have "(stdin_of base c, stdout_of base c) = channels_of (fd_channel base 0, fd_channel base 1) c" for c
    by (simp add: std_of_channels)
  with assms show "map child_end chs = map (\<lambda>c. Inr (ends c)) cl"
    "map child_std chs = map (channels_of (fd_channel base 0, fd_channel base 1)) cl"
    by (induction rule: list_all2_induct) (auto simp: child_as_def child_std_def)
qed

text \<open>A line whose commands are in the queue \<open>q\<close> of the world \<open>from_parser st' w1\<close>.\<close>

definition queued_line ::
    "strheap \<Rightarrow> libraries \<Rightarrow> string \<Rightarrow> view \<Rightarrow> repl \<Rightarrow> string \<Rightarrow> command_t list \<Rightarrow> world \<Rightarrow> parse_state \<Rightarrow> queue_t \<Rightarrow>
     nat list \<Rightarrow> nat list \<Rightarrow> bool" where
  "queued_line others lib l v r e cl w1 st' q as ptrs \<longleftrightarrow>
     w1 = new_string e (new_string l (r_world r)) \<and>
     (\<exists>result. lib_history_expand lib (r_history r) l = (result, e) \<and> \<not> (result < 0 \<or> result = 2)) \<and>
     parseInput (lib_wordexp lib) e (lib_params lib) (to_parser (lib_params lib) w1) = Inr st' \<and>
     queue st' = Some q \<and> queue_count q > 0 \<and>
     cl = map (object_at (w_commands (from_parser st' w1))) ptrs \<and>
     seen (strings_of (w_commands (from_parser st' w1)) ptrs + add_mset e (add_mset l others)) (w_shell (from_parser st' w1)) v \<and>
     cells_grew (w_nodes (r_world r)) (release_nodes as (nodes st')) {} \<and>
     cells_grew (w_commands (r_world r)) (release_nodes ptrs (commands st')) {} \<and>
     queue_sane q (from_parser st' w1) ptrs \<and>
     sane (length (v_defs v)) (add_mset e (add_mset l others)) (from_parser st' w1) ptrs \<and>
     holds_nodes q (w_nodes (from_parser st' w1)) as \<and> length as = length ptrs \<and> ptrs \<noteq> [] \<and> length ptrs < 2 ^ 31"

lemma line_queued:
  assumes rep: "represents others lib r v" and kind: "kind_of lib l v = Listed e cl" and ok: "command_line_ok lib l v"
    and cl: "cl \<noteq> []" "length cl < 2 ^ 31" "list_all runnable cl"
  obtains w1 st' q as ptrs where "queued_line others lib l v r e cl w1 st' q as ptrs"
proof -
  let ?k = "lib_kernel lib"
  note sel = represents_sel [OF rep]
  obtain result rs where hist: "lib_history_expand lib (r_history r) l = (result, e)"
    "\<not> (result < 0 \<or> result = 2)" "length e < 2 ^ 62" "parse_line (cstr e) = Inr rs"
    "all_fine (lib_wordexp lib) (v_defs v) (cstr e)" "list_all (fine (lib_wordexp lib) (v_defs v)) rs"
    "cl = map (\<lambda>x. the (build (lib_wordexp lib) (v_defs v) x)) rs"
    by (rule listed_parsed [OF kind]) (use ok in \<open>auto simp: command_line_ok_def sel(1)\<close>)
  have ready: "shell_ready (v_defs v) others lib (r_world r)" using rep by (simp add: represents_def)
  let ?w = "r_world r"
  let ?w1 = "new_string e (new_string l ?w)"
  let ?S = "add_mset e (add_mset l others)"
  obtain st' q as ptrs S where p: "parseInput (lib_wordexp lib) e (lib_params lib) (to_parser (lib_params lib) ?w1) = Inr st'"
    "queued (lib_wordexp lib) (v_defs v) ?S (to_parser (lib_params lib) ?w1) rs st'"
    "queue st' = Some q" "queue_count q > 0" "queue_holds_commands (from_parser st' ?w1) q as ptrs S"
    "cl = map (object_at (w_commands (from_parser st' ?w1))) ptrs"
    "seen (strings_of (w_commands (from_parser st' ?w1)) ptrs + ?S) (w_shell (from_parser st' ?w1)) v"
    "cells_grew (w_nodes ?w) (release_nodes as (nodes st')) {}"
    "cells_grew (w_commands ?w) (release_nodes ptrs (commands st')) {}"
    by (rule line_parsed [OF rep refl hist(3-7) cl(1,2)])
  let ?W = "from_parser st' ?w1"
  have room: "length (v_cwd v) < BUFSIZE" using ok by (simp add: command_line_ok_def)
  have before: "alias_ok (aliases (to_parser (lib_params lib) ?w1)) ?S" "unmarked (aliases (to_parser (lib_params lib) ?w1))"
    "describes (v_defs v) (aliases (to_parser (lib_params lib) ?w1))"
    using new_lines(1) [OF ready, of e l] by (simp_all add: parser_ready_def unmarked_released)
  note count = describes_count_le [OF before]
  have kids: "list_all (\<lambda>c. \<not> isl (child_end c)) (w_children ?w)"
    using rep by (auto simp: represents_def sel(3) list_all_iff)
  have w1: "length (sh_cwd (w_shell ?w1)) < BUFSIZE" "list_all (\<lambda>c. \<not> isl (child_end c)) (w_children ?w1)"
    using room rep kids by (simp_all add: new_lines(2) [OF ready] represents_def) (simp add: set_heap_def)
  have run_cl: "list_all runnable (map (\<lambda>x. the (build (lib_wordexp lib) (v_defs v) x)) rs)" using cl(3) hist(7) by simp
  obtain q2 ptrs2 where s2: "queue st' = Some q2" "queue_sane q2 ?W ptrs2" "sane (length (v_defs v)) ?S ?W ptrs2"
    "length ptrs2 = length rs"
    using queued_sane [OF p(2) before count hist(6) run_cl w1] by blast
  have "q2 = q" using p(3) s2(1) by simp
  have nodes: "holds_nodes q (w_nodes ?W) as" "items (w_nodes ?W) as = map Some ptrs"
    using p(5) by (simp_all add: queue_holds_commands_def)
  obtain as2 where as2: "holds_nodes q2 (w_nodes ?W) as2" "items (w_nodes ?W) as2 = map Some ptrs2"
    using s2(2) by (auto simp: queue_sane_def)
  then have "as2 = as" using holds_nodes_unique [of q "w_nodes ?W" as2 as] nodes(1) by (simp add: \<open>q2 = q\<close>)
  then have "map Some ptrs2 = map Some ptrs" using as2(2) nodes(2) by simp
  then have "map the (map Some ptrs2) = map the (map Some ptrs)" by simp
  then have "ptrs2 = ptrs" by (simp add: comp_def)
  note s = s2(2,3) [unfolded \<open>q2 = q\<close> \<open>ptrs2 = ptrs\<close>]
  have as: "length as = length ptrs" "ptrs \<noteq> []" "length ptrs < 2 ^ 31"
    using queue_holds_commands_length [OF p(5)] p(6) cl(1,2) by auto
  show thesis
    by (rule that [of ?w1 st' q as ptrs], unfold queued_line_def)
      (intro conjI exI [of _ result]; rule refl hist(1,2) p(1,3,4,6-9) s nodes(1) as)
qed

text \<open>The world before the execution, and how the round ends after it.\<close>

lemma queued_line_world:
  assumes rep: "represents others lib r v" and line: "queued_line others lib l v r e cl w1 st' q as ptrs"
  shows "w_fds (from_parser st' w1) = w_fds (r_world r)" "w_children (from_parser st' w1) = w_children (r_world r)"
    "w_events (from_parser st' w1) = w_events (r_world r)" "w_pipes (from_parser st' w1) = v_pipes v"
    "fd_channel (w_fds (r_world r)) 0 \<noteq> None" "fd_channel (w_fds (r_world r)) 1 \<noteq> None"
    "v_std v = (fd_channel (w_fds (r_world r)) 0, fd_channel (w_fds (r_world r)) 1)"
    "False \<notin> set (w_forks (from_parser st' w1))" "0 < w_next_pid (from_parser st' w1)"
proof -
  have ready: "shell_ready (v_defs v) others lib (r_world r)" using rep by (simp add: represents_def)
  have w1: "w1 = new_string e (new_string l (r_world r))" using line by (simp add: queued_line_def)
  show "w_fds (from_parser st' w1) = w_fds (r_world r)" "w_children (from_parser st' w1) = w_children (r_world r)"
    "w_events (from_parser st' w1) = w_events (r_world r)" "w_pipes (from_parser st' w1) = v_pipes v"
    "fd_channel (w_fds (r_world r)) 0 \<noteq> None" "fd_channel (w_fds (r_world r)) 1 \<noteq> None"
    "v_std v = (fd_channel (w_fds (r_world r)) 0, fd_channel (w_fds (r_world r)) 1)"
    "False \<notin> set (w_forks (from_parser st' w1))" "0 < w_next_pid (from_parser st' w1)"
    using ready rep by (simp_all add: represents_def w1 new_lines(2) [OF ready]) (simp_all add: shell_ready_def)
qed

lemma children_close:
  assumes rep: "represents others lib r v" and line: "queued_line others lib l v r e cl w1 st' q as ptrs"
    and exec: "executeCommandsInQueue (lib_kernel lib) (lib_stack lib) (lib_launched lib) (Some q) (from_parser st' w1) =
        Inr (Return 0 q' w')"
      "w_children w' = w_children (from_parser st' w1) @ chs" "map child_end chs = map (\<lambda>c. Inr (ends_in (lib_kernel lib) v c)) cl"
      "map child_std chs = chans" "w_pipes w' = np"
      "fd_channel (w_fds w') 0 = fd_channel (w_fds (r_world r)) 0" "fd_channel (w_fds w') 1 = fd_channel (w_fds (r_world r)) 1"
      "open_count (w_fds w') = open_count (w_fds (r_world r)) + 2 +
        redirects (redirectFromPath (last cl)) + redirects (redirectToPath (last cl))"
      "sane room (add_mset e (add_mset l others)) w' []" "queue_sane q' w' []" "frame (from_parser st' w1) w'" "w_fg_pid w' = 0"
      "w_nodes w' = release_nodes as (w_nodes (from_parser st' w1))"
      "w_commands w' = release_nodes ptrs (w_commands (from_parser st' w1))"
  shows "\<exists>r'. run_round lib (Some l) r = Inr (Again r') \<and>
    represents others lib r' (children_effect (lib_kernel lib) e cl chans np v) \<and> cleared (r_world r) (r_world r')"
proof -
  let ?W = "from_parser st' w1"
  note W = queued_line_world [OF rep line]
  note sel = represents_sel [OF rep]
  have ready: "shell_ready (v_defs v) others lib (r_world r)" using rep by (simp add: represents_def)
  obtain result where p: "w1 = new_string e (new_string l (r_world r))" "lib_history_expand lib (r_history r) l = (result, e)"
    "\<not> (result < 0 \<or> result = 2)" "parseInput (lib_wordexp lib) e (lib_params lib) (to_parser (lib_params lib) w1) = Inr st'"
    "queue st' = Some q" "queue_count q > 0"
    "seen (strings_of (w_commands ?W) ptrs + add_mset e (add_mset l others)) (w_shell ?W) v"
    "cells_grew (w_nodes (r_world r)) (release_nodes as (nodes st')) {}"
    "cells_grew (w_commands (r_world r)) (release_nodes ptrs (commands st')) {}"
    using line by (auto simp: queued_line_def)
  have empty: "holds_nodes q' (w_nodes w') []" using exec(10) by (auto simp: queue_sane_def items_def)
  have see: "seen (add_mset e (add_mset l others)) (w_shell w') v"
    using p(7) by (rule seen_cong) (use exec(9,11) in \<open>simp_all add: sane_def frame_def same_shell_def\<close>)
  have w': "False \<notin> set (w_forks w')" "0 < w_next_pid w'" "kills (w_events w') = kills (w_events (r_world r))"
    using exec(11) W(3,8,9) by (auto simp: frame_def)
  have std: "fd_channel (w_fds w') 0 \<noteq> None" "fd_channel (w_fds w') 1 \<noteq> None" using exec(6,7) W(5,6) by simp_all
  obtain r' T where r': "run_round lib (Some l) r = Inr (Again r')" "r_world r' = set_heap (w_commands w') T w'"
    "r_history r' = r_history r @ [e]" "shell_ready (v_defs v) others lib (r_world r')" "seen others (w_shell (r_world r')) v"
    by (rule round_closes [OF ready p(2,3,1,4,5,6) exec(1) empty see w'(1,2) exec(12) std])
  let ?v = "children_effect (lib_kernel lib) e cl chans np v"
  have "session_of r' = v_session ?v"
    using sel r'(2,3,5) exec(2,3,8) W(2)
    by (simp add: session_of_def children_effect_def note_line_def add_programs_def seen_def)
  moreover have "map child_std (w_children (r_world r')) = v_channels ?v" "w_pipes (r_world r') = v_pipes ?v"
    using rep exec(2,4,5) r'(2) W(2)
    by (simp_all add: represents_def children_effect_def note_line_def add_programs_def)
  moreover have "list_all (\<lambda>e. \<not> isl e) (programs (v_session ?v))"
    using rep by (auto simp: represents_def children_effect_def note_line_def add_programs_def list_all_iff)
  moreover have "v_defs ?v = v_defs v" "v_env ?v = v_env v" "v_cwd ?v = v_cwd v" "v_out ?v = v_out v" "v_std ?v = v_std v"
    by (simp_all add: children_effect_def note_line_def add_programs_def)
  ultimately have "represents others lib r' ?v"
    using r'(2,4,5) exec(6,7) W(7) by (simp add: represents_def seen_def)
  moreover have "cleared (r_world r) (r_world r')"
    using p(8,9) exec(13,14) w'(3) r'(2) by (simp add: cleared_def)
  ultimately show ?thesis using r'(1) by blast
qed

lemma enter_list:
  assumes rep: "represents others lib r v" and plan: "plan_of (lib_kernel lib) (kind_of lib l v) = By_Children e cl"
    and ok: "command_line_ok lib l v" and env: "environment_ok lib" "short_dirs (lib_kernel lib)"
  shows "\<exists>r'. run_round lib (Some l) r = Inr (Again r') \<and> represents others lib r' (enter lib l v) \<and>
    cleared (r_world r) (r_world r')"
proof -
  let ?k = "lib_kernel lib"
  have kind: "kind_of lib l v = Listed e cl" "is_list ?k cl"
    using plan by (auto simp: plan_of_def split: line_kind.splits if_splits)
  have cl: "cl \<noteq> []" "length cl < 2 ^ 31" "\<not> runs_in_shell (last cl)" "list_all runnable cl"
    "list_all (\<lambda>c. connectionMask c \<noteq> commandConnectionPipe \<and> files_open ?k c \<and> complete c) cl"
    using kind(2) by (auto simp: is_list_def list_all_iff complete_def)
  obtain w1 st' q as ptrs where line: "queued_line others lib l v r e cl w1 st' q as ptrs"
    by (rule line_queued [OF rep kind(1) ok cl(1,2,4)])
  let ?W = "from_parser st' w1"
  have p: "cl = map (object_at (w_commands ?W)) ptrs" "seen (strings_of (w_commands ?W) ptrs + add_mset e (add_mset l others)) (w_shell ?W) v"
    "queue_sane q ?W ptrs" "sane (length (v_defs v)) (add_mset e (add_mset l others)) ?W ptrs"
    "holds_nodes q (w_nodes ?W) as" "length as = length ptrs" "ptrs \<noteq> []" "length ptrs < 2 ^ 31"
    using line unfolding queued_line_def by - (elim conjE exE, assumption)+
  note W = queued_line_world [OF rep line]
  have room: "length (v_defs v) < 536870914" "length (v_cwd v) < BUFSIZE" using ok by (simp_all add: command_line_ok_def)
  have fds: "fd_channel (w_fds ?W) 0 \<noteq> None" "fd_channel (w_fds ?W) 1 \<noteq> None" "open_count (w_fds ?W) + 4 \<le> fd_limit ?k"
    using W(1,5,6) ok represents_sel(2) [OF rep] by (simp_all add: command_line_ok_def)
  have stack: "\<forall>j. lib_stack lib j < 0" using env(1) by (simp add: environment_ok_def)
  obtain q' w' chs where x: "executeCommandsInQueue ?k (lib_stack lib) (lib_launched lib) (Some q) ?W = Inr (Return 0 q' w')"
    "w_children w' = w_children ?W @ chs" "list_all2 (\<lambda>ch c. child_as (w_fds ?W) ch c (ends_in ?k v c)) chs cl"
    "fd_channel (w_fds w') 0 = fd_channel (w_fds ?W) 0" "fd_channel (w_fds w') 1 = fd_channel (w_fds ?W) 1"
    "open_count (w_fds w') = open_count (w_fds ?W) + 2 + redirects (redirectFromPath (last cl)) + redirects (redirectToPath (last cl))"
    "sane (length (v_defs v)) (add_mset e (add_mset l others)) w' []" "queue_sane q' w' []" "frame ?W w'" "w_fg_pid w' = 0"
    "w_nodes w' = release_nodes as (w_nodes ?W)" "w_commands w' = release_nodes ptrs (w_commands ?W)" "w_pipes w' = w_pipes ?W"
    using executeCommands_listed_run [OF p(4) room(1) p(3) env(2) p(8,7,1) all_complete_listed [OF cl(5) p(2) room] cl(3)
        fds stack W(8) p(5,6), of "lib_launched lib"] by (elim exE conjE) (rule that)
  note kids = children_seen [OF x(3)]
  have "enter lib l v = children_effect ?k e cl (map (channels_of (v_std v)) cl) (v_pipes v) v"
    using plan by (simp add: enter_def line_effect_def)
  with children_close [OF rep line x(1,2) kids refl x(4-6)[unfolded W(1)] x(7-12)] show ?thesis
    unfolding W(1) by (simp only: W(4,7) x(13))
qed

lemma enter_pipeline:
  assumes rep: "represents others lib r v" and plan: "plan_of (lib_kernel lib) (kind_of lib l v) = By_Pipeline e cl"
    and ok: "command_line_ok lib l v" "open_fds (v_session v) + 2 * length cl + 2 \<le> fd_limit (lib_kernel lib)"
    and env: "environment_ok lib" "short_dirs (lib_kernel lib)"
  shows "\<exists>r'. run_round lib (Some l) r = Inr (Again r') \<and> represents others lib r' (enter lib l v) \<and>
    cleared (r_world r) (r_world r')"
proof -
  let ?k = "lib_kernel lib"
  have kind: "kind_of lib l v = Listed e cl" "is_pipeline ?k cl"
    using plan by (auto simp: plan_of_def split: line_kind.splits if_splits)
  have cl: "cl \<noteq> []" "length cl < 2 ^ 31" "chain cl" "list_all runnable cl" "2 \<le> length cl"
    "list_all (\<lambda>c. files_open ?k c \<and> complete c) cl"
    using kind(2) by (auto simp: is_pipeline_def list_all_iff complete_def)
  obtain w1 st' q as ptrs where line: "queued_line others lib l v r e cl w1 st' q as ptrs"
    by (rule line_queued [OF rep kind(1) ok(1) cl(1,2,4)])
  let ?W = "from_parser st' w1"
  have p: "cl = map (object_at (w_commands ?W)) ptrs" "seen (strings_of (w_commands ?W) ptrs + add_mset e (add_mset l others)) (w_shell ?W) v"
    "queue_sane q ?W ptrs" "sane (length (v_defs v)) (add_mset e (add_mset l others)) ?W ptrs"
    "holds_nodes q (w_nodes ?W) as" "length as = length ptrs" "length ptrs < 2 ^ 31"
    using line unfolding queued_line_def by - (elim conjE exE, assumption)+
  have len: "length ptrs = length cl" using p(1) by simp
  note W = queued_line_world [OF rep line]
  have room: "length (v_defs v) < 536870914" "length (v_cwd v) < BUFSIZE" using ok(1) by (simp_all add: command_line_ok_def)
  have fds: "fd_channel (w_fds ?W) 0 \<noteq> None" "fd_channel (w_fds ?W) 1 \<noteq> None"
    "open_count (w_fds ?W) + 2 * length ptrs + 2 \<le> fd_limit ?k" "2 \<le> length ptrs"
    using W(1,5,6) ok(2) represents_sel(2) [OF rep] cl(5) by (simp_all add: len)
  have stack: "lib_stack lib (- 2) < 0" using env(1) by (simp add: environment_ok_def)
  obtain q' w' chs where x: "executeCommandsInQueue ?k (lib_stack lib) (lib_launched lib) (Some q) ?W = Inr (Return 0 q' w')"
    "w_children w' = w_children ?W @ chs"
    "children_flow (w_pipes ?W) (length ptrs) (ends_in ?k v) 0 (with_copies ?k (w_fds ?W)) cl chs"
    "fd_channel (w_fds w') 0 = fd_channel (w_fds ?W) 0" "fd_channel (w_fds w') 1 = fd_channel (w_fds ?W) 1"
    "open_count (w_fds w') = open_count (w_fds ?W) + 2 + redirects (redirectFromPath (last cl)) + redirects (redirectToPath (last cl))"
    "w_pipes w' = w_pipes ?W + (length ptrs - 1)"
    "sane (length (v_defs v)) (add_mset e (add_mset l others)) w' []" "queue_sane q' w' []" "frame ?W w'" "w_fg_pid w' = 0"
    "w_nodes w' = release_nodes as (w_nodes ?W)" "w_commands w' = release_nodes ptrs (w_commands ?W)"
    using executeCommands_flow_run [where stack = "lib_stack lib", OF p(4) room(1) p(3) env(2) p(7) fds(4) p(1)
        all_complete_flows [OF cl(6) p(2) room] cl(3) fds(1-3) stack W(8) p(5,6), of "lib_launched lib"]
    by (elim exE conjE) (rule that)
  have "standard_fds ?k (w_fds ?W)" using fds by (simp add: standard_fds_def)
  note std = copies_std [OF this]
  note kids = children_flow_channels [OF x(3) std(3)]
  have chans: "map child_std chs = flow_channels (v_pipes v) (length cl) 0 (v_std v) cl"
    using kids(2) [unfolded std(1,2)] unfolding child_std_def W(1,4,7) len .
  have "enter lib l v = children_effect ?k e cl (flow_channels (v_pipes v) (length cl) 0 (v_std v) cl) (v_pipes v + (length cl - 1)) v"
    using plan by (simp add: enter_def line_effect_def)
  with children_close [OF rep line x(1,2) kids(1) chans x(7) x(4-6)[unfolded W(1)] x(8-13)] show ?thesis
    by (simp only: W(4) len)
qed

lemma line_entered:
  assumes "represents others lib r v" "enter_ok lib l v" "environment_ok lib" "short_dirs (lib_kernel lib)"
  shows "\<exists>r'. run_round lib (Some l) r = Inr (Again r') \<and> represents others lib r' (enter lib l v) \<and>
    cleared (r_world r) (r_world r')"
proof (cases "plan_of (lib_kernel lib) (kind_of lib l v)")
  case (By_Shell e c)
  with assms enter_builtin [OF assms(1) By_Shell] show ?thesis by (simp add: enter_ok_def)
next
  case (By_Children e cl)
  with assms enter_list [OF assms(1) By_Children] show ?thesis by (simp add: enter_ok_def)
next
  case (By_Pipeline e cl)
  with assms enter_pipeline [OF assms(1) By_Pipeline] show ?thesis by (simp add: enter_ok_def)
next
  case Otherwise
  with assms enter_other [OF assms(1) Otherwise] show ?thesis by (simp add: enter_ok_def)
qed

section \<open>The whole session\<close>

text \<open>What a signal does to the view while the shell waits, and what happens in a session.\<close>

definition interrupt :: "int \<Rightarrow> view \<Rightarrow> view" where
  "interrupt s v =
     (if s = SIGINT then say newline v
      else if s = SIGCHLD then v
      else report (''Caught unexpected signal '' @ signed_decimal s @ newline) v)"

fun happen :: "libraries \<Rightarrow> happening \<Rightarrow> view \<Rightarrow> view" where
  "happen lib (Typed l) v = enter lib l v"
| "happen lib (Signalled s) v = interrupt s v"

fun happenings_ok :: "libraries \<Rightarrow> happening list \<Rightarrow> view \<Rightarrow> bool" where
  "happenings_ok lib [] v = True"
| "happenings_ok lib (Typed l # hs) v = (if enter_ok lib l v then happenings_ok lib hs (enter lib l v) else False)"
| "happenings_ok lib (Signalled s # hs) v = happenings_ok lib hs (interrupt s v)"

text \<open>The loop, the handler running whenever a signal comes.\<close>

fun live :: "libraries \<Rightarrow> happening list \<Rightarrow> repl \<Rightarrow> fault + round" where
  "live lib [] r = Inr (Again r)"
| "live lib (Typed l # hs) r =
     rbind (run_round lib (Some l) r) (\<lambda>x.
       case x of Again r1 \<Rightarrow> live lib hs r1 | Exited s w \<Rightarrow> Inr (Exited s w))"
| "live lib (Signalled s # hs) r = live lib hs (r\<lparr>r_world := signalHandler s (r_world r)\<rparr>)"


lemma interrupted:
  assumes rep: "represents others lib r v"
  shows "represents others lib (r\<lparr>r_world := signalHandler s (r_world r)\<rparr>) (interrupt s v)"
    "cleared (r_world r) (signalHandler s (r_world r))"
proof -
  have fg: "w_fg_pid (r_world r) = 0" and ready: "shell_ready (v_defs v) others lib (r_world r)"
    using rep by (simp_all add: represents_def shell_ready_def)
  have keep: "v_defs (interrupt s v) = v_defs v" "v_env (interrupt s v) = v_env v" "v_cwd (interrupt s v) = v_cwd v"
    "v_std (interrupt s v) = v_std v" "v_channels (interrupt s v) = v_channels v"
    "programs (v_session (interrupt s v)) = programs (v_session v)" "v_pipes (interrupt s v) = v_pipes v"
    by (simp_all add: interrupt_def say_def report_def)
  have shell: "sh_env (w_shell (signalHandler s (r_world r))) = sh_env (w_shell (r_world r))"
    "sh_cwd (w_shell (signalHandler s (r_world r))) = sh_cwd (w_shell (r_world r))"
    "w_pipes (signalHandler s (r_world r)) = w_pipes (r_world r)"
    using fg by (simp_all add: signalHandler_def put_out_world_def put_err_world_def put_out_def put_err_def add_event_def)
  have out: "sh_out (w_shell (signalHandler s (r_world r))) = v_out (interrupt s v)"
    using rep fg
    by (simp add: represents_def interrupt_def say_def report_def signalHandler_def put_out_world_def
        put_err_world_def put_out_def put_err_def add_event_def)
  have session: "session_of (r\<lparr>r_world := signalHandler s (r_world r)\<rparr>) = v_session (interrupt s v)"
    using represents_sel [OF rep] fg
    by (simp add: session_of_def interrupt_def say_def report_def signalHandler_def put_out_world_def
        put_err_world_def put_out_def put_err_def add_event_def)
  show "represents others lib (r\<lparr>r_world := signalHandler s (r_world r)\<rparr>) (interrupt s v)"
    using rep signalled_step(1) [OF ready refl, of s] session shell out
    by (simp add: represents_def keep)
  show "cleared (r_world r) (signalHandler s (r_world r))"
    using signalHandler_idle(2) [OF fg] by (simp add: cleared_def cells_grew_def)
qed

lemma live_run:
  assumes "represents others lib r v" "environment_ok lib" "short_dirs (lib_kernel lib)" "happenings_ok lib hs v"
  shows "\<exists>r'. live lib hs r = Inr (Again r') \<and> represents others lib r' (fold (happen lib) hs v) \<and>
    cleared (r_world r) (r_world r')"
  using assms
proof (induction hs arbitrary: r v)
  case (Cons h hs)
  have step: ?case if r1: "represents others lib r1 (happen lib h v)" "cleared (r_world r) (r_world r1)"
      "live lib (h # hs) r = live lib hs r1" "happenings_ok lib hs (happen lib h v)" for r1
  proof -
    obtain r' where "live lib hs r1 = Inr (Again r')" "represents others lib r' (fold (happen lib) hs (happen lib h v))"
      "cleared (r_world r1) (r_world r')"
      using Cons.IH [OF r1(1) Cons.prems(2,3) r1(4)] by blast
    with r1(3) cleared_trans [OF r1(2)] show ?thesis by (intro exI [of _ r']) simp
  qed
  show ?case
  proof (cases h)
    case (Typed l)
    have ok: "enter_ok lib l v" "happenings_ok lib hs (enter lib l v)"
      using Cons.prems(4) Typed by (simp_all split: if_splits)
    obtain r1 where r1: "run_round lib (Some l) r = Inr (Again r1)" "represents others lib r1 (enter lib l v)"
      "cleared (r_world r) (r_world r1)"
      using line_entered [OF Cons.prems(1) ok(1) Cons.prems(2,3)] by blast
    show ?thesis using r1 ok(2) Typed by (intro step [of r1]) simp_all
  next
    case (Signalled s)
    show ?thesis using interrupted [OF Cons.prems(1), of s] Cons.prems(4) Signalled
      by (intro step [of "r\<lparr>r_world := signalHandler s (r_world r)\<rparr>"]) simp_all
  qed
qed simp

text \<open>What one sees of the shell when it starts.\<close>

definition start_view :: "libraries \<Rightarrow> world \<Rightarrow> view" where
  "start_view lib w =
     \<lparr>v_session = session_of (fresh_repl lib w), v_defs = [], v_env = sh_env (w_shell w),
      v_cwd = sh_cwd (w_shell w), v_out = sh_out (w_shell w),
      v_std = (fd_channel (w_fds w) 0, fd_channel (w_fds w) 1), v_channels = [], v_pipes = w_pipes w\<rparr>"




lemma start_represented:
  assumes "shell_ready [] others lib (w\<lparr>w_shell := (w_shell w)\<lparr>sh_aliases := al\<rparr>\<rparr>)" "w_children w = []"
  shows "represents others lib (fresh_repl lib (w\<lparr>w_shell := (w_shell w)\<lparr>sh_aliases := al\<rparr>\<rparr>)) (start_view lib w)"
  using assms by (simp add: represents_def start_view_def session_of_def)

section \<open>Properties\<close>

text \<open>C1. Refinement of interactive sessions. If a view represents the shell that waits for input, then every
  sequence of typed lines and signals that \<open>happenings_ok\<close> admits - builtins, lists and pipelines of
  programs and builtins with redirections, background commands, commands that are not found, wrong
  lines - is handled without a fault, and the view after \<open>happen\<close> for each of them represents the
  shell again: how every child ended, with what text, and what it had at its descriptors 0 and 1;
  history, messages, open descriptors, aliases (with which the following lines are read),
  environment, directory and output. Every command and node has been freed, and no signal was sent
  to a process.\<close>

theorem interactive_refines:
  assumes "represents others lib r v" "environment_ok lib" "short_dirs (lib_kernel lib)" "happenings_ok lib hs v"
  shows "\<exists>r'. live lib hs r = Inr (Again r') \<and> represents others lib r' (fold (happen lib) hs v) \<and>
    cleared (r_world r) (r_world r')"
  using live_run [OF assms] .



section \<open>Witnesses\<close>

text \<open>A system on which the program \<open>nosuch\<close> does not exist.\<close>

definition system :: libraries where
  "system = small_libraries\<lparr>lib_kernel := small_kernel\<lparr>execvp := (\<lambda>p _. if p = Some ''nosuch'' then Exec_Error True [] else Replaced)\<rparr>\<rparr>"

lemma system_ok: "environment_ok system" "short_dirs (lib_kernel system)" "fresh_process system small_world"
  using small_environment small_libraries_dirs small_world_fresh
  by (simp_all add: system_def environment_ok_def short_dirs_def fresh_process_def small_libraries_def)

abbreviation small_view :: view where
  "small_view \<equiv> start_view system small_world"

abbreviation dialogue :: "string list" where
  "dialogue \<equiv> [''alias l=ls'', ''l -a | wc'', ''cd /tmp; l > out'', ''cd /tmp'', ''sort < in > names | pwd | wc'', ''pwd; nosuch; exit; ps &'', ''unalias'',
     ''export A=b=c'', ''!!'', ''ls | | wc'', ''unalias l'', ''l < in'', ''echo a b'']"

abbreviation evening :: "happening list" where
  "evening \<equiv> [Typed ''cd'', Signalled SIGINT, Typed ''pwd; ls &'', Signalled SIGCHLD, Signalled 10, Typed ''pwd'']"


lemma small_prompt_ok:
  "prompt small_prompt = None" "False \<notin> set (pr_oom small_prompt)" "pr_strings small_prompt = {#''root''#}"
  "length ''box'' < BUFSIZE"
  by (simp_all add: small_prompt_def BUFSIZE_def)

lemma small_world_children: "w_children small_world = []"
  by (simp add: small_world_def world_with_def)

lemma small_view_eq:
  "small_view = \<lparr>v_session = \<lparr>programs = [], past_lines = [], error_output = [], open_fds = 3\<rparr>, v_defs = [],
     v_env = [''HOME'' \<mapsto> ''/root''], v_cwd = ''/'', v_out = [], v_std = (Some (Terminal 0), Some (Terminal 1)),
     v_channels = [], v_pipes = 0\<rparr>"
proof -
  have "session_of (fresh_repl system small_world) = session_of (fresh_repl small_libraries small_world)"
    by (simp add: session_of_def)
  then show ?thesis
    unfolding start_view_def small_world_session
    by (simp add: small_world_def) (simp add: world_with_def home_shell_def fd_channel_def)
qed

lemma dialogue_ok: "happenings_ok system (map Typed dialogue) small_view" "happenings_ok system evening small_view"
  unfolding small_view_eq by code_simp+



lemma evening_result:
  "v_out (fold (happen system) evening small_view) = newline @ ''/root'' @ newline"
  "error_output (v_session (fold (happen system) evening small_view)) = ''Caught unexpected signal 10'' @ newline"
  "programs (v_session (fold (happen system) evening small_view)) =
     [Inr (Exits 0 (''/root'' @ newline) []), Inr (Runs (Some ''ls'') [''ls''])]"
  unfolding small_view_eq by code_simp+


lemma small_start: "\<exists>others r. represents others system r small_view"
proof -
  obtain al where "shell_ready [] (w_strings small_world) system
      (small_world\<lparr>w_shell := (w_shell small_world)\<lparr>sh_aliases := al\<rparr>\<rparr>)"
    using main_run [where sigaction = "\<lambda>_. True", OF TrueI TrueI system_ok(3) small_prompt_ok] by blast
  from start_represented [OF this small_world_children] show ?thesis by blast
qed

theorem interactive_refines_witness:
  "\<exists>r r'. live system evening r = Inr (Again r') \<and> sh_out (w_shell (r_world r')) = newline @ ''/root'' @ newline \<and>
    map child_end (w_children (r_world r')) = [Inr (Exits 0 (''/root'' @ newline) []), Inr (Runs (Some ''ls'') [''ls''])]"
proof -
  obtain others r where r: "represents others system r small_view" using small_start by blast
  obtain r' where r': "live system evening r = Inr (Again r')"
    "represents others system r' (fold (happen system) evening small_view)"
    using interactive_refines [OF r system_ok(1,2) dialogue_ok(2)] by blast
  moreover have "sh_out (w_shell (r_world r')) = v_out (fold (happen system) evening small_view)"
    using r'(2) by (simp add: represents_def del: fold.simps)
  ultimately show ?thesis using represents_sel(3) [OF r'(2)] unfolding evening_result by metis
qed



end
